(* ===== verification/Prelude.thy ===== *)
theory Prelude
  imports Main "HOL-Library.Word" "HOL-Library.Char_ord" "HOL-Library.List_Lexorder"
    "HOL-Library.Multiset"
begin

text \<open>
  Shared ground of the development: the types that name bytes and machine integers, the
  failures a C++ run can end in, the error monad the models thread them through, the
  little-endian image of a \<open>uint64_t\<close> in memory (the \<open>(char*)&count\<close> casts of the source),
  and the generic list lemmas of the component theories.
\<close>

section \<open>Types\<close>

text \<open>
  A \<open>std::string\<close>, a \<open>char\<close> buffer and a LevelDB key or value are all byte sequences; a byte
  is a HOL \<open>char\<close>. The order on them (from \<open>Char_ord\<close> and \<open>List_Lexorder\<close>) is the unsigned
  bytewise lexicographic order of \<open>memcmp\<close> and of LevelDB's default comparator.
\<close>

type_synonym bytes = string
type_synonym u64 = "64 word"

abbreviation NUL :: char where
  "NUL \<equiv> CHR 0x00"

text \<open>\<open>#define FP_SIZE 6\<close> (\<open>int FPSIZE = 6\<close> in the bucket programs), in every program.\<close>

abbreviation FP_SIZE :: nat where
  "FP_SIZE \<equiv> 6"

text \<open>
  The ways a modelled run can end early: a failed \<open>assert\<close>, a call of \<open>exit\<close>, and the uses of
  C++ that have no defined result, each by its kind, so that every theorem about a returned
  state is about a run that has none of them.
\<close>

datatype cpp_error =
    AssertFail
  | ExitCall int
  | NullDeref
  | EmptyTop
  | OutOfBounds
  | Uninitialised
  | BufferOverflow
  | StdOutOfRange
  | IntOverflow
  | ApError

section \<open>The error monad\<close>

named_theorems run_simps \<open>unfolding rules for runs of the error monad\<close>

definition bindE :: "'e + 'a \<Rightarrow> ('a \<Rightarrow> 'e + 'b) \<Rightarrow> 'e + 'b" where
  "bindE m f = (case m of Inl e \<Rightarrow> Inl e | Inr x \<Rightarrow> f x)"

lemma bindE_simps [simp, run_simps, code]:
  "bindE (Inl e) f = Inl e"
  "bindE (Inr x) f = f x"
  by (simp_all add: bindE_def)

lemma bindE_eq_Inr: "bindE m f = Inr y \<longleftrightarrow> (\<exists>x. m = Inr x \<and> f x = Inr y)"
  by (cases m) auto

lemma bindE_Inr_elim [elim!]:
  assumes "bindE m f = Inr y"
  obtains x where "m = Inr x" and "f x = Inr y"
  using assms by (auto simp: bindE_eq_Inr)

lemma bindE_assoc: "bindE (bindE m f) g = bindE m (\<lambda>x. bindE (f x) g)"
  by (cases m) auto

definition assertE :: "bool \<Rightarrow> 'a \<Rightarrow> cpp_error + 'a" where
  "assertE b x = (if b then Inr x else Inl AssertFail)"

lemma assertE_Inr [simp]: "assertE b x = Inr y \<longleftrightarrow> b \<and> y = x"
  by (auto simp: assertE_def)

text \<open>A loop that runs its body once for each element of a sequence, in order, and stops at
  the first failure.\<close>

fun foldE :: "('a \<Rightarrow> 's \<Rightarrow> 'e + 's) \<Rightarrow> 'a list \<Rightarrow> 's \<Rightarrow> 'e + 's" where
  "foldE f [] s = Inr s"
| "foldE f (x # xs) s = bindE (f x s) (foldE f xs)"

lemma foldE_append: "foldE f (xs @ ys) s = bindE (foldE f xs s) (foldE f ys)"
proof (induction xs arbitrary: s)
  case Nil
  then show ?case by simp
next
  case (Cons x xs)
  then show ?case by (cases "f x s") auto
qed

lemma foldE_Inr_eq_fold:
  assumes "\<And>x s. x \<in> set xs \<Longrightarrow> f x s = Inr (g x s)"
  shows "foldE f xs s = Inr (fold g xs s)"
  using assms by (induction xs arbitrary: s) auto

lemma foldE_invariant:
  assumes "foldE f xs s = Inr s'" and "I s"
    and "\<And>x s s'. x \<in> set xs \<Longrightarrow> I s \<Longrightarrow> f x s = Inr s' \<Longrightarrow> I s'"
  shows "I s'"
  using assms by (induction xs arbitrary: s) auto

lemma foldE_succeeds:
  assumes "I s" and "\<And>x s. x \<in> set xs \<Longrightarrow> I s \<Longrightarrow> \<exists>s'. f x s = Inr s' \<and> I s'"
  shows "\<exists>s'. foldE f xs s = Inr s' \<and> I s'"
  using assms
proof (induction xs arbitrary: s)
  case Nil
  then show ?case by simp
next
  case (Cons x xs)
  from Cons.prems obtain s1 where s1: "f x s = Inr s1" "I s1" by fastforce
  moreover from Cons.IH[OF s1(2)] Cons.prems(2)
  obtain s2 where "foldE f xs s1 = Inr s2" "I s2" by fastforce
  ultimately show ?case by simp
qed

lemma foldE_cong_set: "(\<And>x s. x \<in> set xs \<Longrightarrow> f x s = g x s) \<Longrightarrow> foldE f xs s = foldE g xs s"
proof (induction xs arbitrary: s)
  case (Cons x xs)
  then have "foldE f xs = foldE g xs" by (auto simp: fun_eq_iff)
  with Cons.prems show ?case by simp
qed simp

lemma foldE_map: "foldE f (map h xs) s = foldE (\<lambda>x. f (h x)) xs s"
proof (induction xs arbitrary: s)
  case (Cons x xs)
  then show ?case by (cases "f (h x) s") auto
qed simp

text \<open>A loop whose body skips some of the elements.\<close>

lemma foldE_skip:
  "foldE (\<lambda>x s. if P x then Inr s else f (g x) s) xs s = foldE f (map g (filter (\<lambda>x. \<not> P x) xs)) s"
proof (induction xs arbitrary: s)
  case (Cons x xs)
  then show ?case by (cases "f (g x) s") auto
qed simp

section \<open>The bytes of a uint64_t\<close>

text \<open>
  The programs store counters as \<open>std::string((char*)&count, sizeof(uint64_t))\<close> and read them
  back with \<open>*(uint64_t*)s.c_str()\<close>; on the little-endian machines they run on that is the
  base-256 expansion, least significant byte first.
\<close>

fun le_bytes :: "nat \<Rightarrow> nat \<Rightarrow> bytes" where
  "le_bytes 0 n = []"
| "le_bytes (Suc k) n = char_of (n mod 256) # le_bytes k (n div 256)"

fun le_nat :: "bytes \<Rightarrow> nat" where
  "le_nat [] = 0"
| "le_nat (c # cs) = of_char c + 256 * le_nat cs"

definition u64_bytes :: "u64 \<Rightarrow> bytes" where
  "u64_bytes w = le_bytes 8 (unat w)"

definition bytes_u64 :: "bytes \<Rightarrow> u64" where
  "bytes_u64 bs = word_of_nat (le_nat bs)"

lemma length_le_bytes [simp]: "length (le_bytes k n) = k"
  by (induction k arbitrary: n) auto

lemma length_u64_bytes [simp]: "length (u64_bytes w) = 8"
  by (simp add: u64_bytes_def)

lemma le_nat_le_bytes: "le_nat (le_bytes k n) = n mod 256 ^ k"
proof (induction k arbitrary: n)
  case 0
  then show ?case by simp
next
  case (Suc k)
  have "n mod (256 * 256 ^ k) = 256 * (n div 256 mod 256 ^ k) + n mod 256"
    by (rule mod_mult2_eq)
  with Suc show ?case by simp
qed

lemma bytes_u64_bytes [simp]: "bytes_u64 (u64_bytes w) = w"
proof -
  have "unat w < 256 ^ 8" using unsigned_less[of w, where 'a = nat] by simp
  then show ?thesis by (simp add: bytes_u64_def u64_bytes_def le_nat_le_bytes)
qed

lemma u64_bytes_inject [simp]: "u64_bytes v = u64_bytes w \<longleftrightarrow> v = w"
  by (metis bytes_u64_bytes)

text \<open>
  \<open>s.c_str() + off\<close> points into \<open>length s + 1\<close> readable bytes, the last of them the
  terminating NUL; a read that runs past them is out of bounds.
\<close>

definition read_bytes :: "bytes \<Rightarrow> nat \<Rightarrow> nat \<Rightarrow> cpp_error + bytes" where
  "read_bytes s off n =
     (if off + n \<le> length s + 1 then Inr (take n (drop off (s @ [NUL]))) else Inl OutOfBounds)"

definition read_u64 :: "bytes \<Rightarrow> nat \<Rightarrow> cpp_error + u64" where
  "read_u64 s off = bindE (read_bytes s off 8) (\<lambda>bs. Inr (bytes_u64 bs))"

lemma read_bytes_inside:
  "off + n \<le> length s \<Longrightarrow> read_bytes s off n = Inr (take n (drop off s))"
  by (simp add: read_bytes_def)

lemma length_read_bytes: "read_bytes s off n = Inr bs \<Longrightarrow> length bs = n"
  by (auto simp: read_bytes_def split: if_splits)

lemma read_u64_u64_bytes [simp]: "read_u64 (u64_bytes w) 0 = Inr w"
  by (simp add: read_u64_def read_bytes_inside)

lemma read_u64_at:
  "length xs = off \<Longrightarrow> read_u64 (xs @ u64_bytes w @ ys) off = Inr w"
  by (simp add: read_u64_def read_bytes_inside)

lemma read_bytes_at:
  "length xs = off \<Longrightarrow> length bs = n \<Longrightarrow> read_bytes (xs @ bs @ ys) off n = Inr bs"
  by (simp add: read_bytes_inside)

section \<open>Stores that follow a sequence\<close>

text \<open>The contract of an operation that absorbs one more element: \<open>follows xs s\<close> says that the state
  \<open>s\<close> is what absorbing \<open>xs\<close> leaves, \<open>fits xs\<close> that \<open>xs\<close> stays within the bounds of the store. The loop over a
  whole sequence is proved once.\<close>

locale sequence_store =
  fixes absorb :: "'a \<Rightarrow> 's \<Rightarrow> 'e + 's"
    and fits :: "'a list \<Rightarrow> bool"
    and follows :: "'a list \<Rightarrow> 's \<Rightarrow> bool"
  assumes fits_prefix: "fits (xs @ ys) \<Longrightarrow> fits xs"
    and absorb_follows:
      "follows xs s \<Longrightarrow> fits (xs @ [x]) \<Longrightarrow> \<exists>s'. absorb x s = Inr s' \<and> follows (xs @ [x]) s'"
begin

lemma absorb_all:
  "follows xs s \<Longrightarrow> fits (xs @ ys) \<Longrightarrow> \<exists>s'. foldE absorb ys s = Inr s' \<and> follows (xs @ ys) s'"
proof (induction ys arbitrary: xs s)
  case (Cons y ys)
  have "fits (xs @ [y])" using Cons.prems(2) fits_prefix[of "xs @ [y]" ys] by simp
  then obtain s1 where s1: "absorb y s = Inr s1" "follows (xs @ [y]) s1"
    using absorb_follows[OF Cons.prems(1)] by blast
  moreover obtain s2 where "foldE absorb ys s1 = Inr s2" "follows (xs @ y # ys) s2"
    using Cons.IH[OF s1(2)] Cons.prems(2) by auto
  ultimately show ?case by simp
qed simp

end

end
