(* ===== verification/CLib.thy ===== *)
theory CLib
  imports Prelude Complex_Main
begin

text \<open>
  The part of the C and C++ standard library the programs use on text: \<open>fgets\<close>, \<open>strtok\<close>,
  \<open>strpbrk\<close>, \<open>strtol\<close>, \<open>atoi\<close>, \<open>std::to_string\<close> and the \<open>printf\<close> conversions \<open>%02x\<close> and
  \<open>%d\<close>, and the loop, repeated in every program, that reads a fingerprint from a trace line.
  The lemmas are the round trips between printing and parsing that connect the programs that
  write traces with those that read them.
\<close>

section \<open>Characters and C strings\<close>

abbreviation TAB :: char where
  "TAB \<equiv> CHR 0x09"

abbreviation LF :: char where
  "LF \<equiv> CHR 0x0A"

text \<open>What a \<open>char*\<close> into a buffer denotes: the bytes before the first NUL.\<close>

definition cstr :: "bytes \<Rightarrow> string" where
  "cstr s = takeWhile (\<lambda>c. c \<noteq> NUL) s"

definition is_space :: "char \<Rightarrow> bool" where
  "is_space c \<longleftrightarrow> c \<in> set [CHR '' '', TAB, LF, CHR 0x0B, CHR 0x0C, CHR 0x0D]"

text \<open>The value of a digit letter; 99 for a character that is no digit of any base.\<close>

definition digit_of :: "char \<Rightarrow> nat" where
  "digit_of c =
     (let n = of_char c :: nat in
      if 48 \<le> n \<and> n \<le> 57 then n - 48
      else if 97 \<le> n \<and> n \<le> 122 then n - 87
      else if 65 \<le> n \<and> n \<le> 90 then n - 55
      else 99)"

definition digit_char :: "nat \<Rightarrow> char" where
  "digit_char n = char_of (if n < 10 then 48 + n else 87 + n)"

section \<open>Reading lines\<close>

fun fgets_go :: "nat \<Rightarrow> string \<Rightarrow> string \<times> string" where
  "fgets_go 0 s = ([], s)"
| "fgets_go (Suc n) [] = ([], [])"
| "fgets_go (Suc n) (c # cs) =
     (if c = LF then ([c], cs) else (let (l, r) = fgets_go n cs in (c # l, r)))"

text \<open>\<open>fgets(buf, n, fp)\<close> on a stream whose unread bytes are \<open>s\<close>: the line read and the bytes
  left, or NULL at the end of the file.\<close>

definition fgets :: "nat \<Rightarrow> string \<Rightarrow> (string \<times> string) option" where
  "fgets n s = (if s = [] then None else Some (fgets_go (n - 1) s))"

lemma fgets_go_append: "fst (fgets_go n s) @ snd (fgets_go n s) = s"
  by (induction n s rule: fgets_go.induct) (auto split: prod.splits)

lemma fgets_go_shorter: "s \<noteq> [] \<Longrightarrow> length (snd (fgets_go (Suc n) s)) < length s"
proof (cases s)
  case (Cons c cs)
  have "length (snd (fgets_go n cs)) \<le> length cs"
    using fgets_go_append[of n cs] by (metis length_append le_add2)
  with Cons show ?thesis by (auto split: prod.splits)
qed simp

text \<open>The successive lines of \<open>while (fgets(read_buffer, 256, fp))\<close>, each as the C string the
  body then works on.\<close>

function fgets_lines :: "string \<Rightarrow> string list" where
  "fgets_lines s =
     (case fgets 256 s of None \<Rightarrow> [] | Some (l, r) \<Rightarrow> cstr l # fgets_lines r)"
  by pat_completeness auto
termination
proof (relation "measure length", simp)
  fix s p l r
  assume "fgets 256 s = Some p" and "(l, r) = p"
  then show "(r, s) \<in> measure length"
    using fgets_go_shorter[of s 254] by (auto simp: fgets_def split: if_splits)
qed

declare fgets_lines.simps [simp del]

lemma fgets_go_line:
  "LF \<notin> set body \<Longrightarrow> length body < n \<Longrightarrow> fgets_go n (body @ LF # rest) = (body @ [LF], rest)"
proof (induction body arbitrary: n)
  case Nil
  then show ?case by (cases n) auto
next
  case (Cons c body)
  then show ?case by (cases n) auto
qed

text \<open>A well-formed trace line: no NUL, one newline, at its end, and short enough for the
  buffer.\<close>

definition text_line :: "string \<Rightarrow> bool" where
  "text_line l \<longleftrightarrow> l \<noteq> [] \<and> last l = LF \<and> LF \<notin> set (butlast l) \<and> NUL \<notin> set l \<and> length l \<le> 255"

lemma cstr_no_nul: "NUL \<notin> set s \<Longrightarrow> cstr s = s"
  by (auto simp: cstr_def takeWhile_eq_all_conv)

lemma fgets_lines_Nil [simp]: "fgets_lines [] = []"
  by (subst fgets_lines.simps) (simp add: fgets_def)

lemma fgets_lines_Cons:
  assumes "text_line l"
  shows "fgets_lines (l @ rest) = l # fgets_lines rest"
proof -
  have l: "l = butlast l @ [LF]"
    using assms by (metis append_butlast_last_id text_line_def)
  have "length (butlast l) < 255" and "LF \<notin> set (butlast l)"
    using assms by (auto simp: text_line_def)
  then have "fgets_go 255 (butlast l @ LF # rest) = (butlast l @ [LF], rest)"
    by (intro fgets_go_line)
  moreover have "l @ rest = butlast l @ LF # rest"
    using l by (metis append.assoc append_Cons append_Nil)
  ultimately have "fgets_go 255 (l @ rest) = (l, rest)"
    by (metis l)
  then have "fgets 256 (l @ rest) = Some (l, rest)"
    using assms by (auto simp: fgets_def text_line_def)
  moreover have "cstr l = l"
    using assms by (auto simp: text_line_def cstr_no_nul)
  ultimately show ?thesis
    by (subst fgets_lines.simps) simp
qed

lemma fgets_lines_concat:
  "\<forall>l \<in> set ls. text_line l \<Longrightarrow> fgets_lines (concat ls) = ls"
  by (induction ls) (auto simp: fgets_lines_Cons)

section \<open>Tokens\<close>

text \<open>\<open>strtok\<close> on the unread part of the buffer: the token and the part after its delimiter.\<close>

definition strtok :: "string \<Rightarrow> string \<Rightarrow> (string \<times> string) option" where
  "strtok delims s =
     (case dropWhile (\<lambda>c. c \<in> set delims) s of
        [] \<Rightarrow> None
      | s' \<Rightarrow> Some (takeWhile (\<lambda>c. c \<notin> set delims) s',
                    drop 1 (dropWhile (\<lambda>c. c \<notin> set delims) s')))"

definition strpbrk :: "string \<Rightarrow> string \<Rightarrow> bool" where
  "strpbrk s accept \<longleftrightarrow> list_ex (\<lambda>c. c \<in> set accept) s"

lemma strtok_token:
  assumes "tok \<noteq> []" and "set tok \<inter> set delims = {}" and "d \<in> set delims"
  shows "strtok delims (tok @ d # rest) = Some (tok, rest)"
proof -
  obtain c cs where tok: "tok = c # cs" using assms(1) by (cases tok) auto
  have "dropWhile (\<lambda>c. c \<in> set delims) (tok @ d # rest) = tok @ d # rest"
    using assms(2) tok by auto
  moreover have "takeWhile (\<lambda>c. c \<notin> set delims) (tok @ d # rest) = tok"
    using assms(2,3) by (subst takeWhile_append2) auto
  moreover have "dropWhile (\<lambda>c. c \<notin> set delims) (tok @ d # rest) = d # rest"
    using assms(2,3) by (subst dropWhile_append2) auto
  ultimately show ?thesis using tok by (auto simp: strtok_def)
qed

lemma strtok_skip: "d \<in> set delims \<Longrightarrow> strtok delims (d # s) = strtok delims s"
  by (simp add: strtok_def)

section \<open>Numbers\<close>

fun digits_val :: "nat \<Rightarrow> nat \<Rightarrow> string \<Rightarrow> nat" where
  "digits_val b acc [] = acc"
| "digits_val b acc (c # cs) =
     (if digit_of c < b then digits_val b (acc * b + digit_of c) cs else acc)"

text \<open>\<open>strtol(s, NULL, b)\<close>: white space, a sign, for base 16 an optional \<open>0x\<close>, the digits; out
  of range values saturate.\<close>

definition strtol :: "string \<Rightarrow> nat \<Rightarrow> int" where
  "strtol s b =
     (let s1 = dropWhile is_space s;
          neg = (take 1 s1 = ''-'');
          s2 = (if neg \<or> take 1 s1 = ''+'' then drop 1 s1 else s1);
          s3 = (if b = 16 \<and> (take 2 s2 = ''0x'' \<or> take 2 s2 = ''0X'') then drop 2 s2 else s2);
          v = int (digits_val b 0 s3)
      in max (- (2 ^ 63)) (min (2 ^ 63 - 1) (if neg then - v else v)))"

text \<open>\<open>atoi\<close> converts through \<open>strtol\<close> and keeps the low 32 bits, as a signed value.\<close>

definition atoi :: "string \<Rightarrow> int" where
  "atoi s = sint (word_of_int (strtol s 10) :: 32 word)"

text \<open>\<open>atof\<close> on decimal notation, as the exact value of the text (doubles are idealised as reals,
  and exponents do not occur in a leakage rate or a clustering radius).\<close>

definition atof :: "string \<Rightarrow> real" where
  "atof s =
     (let s1 = dropWhile is_space s;
          neg = (take 1 s1 = ''-'');
          s2 = (if neg \<or> take 1 s1 = ''+'' then drop 1 s1 else s1);
          whole = takeWhile (\<lambda>c. digit_of c < 10) s2;
          rest = dropWhile (\<lambda>c. digit_of c < 10) s2;
          frac = (if take 1 rest = ''.'' then takeWhile (\<lambda>c. digit_of c < 10) (drop 1 rest) else []);
          v = real (digits_val 10 0 (whole @ frac)) / 10 ^ length frac
      in if neg then - v else v)"

text \<open>\<open>char c = strtol(...)\<close>: the low eight bits.\<close>

definition char_of_long :: "int \<Rightarrow> char" where
  "char_of_long v = char_of (nat (v mod 256))"

fun dec_nat :: "nat \<Rightarrow> string" where
  "dec_nat n = (if n < 10 then [digit_char n] else dec_nat (n div 10) @ [digit_char (n mod 10)])"

declare dec_nat.simps [simp del]

definition dec_int :: "int \<Rightarrow> string" where
  "dec_int v = (if v < 0 then ''-'' @ dec_nat (nat (- v)) else dec_nat (nat v))"

text \<open>\<open>std::to_string(uint64_t)\<close> and the \<open>%lu\<close> conversion.\<close>

definition to_string :: "u64 \<Rightarrow> string" where
  "to_string n = dec_nat (unat n)"

text \<open>\<open>%d\<close> given a \<open>uint64_t\<close>: the low 32 bits, signed.\<close>

definition printf_d :: "u64 \<Rightarrow> string" where
  "printf_d n = dec_int (sint (ucast n :: 32 word))"

text \<open>\<open>%02x\<close> of an unsigned char.\<close>

definition hex2 :: "char \<Rightarrow> string" where
  "hex2 c = [digit_char (of_char c div 16), digit_char (of_char c mod 16)]"

lemma digit_of_digit_char: "n < 16 \<Longrightarrow> digit_of (digit_char n) = n"
  by (auto simp: digit_of_def digit_char_def Let_def)

lemma digits_val_append:
  "\<forall>c \<in> set ds. digit_of c < b \<Longrightarrow>
   digits_val b acc (ds @ rest) = digits_val b (digits_val b acc ds) rest"
  by (induction ds arbitrary: acc) auto

lemma dec_nat_digits: "c \<in> set (dec_nat n) \<Longrightarrow> \<exists>k < 10. c = digit_char k"
proof (induction n rule: dec_nat.induct)
  case (1 n)
  show ?case
  proof (cases "n < 10")
    case True
    with 1 show ?thesis by (auto simp: dec_nat.simps[of n])
  next
    case False
    with 1 show ?thesis by (auto simp: dec_nat.simps[of n] intro: exI[of _ "n mod 10"])
  qed
qed

lemma dec_nat_digit_of: "c \<in> set (dec_nat n) \<Longrightarrow> digit_of c < 10"
  using dec_nat_digits digit_of_digit_char by fastforce

lemma dec_nat_neq_Nil [simp]: "dec_nat n \<noteq> []"
  by (simp add: dec_nat.simps[of n])

lemma digits_val_dec_nat: "digits_val 10 0 (dec_nat n) = n"
proof (induction n rule: dec_nat.induct)
  case (1 n)
  show ?case
  proof (cases "n < 10")
    case True
    then show ?thesis by (simp add: dec_nat.simps[of n] digit_of_digit_char)
  next
    case False
    have "\<forall>c \<in> set (dec_nat (n div 10)). digit_of c < 10"
      using dec_nat_digit_of by blast
    then have "digits_val 10 0 (dec_nat (n div 10) @ [digit_char (n mod 10)])
      = digits_val 10 (n div 10) [digit_char (n mod 10)]"
      using False 1 by (simp add: digits_val_append)
    also have "\<dots> = n"
      by (simp add: digit_of_digit_char)
    finally show ?thesis
      using False by (simp add: dec_nat.simps[of n])
  qed
qed

text \<open>A digit is no white space, no sign, no delimiter and no letter of a title line.\<close>

lemma digit_char_neq:
  assumes "n < 16"
  shows "\<not> is_space (digit_char n)" "digit_char n \<noteq> CHR ''-''" "digit_char n \<noteq> CHR ''+''"
    "digit_char n \<noteq> CHR '':''" "digit_char n \<notin> {CHR ''x'', CHR ''X''}" "digit_char n \<noteq> NUL"
    "digit_char n \<notin> set ''Chunk''"
proof -
  have "\<forall>n \<in> {..<16}. \<not> is_space (digit_char n) \<and> digit_char n \<noteq> CHR ''-'' \<and>
    digit_char n \<noteq> CHR ''+'' \<and> digit_char n \<noteq> CHR '':'' \<and>
    digit_char n \<notin> {CHR ''x'', CHR ''X''} \<and> digit_char n \<noteq> NUL \<and> digit_char n \<notin> set ''Chunk''"
    by code_simp
  with assms show "\<not> is_space (digit_char n)" "digit_char n \<noteq> CHR ''-''"
    "digit_char n \<noteq> CHR ''+''" "digit_char n \<noteq> CHR '':''" "digit_char n \<notin> {CHR ''x'', CHR ''X''}"
    "digit_char n \<noteq> NUL" "digit_char n \<notin> set ''Chunk''"
    by auto
qed


lemma of_char_less_256: "of_char c < (256 :: nat)"
  using nat_of_char_less_256[of c] by simp

lemma strtol_dec_nat:
  assumes "n < 2 ^ 63" and "rest = [] \<or> \<not> digit_of (hd rest) < 10"
  shows "strtol (dec_nat n @ rest) 10 = int n"
proof -
  obtain k cs where k: "dec_nat n = digit_char k # cs" and "k < 10"
    using dec_nat_digits[of "hd (dec_nat n)" n] by (cases "dec_nat n") auto
  note neq = digit_char_neq[of k]
  have "digits_val 10 0 (dec_nat n @ rest) = digits_val 10 n rest"
    using dec_nat_digit_of digits_val_dec_nat by (simp add: digits_val_append)
  also have "\<dots> = n"
    using assms(2) by (cases rest) auto
  finally have "digits_val 10 0 (digit_char k # cs @ rest) = n"
    using k by simp
  then show ?thesis
    using neq \<open>k < 10\<close> assms(1) k by (simp add: strtol_def Let_def)
qed

lemma atoi_dec_nat:
  assumes "n < 2 ^ 31" and "rest = [] \<or> \<not> digit_of (hd rest) < 10"
  shows "atoi (dec_nat n @ rest) = int n"
proof -
  have "strtol (dec_nat n @ rest) 10 = int n"
    using assms by (intro strtol_dec_nat) auto
  moreover have "sint (word_of_int (int n) :: 32 word) = int n"
    using assms(1) by (simp add: signed_of_nat signed_take_bit_int_eq_self)
  ultimately show ?thesis by (simp add: atoi_def)
qed

text \<open>A counter below \<open>2^31\<close> survives the trip through \<open>to_string\<close> and \<open>atoi\<close>.\<close>

lemma atoi_to_string: "unat w < 2 ^ 31 \<Longrightarrow> atoi (to_string w) = int (unat w)"
  using atoi_dec_nat[of "unat w" "[]"] by (simp add: to_string_def)

lemma printf_d_of_nat: "n < 2 ^ 31 \<Longrightarrow> printf_d (word_of_nat n) = dec_nat n"
proof -
  assume n: "n < 2 ^ 31"
  then have "(ucast (word_of_nat n :: u64) :: 32 word) = word_of_nat n"
    by (simp add: unsigned_of_nat take_bit_nat_eq_self)
  moreover have "sint (word_of_nat n :: 32 word) = int n"
    using n by (simp add: signed_of_nat signed_take_bit_int_eq_self)
  ultimately show ?thesis by (simp add: printf_d_def dec_int_def)
qed

lemma strtol_hex2: "strtol (hex2 c) 16 = int (of_char c)"
proof -
  have lt: "of_char c < (256 :: nat)" by (rule of_char_less_256)
  then have d: "of_char c div 16 < (16 :: nat)" "of_char c mod 16 < (16 :: nat)"
    by (auto intro: less_mult_imp_div_less)
  have v: "digits_val 16 0 (hex2 c) = of_char c"
    using d by (simp add: hex2_def digit_of_digit_char)
  have "of_char c \<le> (9223372036854775807 :: nat)"
    using nat_of_char_less_256[of c] by linarith
  then have m: "min 9223372036854775807 (int (of_char c)) = int (of_char c)"
    by simp
  note n1 = digit_char_neq[OF d(1)] and n2 = digit_char_neq[OF d(2)]
  have "dropWhile is_space (hex2 c) = hex2 c"
    using n1(1) by (simp add: hex2_def)
  moreover have "take 1 (hex2 c) \<noteq> ''-''" "take 1 (hex2 c) \<noteq> ''+''"
    using n1(2,3) by (simp_all add: hex2_def)
  moreover have "take 2 (hex2 c) \<noteq> ''0x''" "take 2 (hex2 c) \<noteq> ''0X''"
    using n2(5) by (simp_all add: hex2_def)
  ultimately show ?thesis
    unfolding strtol_def Let_def by (simp add: v m)
qed

lemma char_of_long_hex2 [simp]: "char_of_long (strtol (hex2 c) 16) = c"
proof -
  have "int (of_char c) mod 256 = int (of_char c)"
    using of_char_less_256[of c] by simp
  then show ?thesis by (simp add: char_of_long_def strtol_hex2)
qed

section \<open>Trace lines\<close>

text \<open>
  The loop every reader of a trace repeats:
  \<^verbatim>\<open>
    item = strtok(read_buffer, ":\t\n ");
    int idx = 0;
    while (item != NULL && idx < FP_SIZE) {
      hash[idx++] = strtol(item, NULL, 16);
      item = strtok(NULL, ":\t\n");
    }
  \<close>
  The result is the fingerprint and the token \<open>item\<close> points to afterwards, the chunk size
  column, or NULL when the line is too short.
\<close>

function hash_loop :: "nat \<Rightarrow> bytes \<Rightarrow> (string \<times> string) option \<Rightarrow> bytes \<times> string option" where
  "hash_loop idx hash None = (hash, None)"
| "hash_loop idx hash (Some (item, buf)) =
     (if idx < FP_SIZE
      then hash_loop (idx + 1) (hash[idx := char_of_long (strtol item 16)])
             (strtok [CHR '':'', TAB, LF] buf)
      else (hash, Some item))"
  by pat_completeness auto
termination
  by (relation "measure (\<lambda>(idx, _, _). FP_SIZE - idx)") auto

declare hash_loop.simps(2) [simp del]

definition parse_hash :: "string \<Rightarrow> bytes \<times> string option" where
  "parse_hash read_buffer =
     hash_loop 0 (replicate FP_SIZE NUL) (strtok [CHR '':'', TAB, LF, CHR '' ''] read_buffer)"

text \<open>\<open>uint64_t size = atoi((const char*)item)\<close>: a NULL item is a NULL dereference.\<close>

definition item_size :: "string option \<Rightarrow> cpp_error + u64" where
  "item_size item = (case item of None \<Rightarrow> Inl NullDeref | Some s \<Rightarrow> Inr (word_of_int (atoi s)))"

text \<open>\<open>argv[i]\<close> used as a string: beyond the arguments it is NULL.\<close>

definition argv_at :: "string list \<Rightarrow> nat \<Rightarrow> cpp_error + string" where
  "argv_at argv i = (if i < length argv then Inr (argv ! i) else Inl NullDeref)"

lemma length_hash_loop: "length (fst (hash_loop idx hash it)) = length hash"
  by (induction idx hash it rule: hash_loop.induct) (auto simp: hash_loop.simps)

lemma length_parse_hash [simp]: "length (fst (parse_hash buf)) = FP_SIZE"
  by (simp add: parse_hash_def length_hash_loop)

text \<open>The text form of a fingerprint: \<open>%02x:%02x:%02x:%02x:%02x:%02x\<close>.\<close>

fun fp_text :: "bytes \<Rightarrow> string" where
  "fp_text [] = []"
| "fp_text [c] = hex2 c"
| "fp_text (c # cs) = hex2 c @ '':'' @ fp_text cs"

lemma hex2_chars: "d \<in> set (hex2 c) \<Longrightarrow> \<exists>n < 16. d = digit_char n"
proof -
  have "of_char c div 16 < (16 :: nat)" "of_char c mod 16 < (16 :: nat)"
    by (auto intro: less_mult_imp_div_less)
  then show "d \<in> set (hex2 c) \<Longrightarrow> \<exists>n < 16. d = digit_char n"
    unfolding hex2_def by (simp only: list.set insert_iff empty_iff) blast
qed

lemma strtok_hex2:
  assumes "d \<in> set delims" and "set delims \<subseteq> {CHR '':'', TAB, LF, CHR '' ''}"
  shows "strtok delims (hex2 c @ d # rest) = Some (hex2 c, rest)"
proof (rule strtok_token[OF _ _ assms(1)])
  show "hex2 c \<noteq> []" by (simp add: hex2_def)
  show "set (hex2 c) \<inter> set delims = {}"
  proof (rule ccontr)
    assume "set (hex2 c) \<inter> set delims \<noteq> {}"
    then obtain e where e: "e \<in> set (hex2 c)" "e \<in> set delims" by auto
    then obtain n where "n < 16" "e = digit_char n" using hex2_chars by blast
    then show False
      using e(2) assms(2) digit_char_neq[of n] by (auto simp: is_space_def)
  qed
qed

lemma hash_loop_step:
  assumes "idx < FP_SIZE" and "d \<in> {CHR '':'', TAB}"
  shows "hash_loop idx hash (strtok [CHR '':'', TAB, LF] (hex2 c @ d # rest))
    = hash_loop (Suc idx) (hash[idx := c]) (strtok [CHR '':'', TAB, LF] rest)"
  using assms by (subst strtok_hex2) (auto simp: hash_loop.simps(2))

text \<open>Reading back a printed fingerprint: the six bytes and the token after it.\<close>

lemma parse_hash_fp_text:
  assumes "length fp = FP_SIZE"
  shows "parse_hash (fp_text fp @ TAB # rest) = (fp, map_option fst (strtok [CHR '':'', TAB, LF] rest))"
proof -
  obtain a b c d e f where fp: "fp = [a, b, c, d, e, f]"
    using assms by (auto simp: numeral_eq_Suc length_Suc_conv)
  have last: "hash_loop (Suc (Suc (Suc (Suc (Suc (Suc 0)))))) h it = (h, map_option fst it)" for h it
    by (cases it) (auto simp: hash_loop.simps(2))
  have first_step: "hash_loop 0 h (Some (hex2 a, r))
      = hash_loop 1 (h[0 := a]) (strtok [CHR '':'', TAB, LF] r)" for h r
    by (simp add: hash_loop.simps(2))
  have first: "strtok [CHR '':'', TAB, LF, CHR '' ''] (hex2 a @ CHR '':'' # r) = Some (hex2 a, r)" for r
    by (rule strtok_hex2) auto
  have rep: "replicate FP_SIZE NUL = [NUL, NUL, NUL, NUL, NUL, NUL]"
    by (simp add: numeral_eq_Suc)
  show ?thesis
    unfolding fp parse_hash_def rep
    by (simp add: first first_step hash_loop_step last)
qed

section \<open>Trace files\<close>

text \<open>The lines of a trace that the programs process: every one without a character of \<open>Chunk\<close>.\<close>

definition trace_lines :: "string \<Rightarrow> string list" where
  "trace_lines file = filter (\<lambda>l. \<not> strpbrk l ''Chunk'') (fgets_lines file)"

text \<open>A trace line: the fingerprint, a tab, the other columns.\<close>

definition trace_line :: "bytes \<Rightarrow> string \<Rightarrow> string" where
  "trace_line fp cols = fp_text fp @ TAB # cols @ [LF]"

definition plain_cols :: "string \<Rightarrow> bool" where
  "plain_cols cols \<longleftrightarrow> LF \<notin> set cols \<and> NUL \<notin> set cols \<and> \<not> strpbrk cols ''Chunk'' \<and> length cols \<le> 200"

lemma fp_text_chars: "c \<in> set (fp_text fp) \<Longrightarrow> (\<exists>n < 16. c = digit_char n) \<or> c = CHR '':''"
  by (induction fp rule: fp_text.induct) (auto dest: hex2_chars)

lemma fp_text_plain:
  assumes "c \<in> set (fp_text fp)"
  shows "c \<notin> set ''Chunk''" "c \<noteq> LF" "c \<noteq> NUL"
proof -
  have n: "digit_char n \<notin> set ''Chunk'' \<and> digit_char n \<noteq> LF \<and> digit_char n \<noteq> NUL" if "n < 16" for n
  proof -
    have "is_space LF" by (simp add: is_space_def)
    then show ?thesis using digit_char_neq[OF that] by metis
  qed
  have colon: "CHR '':'' \<notin> set ''Chunk'' \<and> CHR '':'' \<noteq> LF \<and> CHR '':'' \<noteq> NUL" by simp
  have "c \<notin> set ''Chunk'' \<and> c \<noteq> LF \<and> c \<noteq> NUL"
    using fp_text_chars[OF assms] n colon by metis
  then show "c \<notin> set ''Chunk''" "c \<noteq> LF" "c \<noteq> NUL" by blast+
qed

lemma length_fp_text: "length (fp_text fp) \<le> 3 * length fp"
  by (induction fp rule: fp_text.induct) (auto simp: hex2_def)

lemma trace_line_text:
  assumes "length fp = FP_SIZE" "plain_cols cols"
  shows "text_line (trace_line fp cols)" "\<not> strpbrk (trace_line fp cols) ''Chunk''"
proof -
  have "LF \<notin> set (fp_text fp)" "NUL \<notin> set (fp_text fp)" using fp_text_plain(2,3) by blast+
  then show "text_line (trace_line fp cols)"
    using assms length_fp_text[of fp]
    by (auto simp: text_line_def trace_line_def plain_cols_def butlast_append)
  have "\<not> strpbrk (fp_text fp) ''Chunk''"
    using fp_text_plain(1) unfolding strpbrk_def list_ex_iff by blast
  then show "\<not> strpbrk (trace_line fp cols) ''Chunk''"
    using assms(2) by (simp add: strpbrk_def trace_line_def plain_cols_def)
qed

lemma trace_lines_concat:
  assumes "\<forall>(fp, cols) \<in> set ls. length fp = FP_SIZE \<and> plain_cols cols"
  shows "trace_lines (concat (map (\<lambda>(fp, cols). trace_line fp cols) ls)) = map (\<lambda>(fp, cols). trace_line fp cols) ls"
proof -
  have "fgets_lines (concat (map (\<lambda>(fp, cols). trace_line fp cols) ls)) = map (\<lambda>(fp, cols). trace_line fp cols) ls"
    using assms by (intro fgets_lines_concat) (auto simp: trace_line_text)
  then show ?thesis using assms by (auto simp: trace_lines_def trace_line_text filter_id_conv)
qed

lemma parse_trace_line:
  "length fp = FP_SIZE \<Longrightarrow> fst (parse_hash (trace_line fp cols)) = fp"
  by (simp add: trace_line_def parse_hash_fp_text)

text \<open>The digits of a number are harmless in a trace line, and there are few of them.\<close>

lemma dec_nat_plain:
  assumes "c \<in> set (dec_nat n)"
  shows "c \<notin> set ''Chunk''" "c \<noteq> LF" "c \<noteq> TAB" "c \<noteq> NUL" "c \<noteq> CHR '':''"
proof -
  obtain k where k: "k < 10" "c = digit_char k" using dec_nat_digits[OF assms] by blast
  have sp: "is_space LF" "is_space TAB" by (simp_all add: is_space_def)
  have "\<not> is_space c" "c \<noteq> CHR '':''" "c \<noteq> NUL" "c \<notin> set ''Chunk''"
    unfolding k(2) using digit_char_neq(1,4,6,7)[of k] k(1) by simp_all
  then show "c \<notin> set ''Chunk''" "c \<noteq> LF" "c \<noteq> TAB" "c \<noteq> NUL" "c \<noteq> CHR '':''" using sp by blast+
qed

lemma length_dec_nat: "n < 10 ^ Suc k \<Longrightarrow> length (dec_nat n) \<le> Suc k"
proof (induction k arbitrary: n)
  case 0
  then show ?case by (simp add: dec_nat.simps)
next
  case (Suc k)
  show ?case
  proof (cases "n < 10")
    case True
    then show ?thesis by (simp add: dec_nat.simps)
  next
    case False
    have "n div 10 < 10 ^ Suc k" using Suc.prems by (simp add: less_mult_imp_div_less)
    then show ?thesis using Suc.IH[of "n div 10"] False by (subst dec_nat.simps) simp
  qed
qed

lemma to_string_plain:
  "LF \<notin> set (to_string w)" "NUL \<notin> set (to_string w)" "\<not> strpbrk (to_string w) ''Chunk''" "length (to_string w) \<le> 20"
proof -
  show "LF \<notin> set (to_string w)" "NUL \<notin> set (to_string w)"
    using dec_nat_plain(2,4) unfolding to_string_def by blast+
  show "\<not> strpbrk (to_string w) ''Chunk''"
    using dec_nat_plain(1) unfolding to_string_def strpbrk_def list_ex_iff by blast
  have "unat w < 2 ^ 64" using unsigned_less[of w] by simp
  then have "unat w < 10 ^ Suc 19" by simp
  then show "length (to_string w) \<le> 20" unfolding to_string_def using length_dec_nat[of "unat w" 19] by simp
qed

lemma strtok_skips: "set pre \<subseteq> set delims \<Longrightarrow> strtok delims (pre @ s) = strtok delims s"
  by (induction pre) (auto simp: strtok_skip)

end
