(* ===== verification/LevelDB.thy ===== *)
theory LevelDB
  imports Prelude
begin

text \<open>
  The key-value store. LevelDB is not part of the repository, so its operations are a
  parameter of every model: a record of functions on an abstract type \<open>'db\<close> of store
  contents. The locale \<open>leveldb_laws\<close> states the documented behaviour the programs rely on,
  over a view of a store as a partial map, and derives the facts the component proofs use.
  \<open>mem_leveldb\<close>, a sorted association list, shows that the laws can be met and is the store
  the concrete runs use.
\<close>

section \<open>The interface\<close>

text \<open>\<open>leveldb::Status\<close>: \<open>ok()\<close>, \<open>IsNotFound()\<close> or another failure with its message.\<close>

datatype status = StOk | StNotFound | StError string

text \<open>
  \<open>ldb_get L db key old\<close> is \<open>db->Get(ReadOptions(), key, &value)\<close> where \<open>value\<close> held \<open>old\<close>;
  the second component is what \<open>value\<close> holds afterwards. \<open>ldb_iter L db\<close> is what an iterator
  yields from \<open>SeekToFirst\<close> until it is no longer \<open>Valid\<close>, with its final \<open>status()\<close>.
  \<open>ldb_open L name\<close> is \<open>DB::Open\<close> with \<open>create_if_missing\<close>: the status and the handle, if
  one was produced.
\<close>

record 'db leveldb =
  ldb_open :: "string \<Rightarrow> status \<times> 'db option"
  ldb_get :: "'db \<Rightarrow> bytes \<Rightarrow> bytes \<Rightarrow> status \<times> bytes"
  ldb_put :: "'db \<Rightarrow> bytes \<Rightarrow> bytes \<Rightarrow> status \<times> 'db"
  ldb_delete :: "'db \<Rightarrow> bytes \<Rightarrow> status \<times> 'db"
  ldb_iter :: "'db \<Rightarrow> (bytes \<times> bytes) list \<times> status"

text \<open>
  The opening sequence of every program: \<open>DB::Open\<close>, \<open>assert(status.ok())\<close>,
  \<open>assert(db != NULL)\<close>.
\<close>

definition open_db :: "'db leveldb \<Rightarrow> string \<Rightarrow> cpp_error + 'db" where
  "open_db L name =
     (case ldb_open L name of
        (StOk, Some db) \<Rightarrow> Inr db
      | _ \<Rightarrow> Inl AssertFail)"

section \<open>The laws\<close>

locale leveldb_laws =
  fixes L :: "'db leveldb" and view :: "'db \<Rightarrow> (bytes \<rightharpoonup> bytes)"
  assumes get_hit: "view db k = Some v \<Longrightarrow> ldb_get L db k old = (StOk, v)"
    and get_miss: "view db k = None \<Longrightarrow> ldb_get L db k old = (StNotFound, old)"
    and put_status: "fst (ldb_put L db k v) = StOk"
    and view_put: "view (snd (ldb_put L db k v)) = (view db)(k \<mapsto> v)"
    and delete_status: "fst (ldb_delete L db k) = StOk"
    and view_delete: "view (snd (ldb_delete L db k)) = (view db)(k := None)"
    and iter_status: "snd (ldb_iter L db) = StOk"
    and iter_sorted: "sorted_wrt (<) (map fst (fst (ldb_iter L db)))"
    and iter_view: "map_of (fst (ldb_iter L db)) = view db"
begin

lemma put_pair: "ldb_put L db k v = (StOk, snd (ldb_put L db k v))"
  using put_status[of db k v] by (cases "ldb_put L db k v") simp

lemma delete_pair: "ldb_delete L db k = (StOk, snd (ldb_delete L db k))"
  using delete_status[of db k] by (cases "ldb_delete L db k") simp

lemma get_status: "fst (ldb_get L db k old) = StOk \<longleftrightarrow> k \<in> dom (view db)"
  by (cases "view db k") (auto simp: get_hit get_miss)

lemma get_cases:
  "ldb_get L db k old = (case view db k of None \<Rightarrow> (StNotFound, old) | Some v \<Rightarrow> (StOk, v))"
  by (cases "view db k") (auto simp: get_hit get_miss)

lemma iter_keys: "fst ` set (fst (ldb_iter L db)) = dom (view db)"
  using dom_map_of_conv_image_fst[of "fst (ldb_iter L db)"] by (simp add: iter_view)

lemma iter_distinct: "distinct (map fst (fst (ldb_iter L db)))"
  using iter_sorted[of db] strict_sorted_iff by blast

lemma iter_mem: "(k, v) \<in> set (fst (ldb_iter L db)) \<longleftrightarrow> view db k = Some v"
  using iter_distinct[of db] iter_view[of db] by (metis map_of_eq_Some_iff)

lemma dom_view_finite: "finite (dom (view db))"
  by (metis List.finite_set finite_imageI iter_keys)

end

section \<open>A store in memory\<close>

text \<open>A store as an association list kept sorted by key: overwriting, inserting in order,
  removing.\<close>

type_synonym mem_db = "(bytes \<times> bytes) list"

fun mem_put :: "bytes \<Rightarrow> bytes \<Rightarrow> mem_db \<Rightarrow> mem_db" where
  "mem_put k v [] = [(k, v)]"
| "mem_put k v ((k', v') # m) =
     (if k = k' then (k, v) # m
      else if k < k' then (k, v) # (k', v') # m
      else (k', v') # mem_put k v m)"

definition mem_delete :: "bytes \<Rightarrow> mem_db \<Rightarrow> mem_db" where
  "mem_delete k m = filter (\<lambda>e. fst e \<noteq> k) m"

fun mem_get :: "mem_db \<Rightarrow> bytes \<Rightarrow> bytes \<Rightarrow> status \<times> bytes" where
  "mem_get [] k old = (StNotFound, old)"
| "mem_get ((k', v) # m) k old = (if k = k' then (StOk, v) else mem_get m k old)"

definition mem_norm :: "mem_db \<Rightarrow> mem_db" where
  "mem_norm m = fold (\<lambda>(k, v) acc. mem_put k v acc) (rev m) []"

text \<open>\<open>disk\<close> gives the contents found under a name; a name that does not exist opens empty.\<close>

definition mem_leveldb :: "(string \<Rightarrow> mem_db) \<Rightarrow> mem_db leveldb" where
  "mem_leveldb disk = \<lparr>
     ldb_open = (\<lambda>name. (StOk, Some (disk name))),
     ldb_get = mem_get,
     ldb_put = (\<lambda>m k v. (StOk, mem_put k v m)),
     ldb_delete = (\<lambda>m k. (StOk, mem_delete k m)),
     ldb_iter = (\<lambda>m. (mem_norm m, StOk))\<rparr>"

lemma map_of_mem_put: "map_of (mem_put k v m) = (map_of m)(k \<mapsto> v)"
  by (induction m) (auto simp: fun_eq_iff)

lemma map_of_mem_delete: "map_of (mem_delete k m) = (map_of m)(k := None)"
  by (induction m) (auto simp: mem_delete_def fun_eq_iff)

lemma mem_get_map_of:
  "mem_get m k old = (case map_of m k of None \<Rightarrow> (StNotFound, old) | Some v \<Rightarrow> (StOk, v))"
  by (induction m) auto

lemma keys_mem_put: "fst ` set (mem_put k v m) = insert k (fst ` set m)"
  unfolding dom_map_of_conv_image_fst[symmetric] by (simp add: map_of_mem_put)

lemma sorted_mem_put:
  "sorted_wrt (<) (map fst m) \<Longrightarrow> sorted_wrt (<) (map fst (mem_put k v m))"
proof (induction m)
  case Nil
  then show ?case by simp
next
  case (Cons e m)
  obtain k' v' where e: "e = (k', v')" by (cases e) auto
  have "\<forall>x \<in> set (map fst (mem_put k v m)). k' < x" if "k' < k"
    using Cons.prems that keys_mem_put[of k v m] by (auto simp: e)
  with Cons show ?case
    by (auto simp: e intro: order.strict_trans)
qed

lemma map_of_fold_mem_put:
  "map_of (fold (\<lambda>(k, v) acc. mem_put k v acc) (rev m) []) = map_of m"
  by (induction m) (auto simp: map_of_mem_put)

lemma sorted_fold_mem_put:
  "sorted_wrt (<) (map fst acc) \<Longrightarrow>
   sorted_wrt (<) (map fst (fold (\<lambda>(k, v) acc. mem_put k v acc) m acc))"
  by (induction m arbitrary: acc) (auto simp: sorted_mem_put split: prod.splits)

interpretation mem: leveldb_laws "mem_leveldb disk" map_of for disk
  by unfold_locales
    (auto simp: mem_leveldb_def mem_get_map_of map_of_mem_put map_of_mem_delete mem_norm_def
      map_of_fold_mem_put sorted_fold_mem_put)

end
