(* ===== verification/PQueue.thy ===== *)
theory PQueue
  imports Prelude
begin

text \<open>
  \<open>std::priority_queue\<close> over \<open>std::vector\<close>, as libstdc++ implements it: a binary heap in an
  array with \<open>push_heap\<close> and \<open>pop_heap\<close>. The locale \<open>prio_queue\<close> is the contract the C++ standard
  gives its clients (the elements are kept, \<open>top\<close> is one that no other exceeds); everything the
  attack programs do with a queue (draining it in order, keeping the k best elements of a
  stream) is proved from the contract, and the heap is shown to meet it for every strict weak
  order.
\<close>

section \<open>Strict weak orders\<close>

text \<open>What the standard requires of a comparator.\<close>

locale weak_order =
  fixes lt :: "'a \<Rightarrow> 'a \<Rightarrow> bool"
  assumes irrefl: "\<not> lt x x"
    and trans: "lt x y \<Longrightarrow> lt y z \<Longrightarrow> lt x z"
    and incomp_trans: "\<not> lt x y \<Longrightarrow> \<not> lt y z \<Longrightarrow> \<not> lt x z"
begin

lemma asym: "lt x y \<Longrightarrow> \<not> lt y x"
  using irrefl trans by blast

lemma lt_not_lt_trans: "lt x y \<Longrightarrow> \<not> lt z y \<Longrightarrow> lt x z"
  using incomp_trans by blast

end

text \<open>Every comparator the programs rely on compares a key.\<close>

lemma weak_order_key: "weak_order (\<lambda>a b. (f a :: 'k :: linorder) < f b)"
  by unfold_locales auto

lemma weak_order_key_rev: "weak_order (\<lambda>a b. (f a :: 'k :: linorder) > f b)"
  by unfold_locales auto

section \<open>The binary heap\<close>

abbreviation parent :: "nat \<Rightarrow> nat" where
  "parent i \<equiv> (i - 1) div 2"

text \<open>\<open>__push_heap(first, hole, 0, v, comp)\<close>: the value moves up from the hole.\<close>

function sift_up :: "('a \<Rightarrow> 'a \<Rightarrow> bool) \<Rightarrow> 'a list \<Rightarrow> nat \<Rightarrow> 'a \<Rightarrow> 'a list" where
  "sift_up lt xs hole v =
     (if 0 < hole \<and> lt (xs ! parent hole) v
      then sift_up lt (xs[hole := xs ! parent hole]) (parent hole) v
      else xs[hole := v])"
  by pat_completeness auto
termination
  by (relation "measure (\<lambda>(_, _, hole, _). hole)") auto

text \<open>\<open>__adjust_heap(first, hole, len, v, comp)\<close>: the hole moves down along the larger child to a
  leaf, then the value moves up from there.\<close>

function sift_down :: "('a \<Rightarrow> 'a \<Rightarrow> bool) \<Rightarrow> 'a list \<Rightarrow> nat \<Rightarrow> 'a \<Rightarrow> 'a list" where
  "sift_down lt xs hole v =
     (if 2 * hole + 2 < length xs
      then let c = (if lt (xs ! (2 * hole + 2)) (xs ! (2 * hole + 1))
                    then 2 * hole + 1 else 2 * hole + 2)
           in sift_down lt (xs[hole := xs ! c]) c v
      else if 2 * hole + 2 = length xs
      then sift_up lt (xs[hole := xs ! (2 * hole + 1)]) (2 * hole + 1) v
      else sift_up lt xs hole v)"
  by pat_completeness auto
termination
  by (relation "measure (\<lambda>(_, xs, hole, _). length xs - hole)") (auto simp: Let_def)

declare sift_up.simps [simp del] sift_down.simps [simp del]

definition pq_push :: "('a \<Rightarrow> 'a \<Rightarrow> bool) \<Rightarrow> 'a \<Rightarrow> 'a list \<Rightarrow> 'a list" where
  "pq_push lt v xs = sift_up lt (xs @ [v]) (length xs) v"

text \<open>\<open>top()\<close> and \<open>pop()\<close> of an empty queue have no defined result.\<close>

definition pq_top :: "'a list \<Rightarrow> 'a" where
  "pq_top xs = xs ! 0"

definition pq_pop :: "('a \<Rightarrow> 'a \<Rightarrow> bool) \<Rightarrow> 'a list \<Rightarrow> 'a list" where
  "pq_pop lt xs =
     (if length xs > 1 then sift_down lt (butlast xs) 0 (last xs) else [])"

definition is_heap :: "('a \<Rightarrow> 'a \<Rightarrow> bool) \<Rightarrow> 'a list \<Rightarrow> bool" where
  "is_heap lt xs \<longleftrightarrow> (\<forall>i. 0 < i \<and> i < length xs \<longrightarrow> \<not> lt (xs ! parent i) (xs ! i))"

subsection \<open>The elements are kept\<close>

lemma length_sift_up [simp]: "length (sift_up lt xs hole v) = length xs"
  by (induction lt xs hole v rule: sift_up.induct) (subst sift_up.simps, auto)

lemma length_sift_down [simp]: "length (sift_down lt xs hole v) = length xs"
proof (induction lt xs hole v rule: sift_down.induct)
  case (1 lt xs hole v)
  then show ?case by (subst sift_down.simps) (auto simp: Let_def)
qed

lemma mset_move:
  assumes "i < length xs" "j < length xs"
  shows "mset (xs[i := xs ! j, j := v]) = mset (xs[i := v])"
proof (cases "i = j")
  case False
  have "mset ((xs[i := v])[i := xs[i := v] ! j, j := xs[i := v] ! i]) = mset (xs[i := v])"
    using assms by (intro mset_swap) auto
  with False assms show ?thesis by simp
qed simp

lemma mset_sift_up:
  "hole < length xs \<Longrightarrow> mset (sift_up lt xs hole v) = mset (xs[hole := v])"
proof (induction lt xs hole v rule: sift_up.induct)
  case (1 lt xs hole v)
  show ?case
  proof (cases "0 < hole \<and> lt (xs ! parent hole) v")
    case True
    then have p: "parent hole < length xs" using "1.prems" by auto
    with True "1.IH" "1.prems" show ?thesis
      by (subst sift_up.simps) (simp add: mset_move)
  next
    case False
    then show ?thesis by (subst sift_up.simps) auto
  qed
qed

lemma mset_sift_down:
  "hole < length xs \<Longrightarrow> mset (sift_down lt xs hole v) = mset (xs[hole := v])"
proof (induction lt xs hole v rule: sift_down.induct)
  case (1 lt xs hole v)
  let ?c = "if lt (xs ! (2 * hole + 2)) (xs ! (2 * hole + 1)) then 2 * hole + 1 else 2 * hole + 2"
  show ?case
  proof (cases "2 * hole + 2 < length xs")
    case True
    then have c: "?c < length xs" by auto
    have "mset (sift_down lt (xs[hole := xs ! ?c]) ?c v) = mset (xs[hole := xs ! ?c, ?c := v])"
      using "1.IH"[OF True refl] c by simp
    also have "\<dots> = mset (xs[hole := v])"
      using c "1.prems" by (rule mset_move[rotated])
    finally show ?thesis
      using True by (subst sift_down.simps) (simp only: Let_def if_True)
  next
    case False
    then show ?thesis
      using "1.prems" by (subst sift_down.simps) (auto simp: mset_sift_up mset_move)
  qed
qed

lemma mset_pq_push [simp]: "mset (pq_push lt v xs) = add_mset v (mset xs)"
  by (simp add: pq_push_def mset_sift_up)

lemma length_pq_push [simp]: "length (pq_push lt v xs) = Suc (length xs)"
  by (simp add: pq_push_def)

lemma length_pq_pop [simp]: "length (pq_pop lt xs) = length xs - 1"
  by (auto simp: pq_pop_def)

lemma mset_pq_pop:
  assumes "xs \<noteq> []"
  shows "mset xs = add_mset (pq_top xs) (mset (pq_pop lt xs))"
proof (cases "length xs > 1")
  case True
  then obtain x ys where xs: "butlast xs = x # ys" and top: "x = pq_top xs"
    by (cases xs rule: rev_cases) (auto simp: pq_top_def neq_Nil_conv)
  have "mset xs = mset (butlast xs @ [last xs])"
    using assms by simp
  also have "\<dots> = add_mset x (mset ((butlast xs)[0 := last xs]))"
    unfolding mset_append xs by simp
  finally show ?thesis
    using True xs top by (simp add: pq_pop_def mset_sift_down)
next
  case False
  then obtain x where "xs = [x]" using assms by (cases xs) auto
  then show ?thesis by (simp add: pq_pop_def pq_top_def)
qed

lemma set_pq_push [simp]: "set (pq_push lt v xs) = insert v (set xs)"
  using mset_pq_push[of lt v xs] by (metis set_mset_add_mset_insert set_mset_mset)

lemma set_pq_pop: "xs \<noteq> [] \<Longrightarrow> set (pq_pop lt xs) \<subseteq> set xs"
  using mset_pq_pop[of xs lt] by (metis set_mset_add_mset_insert set_mset_mset subset_insertI)

lemma pq_top_mem: "xs \<noteq> [] \<Longrightarrow> pq_top xs \<in> set xs"
  by (simp add: pq_top_def)

subsection \<open>The heap order is kept\<close>

text \<open>The order around a hole: every pair that avoids the hole is in order, and the hole's
  children are in order with its parent.\<close>

definition hole_heap :: "('a \<Rightarrow> 'a \<Rightarrow> bool) \<Rightarrow> 'a list \<Rightarrow> nat \<Rightarrow> bool" where
  "hole_heap lt xs hole \<longleftrightarrow>
     (\<forall>i. 0 < i \<and> i < length xs \<and> i \<noteq> hole \<and> parent i \<noteq> hole \<longrightarrow> \<not> lt (xs ! parent i) (xs ! i)) \<and>
     (\<forall>i. 0 < i \<and> i < length xs \<and> parent i = hole \<and> 0 < hole \<longrightarrow> \<not> lt (xs ! parent hole) (xs ! i))"

lemma hole_heapD:
  "hole_heap lt xs hole \<Longrightarrow> 0 < i \<Longrightarrow> i < length xs \<Longrightarrow> i \<noteq> hole \<Longrightarrow> parent i \<noteq> hole \<Longrightarrow>
   \<not> lt (xs ! parent i) (xs ! i)"
  by (simp add: hole_heap_def)

lemma parent_less: "0 < i \<Longrightarrow> parent i < i"
  by auto

context weak_order
begin

lemma hole_heap_up:
  assumes "hole_heap lt xs hole" "0 < hole" "hole < length xs"
  shows "hole_heap lt (xs[hole := xs ! parent hole]) (parent hole)"
proof -
  let ?p = "parent hole" and ?ys = "xs[hole := xs ! parent hole]"
  have p: "?p < hole" using assms(2) by auto
  have 1: "\<not> lt (?ys ! parent i) (?ys ! i)"
    if "0 < i" "i < length xs" "i \<noteq> ?p" "parent i \<noteq> ?p" for i
  proof (cases "parent i = hole")
    case True
    moreover have "i \<noteq> hole" using that by auto
    ultimately show ?thesis using assms that by (auto simp: hole_heap_def)
  next
    case False
    moreover have "i \<noteq> hole" using that by auto
    ultimately show ?thesis using assms that by (auto simp: hole_heap_def)
  qed
  have 2: "\<not> lt (?ys ! parent ?p) (?ys ! i)"
    if "0 < i" "i < length xs" "parent i = ?p" "0 < ?p" for i
  proof -
    have pp: "parent ?p < ?p" using that(4) by auto
    then have top: "\<not> lt (xs ! parent ?p) (xs ! ?p)"
      using assms p that(4) by (auto simp: hole_heap_def)
    have rest: "\<not> lt (xs ! ?p) (xs ! i)" if "i \<noteq> hole"
      using hole_heapD[OF assms(1) \<open>0 < i\<close> \<open>i < length xs\<close> that] \<open>parent i = ?p\<close> p by simp
    have ys: "?ys ! parent ?p = xs ! parent ?p"
      using pp p by (intro nth_list_update_neq) linarith
    show ?thesis
    proof (cases "i = hole")
      case True
      then show ?thesis using top assms(3) unfolding ys by simp
    next
      case False
      then show ?thesis using incomp_trans[OF top rest[OF False]] unfolding ys by simp
    qed
  qed
  show ?thesis
    unfolding hole_heap_def length_list_update using 1 2 by blast
qed

lemma sift_up_heap:
  assumes "hole < length xs" "hole_heap lt xs hole"
    and "\<forall>i. 0 < i \<and> i < length xs \<and> parent i = hole \<longrightarrow> \<not> lt v (xs ! i)"
  shows "is_heap lt (sift_up lt xs hole v)"
  using assms
proof (induction hole arbitrary: xs rule: less_induct)
  case (less hole)
  show ?case
  proof (cases "0 < hole \<and> lt (xs ! parent hole) v")
    case True
    let ?p = "parent hole" and ?ys = "xs[hole := xs ! parent hole]"
    have p: "?p < hole" using True by auto
    have "\<not> lt v (?ys ! i)" if "0 < i" "i < length xs" "parent i = ?p" for i
    proof (cases "i = hole")
      case True
      then show ?thesis using \<open>0 < hole \<and> lt (xs ! ?p) v\<close> that asym by auto
    next
      case False
      then have "\<not> lt (xs ! ?p) (xs ! i)"
        using hole_heapD[OF less.prems(2) that(1,2) False] that(3) p by simp
      then show ?thesis using True False trans by auto
    qed
    moreover have "hole_heap lt ?ys ?p"
      using hole_heap_up less.prems True by blast
    ultimately have "is_heap lt (sift_up lt ?ys ?p v)"
      using less.IH[OF p, of ?ys] p less.prems(1) by simp
    then show ?thesis using True by (subst sift_up.simps) simp
  next
    case False
    have "\<not> lt (xs[hole := v] ! parent i) (xs[hole := v] ! i)"
      if i: "0 < i" "i < length xs" for i
    proof -
      have ne: "parent i \<noteq> i" using i by auto
      consider "i = hole" | "parent i = hole" | "i \<noteq> hole" "parent i \<noteq> hole" by blast
      then show ?thesis
      proof cases
        case 1
        then show ?thesis using False i ne less.prems(1) by auto
      next
        case 2
        then show ?thesis using less.prems(1,3) i ne by auto
      next
        case 3
        then show ?thesis using less.prems(2) i by (auto simp: hole_heap_def)
      qed
    qed
    then show ?thesis
      using False by (subst sift_up.simps) (auto simp: is_heap_def)
  qed
qed

lemma hole_heap_down:
  assumes "hole_heap lt xs hole" "c < length xs" "0 < c" "parent c = hole"
    and "\<And>i. 0 < i \<Longrightarrow> i < length xs \<Longrightarrow> parent i = hole \<Longrightarrow> \<not> lt (xs ! c) (xs ! i)"
  shows "hole_heap lt (xs[hole := xs ! c]) c"
proof -
  let ?ys = "xs[hole := xs ! c]"
  have h: "hole < c" "hole < length xs" using assms(2,3,4) by auto
  have 1: "\<not> lt (?ys ! parent i) (?ys ! i)"
    if "0 < i" "i < length xs" "i \<noteq> c" "parent i \<noteq> c" for i
  proof -
    have ne: "parent i \<noteq> i" using that by auto
    consider "i = hole" | "parent i = hole" | "i \<noteq> hole" "parent i \<noteq> hole" by blast
    then show ?thesis
    proof cases
      case 1
      then show ?thesis using assms(1,2,3,4) that ne h by (auto simp: hole_heap_def)
    next
      case 2
      then show ?thesis using assms(5)[of i] that ne h by auto
    next
      case 3
      then show ?thesis using assms(1) that by (auto simp: hole_heap_def)
    qed
  qed
  have 2: "\<not> lt (?ys ! parent c) (?ys ! i)"
    if "0 < i" "i < length xs" "parent i = c" for i
  proof -
    have "i \<noteq> hole" using that h by auto
    moreover have "\<not> lt (xs ! parent i) (xs ! i)"
      using assms(1) that h \<open>i \<noteq> hole\<close> by (auto simp: hole_heap_def)
    ultimately show ?thesis using that assms(4) h by auto
  qed
  show ?thesis
    unfolding hole_heap_def length_list_update using 1 2 by blast
qed

lemma sift_down_heap:
  assumes "hole < length xs" "hole_heap lt xs hole"
  shows "is_heap lt (sift_down lt xs hole v)"
  using assms
proof (induction "length xs - hole" arbitrary: xs hole rule: less_induct)
  case less
  have children: "i = 2 * hole + 1 \<or> i = 2 * hole + 2" if "0 < i" "parent i = hole" for i
    using that by presburger
  let ?l = "2 * hole + 1" and ?r = "2 * hole + 2"
  let ?c = "if lt (xs ! ?r) (xs ! ?l) then ?l else ?r"
  show ?case
  proof (cases "?r < length xs")
    case True
    have c: "?c < length xs" "0 < ?c" "parent ?c = hole" "hole < ?c" using True by auto
    have "\<not> lt (xs ! ?c) (xs ! i)" if "0 < i" "i < length xs" "parent i = hole" for i
      using children[OF that(1,3)] irrefl asym by auto
    then have "hole_heap lt (xs[hole := xs ! ?c]) ?c"
      using hole_heap_down[OF less.prems(2) c(1,2,3)] by blast
    then have "is_heap lt (sift_down lt (xs[hole := xs ! ?c]) ?c v)"
      using less.hyps[of "xs[hole := xs ! ?c]" ?c] c by simp
    then show ?thesis
      using True by (subst sift_down.simps) (simp only: Let_def if_True)
  next
    case noright: False
    show ?thesis
    proof (cases "?r = length xs")
      case True
      have l: "?l < length xs" "0 < ?l" "parent ?l = hole" using True by auto
      have "\<not> lt (xs ! ?l) (xs ! i)" if "0 < i" "i < length xs" "parent i = hole" for i
        using children[OF that(1,3)] that(2) True irrefl by auto
      then have "hole_heap lt (xs[hole := xs ! ?l]) ?l"
        using hole_heap_down[OF less.prems(2) l] by blast
      then have "is_heap lt (sift_up lt (xs[hole := xs ! ?l]) ?l v)"
        using True by (intro sift_up_heap) auto
      then show ?thesis
        using True noright by (subst sift_down.simps) simp
    next
      case False
      have "is_heap lt (sift_up lt xs hole v)"
        using less.prems noright False children by (intro sift_up_heap) fastforce+
      then show ?thesis
        using False noright by (subst sift_down.simps) simp
    qed
  qed
qed

lemma heap_push:
  assumes "is_heap lt xs"
  shows "is_heap lt (pq_push lt v xs)"
  unfolding pq_push_def
proof (rule sift_up_heap)
  have "\<not> parent i = length xs" if "0 < i" "i < length (xs @ [v])" for i
    using that parent_less[OF that(1)] by simp
  then show "hole_heap lt (xs @ [v]) (length xs)"
    using assms unfolding hole_heap_def is_heap_def by (auto simp: nth_append less_Suc_eq)
qed (auto simp: nth_append)

lemma heap_pop:
  assumes "is_heap lt xs"
  shows "is_heap lt (pq_pop lt xs)"
proof (cases "length xs > 1")
  case True
  have "hole_heap lt (butlast xs) 0"
    using assms by (auto simp: hole_heap_def is_heap_def nth_butlast)
  then have "is_heap lt (sift_down lt (butlast xs) 0 (last xs))"
    using True by (intro sift_down_heap) auto
  then show ?thesis using True by (simp add: pq_pop_def)
qed (simp add: pq_pop_def is_heap_def)

lemma heap_top_max:
  assumes "is_heap lt xs" "x \<in> set xs"
  shows "\<not> lt (pq_top xs) x"
proof -
  have "\<not> lt (xs ! 0) (xs ! i)" if "i < length xs" for i
    using that
  proof (induction i rule: less_induct)
    case (less i)
    show ?case
    proof (cases "i = 0")
      case False
      then have "\<not> lt (xs ! 0) (xs ! parent i)" and "\<not> lt (xs ! parent i) (xs ! i)"
        using less assms(1) by (auto simp: is_heap_def)
      then show ?thesis by (rule incomp_trans)
    qed (simp add: irrefl)
  qed
  with assms(2) show ?thesis by (auto simp: in_set_conv_nth pq_top_def)
qed

end

section \<open>The contract\<close>

text \<open>A queue as its clients see it: \<open>elems\<close> is the multiset of its elements.\<close>

locale prio_queue = weak_order lt for lt :: "'a \<Rightarrow> 'a \<Rightarrow> bool" +
  fixes push :: "'a \<Rightarrow> 'q \<Rightarrow> 'q" and pop :: "'q \<Rightarrow> 'q" and front :: "'q \<Rightarrow> 'a"
    and elems :: "'q \<Rightarrow> 'a multiset" and inv :: "'q \<Rightarrow> bool"
  assumes push_inv: "inv q \<Longrightarrow> inv (push x q)"
    and push_elems: "inv q \<Longrightarrow> elems (push x q) = add_mset x (elems q)"
    and pop_inv: "inv q \<Longrightarrow> elems q \<noteq> {#} \<Longrightarrow> inv (pop q)"
    and pop_elems: "inv q \<Longrightarrow> elems q \<noteq> {#} \<Longrightarrow> elems q = add_mset (front q) (elems (pop q))"
    and top_max: "inv q \<Longrightarrow> x \<in># elems q \<Longrightarrow> \<not> lt (front q) x"

text \<open>Two loops over a queue, on any implementation: \<open>while (!q.empty()) { out.push(q.top());
  q.pop(); }\<close>, run for the \<open>n\<close> elements the queue holds, and the bounded insertion
  \<open>if (q.size() < k) q.push(x); else if (x beats q.top()) { q.pop(); q.push(x); }\<close>.\<close>

fun drain_n :: "('q \<Rightarrow> 'a) \<Rightarrow> ('q \<Rightarrow> 'q) \<Rightarrow> nat \<Rightarrow> 'q \<Rightarrow> 'a list" where
  "drain_n front pop 0 q = []"
| "drain_n front pop (Suc n) q = front q # drain_n front pop n (pop q)"

definition keep_best ::
  "('a \<Rightarrow> 'a \<Rightarrow> bool) \<Rightarrow> ('a \<Rightarrow> 'q \<Rightarrow> 'q) \<Rightarrow> ('q \<Rightarrow> 'q) \<Rightarrow> ('q \<Rightarrow> 'a) \<Rightarrow> nat \<Rightarrow> nat \<Rightarrow> 'a \<Rightarrow> 'q \<Rightarrow> 'q" where
  "keep_best lt push pop front n k x q =
     (if n < k then push x q else if lt x (front q) then push x (pop q) else q)"

text \<open>\<open>kept\<close> is a choice of \<open>k\<close> elements of \<open>seen\<close> (all of them if there are fewer) such that
  nothing left out beats anything kept.\<close>

definition best_k :: "('a \<Rightarrow> 'a \<Rightarrow> bool) \<Rightarrow> nat \<Rightarrow> 'a multiset \<Rightarrow> 'a multiset \<Rightarrow> bool" where
  "best_k lt k seen kept \<longleftrightarrow>
     kept \<subseteq># seen \<and> size kept = min k (size seen) \<and>
     (\<forall>x. x \<in># kept \<longrightarrow> (\<forall>y. y \<in># seen - kept \<longrightarrow> \<not> lt y x))"

lemma best_k_empty: "best_k lt k {#} {#}"
  by (simp add: best_k_def)

lemma best_k_all: "best_k lt k seen kept \<Longrightarrow> size seen \<le> k \<Longrightarrow> kept = seen"
  by (metis best_k_def min.absorb2 mset_subset_size nat_less_le subset_mset.nless_le)

lemma diff_add_mset_subset:
  "add_mset t P \<subseteq># S \<Longrightarrow> S - P = add_mset t (S - add_mset t P)"
proof -
  assume "add_mset t P \<subseteq># S"
  then obtain D where "S = add_mset t P + D" by (auto simp: mset_subset_eq_exists_conv)
  then show ?thesis by simp
qed

lemma length_drain_n [simp]: "length (drain_n front pop n q) = n"
  by (induction n arbitrary: q) auto

context weak_order
begin

lemma best_k_replace:
  assumes "best_k lt k seen K" "K = add_mset t P" "size K = k" "\<And>a. a \<in># K \<Longrightarrow> \<not> lt t a" "lt x t"
  shows "best_k lt k (add_mset x seen) (add_mset x P)"
proof -
  have sub: "K \<subseteq># seen" and out: "\<And>a y. a \<in># K \<Longrightarrow> y \<in># seen - K \<Longrightarrow> \<not> lt y a"
    and le: "k \<le> size seen"
    using assms(1,3) by (auto simp: best_k_def)
  have D: "seen - P = add_mset t (seen - K)"
    using sub unfolding assms(2) by (rule diff_add_mset_subset)
  have "\<not> lt b a" if "a \<in># add_mset x P" "b \<in># add_mset t (seen - K)" for a b
  proof -
    have bt: "\<not> lt b t" using that(2) out[of t b] assms(2) irrefl by auto
    show ?thesis
    proof (cases "a = x")
      case True
      then show ?thesis using bt assms(5) trans by blast
    next
      case False
      then have "a \<in># K" using that(1) assms(2) by auto
      then show ?thesis using that(2) out assms(4) by auto
    qed
  qed
  moreover have "P \<subseteq># seen"
    using sub assms(2) by (meson mset_subset_eq_insertD subset_mset.less_imp_le)
  moreover have "Suc (size P) = k" using assms(2,3) by simp
  ultimately show ?thesis using le D by (simp add: best_k_def)
qed

lemma best_k_reject:
  assumes "best_k lt k seen K" "size K = k" "\<not> lt x t" "\<And>a. a \<in># K \<Longrightarrow> \<not> lt t a"
  shows "best_k lt k (add_mset x seen) K"
proof -
  have sub: "K \<subseteq># seen" and out: "\<And>a y. a \<in># K \<Longrightarrow> y \<in># seen - K \<Longrightarrow> \<not> lt y a"
    and le: "k \<le> size seen"
    using assms(1,2) by (auto simp: best_k_def)
  have D: "add_mset x seen - K = add_mset x (seen - K)"
    using sub by (metis add_mset_add_single subset_mset.diff_add_assoc2)
  have "\<not> lt b a" if "a \<in># K" "b \<in># add_mset x (seen - K)" for a b
    using that(2) out[OF that(1)] incomp_trans[OF assms(3) assms(4)[OF that(1)]] by auto
  moreover have "K \<subseteq># add_mset x seen"
    using sub by (metis add_mset_add_single mset_subset_eq_add_left subset_mset.order_trans)
  ultimately show ?thesis using le D assms(2) by (simp add: best_k_def)
qed

end

context prio_queue
begin

lemma drain_n_elems:
  "inv q \<Longrightarrow> size (elems q) = n \<Longrightarrow> mset (drain_n front pop n q) = elems q"
proof (induction n arbitrary: q)
  case (Suc n)
  then have ne: "elems q \<noteq> {#}" by auto
  with Suc.prems have "size (elems (pop q)) = n"
    using pop_elems[of q] by (metis Suc_inject size_add_mset)
  with Suc ne show ?case
    using pop_inv[of q] pop_elems[of q] by simp
qed simp

text \<open>Draining yields the elements in order, the greatest first.\<close>

lemma drain_n_sorted:
  "inv q \<Longrightarrow> size (elems q) = n \<Longrightarrow> sorted_wrt (\<lambda>a b. \<not> lt a b) (drain_n front pop n q)"
proof (induction n arbitrary: q)
  case (Suc n)
  then have ne: "elems q \<noteq> {#}" by auto
  with Suc.prems have sz: "size (elems (pop q)) = n"
    using pop_elems[of q] by (metis Suc_inject size_add_mset)
  have "set (drain_n front pop n (pop q)) = set_mset (elems (pop q))"
    using drain_n_elems[OF pop_inv[OF Suc.prems(1) ne] sz] by (metis set_mset_mset)
  moreover have "set_mset (elems (pop q)) \<subseteq> set_mset (elems q)"
    using pop_elems[OF Suc.prems(1) ne] by (metis set_mset_add_mset_insert subset_insertI)
  ultimately show ?case
    using Suc.IH[OF pop_inv[OF Suc.prems(1) ne] sz] top_max[OF Suc.prems(1)] by auto
qed simp

text \<open>Bounded insertion keeps the best \<open>k\<close> of what has been seen.\<close>

lemma keep_best_best_k:
  assumes "inv q" "best_k lt k seen (elems q)" "0 < k" "size (elems q) = n"
  shows "best_k lt k (add_mset x seen) (elems (keep_best lt push pop front n k x q))"
    and "inv (keep_best lt push pop front n k x q)"
proof -
  have "best_k lt k (add_mset x seen) (elems (keep_best lt push pop front n k x q)) \<and>
    inv (keep_best lt push pop front n k x q)"
  proof (cases "n < k")
    case True
    then have "elems q = seen"
      using assms(2,4) by (intro best_k_all) (auto simp: best_k_def)
    then show ?thesis
      using True assms by (auto simp: keep_best_def best_k_def push_elems push_inv)
  next
    case full: False
    then have ne: "elems q \<noteq> {#}" using assms(3,4) by auto
    have sz: "size (elems q) = k" using full assms(2,4) by (auto simp: best_k_def)
    have K: "elems q = add_mset (front q) (elems (pop q))" using pop_elems[OF assms(1) ne] .
    show ?thesis
    proof (cases "lt x (front q)")
      case True
      have "best_k lt k (add_mset x seen) (add_mset x (elems (pop q)))"
        using best_k_replace[OF assms(2) K sz _ True] top_max[OF assms(1)] by blast
      then show ?thesis
        using full True pop_inv[OF assms(1) ne] by (simp add: keep_best_def push_elems push_inv)
    next
      case False
      have "best_k lt k (add_mset x seen) (elems q)"
        using best_k_reject[OF assms(2) sz False] top_max[OF assms(1)] by blast
      then show ?thesis using full False assms(1) by (simp add: keep_best_def)
    qed
  qed
  then show "best_k lt k (add_mset x seen) (elems (keep_best lt push pop front n k x q))"
    and "inv (keep_best lt push pop front n k x q)" by auto
qed

end

text \<open>The heap meets the contract for every strict weak order.\<close>

lemma heap_prio_queue:
  assumes "weak_order lt"
  shows "prio_queue lt (pq_push lt) (pq_pop lt) pq_top mset (is_heap lt)"
proof -
  from assms have pw: "weak_order lt" .
  show ?thesis
    using pw weak_order.heap_push[OF pw] weak_order.heap_pop[OF pw] weak_order.heap_top_max[OF pw]
      mset_pq_pop
    by (intro prio_queue.intro prio_queue_axioms.intro) auto
qed

text \<open>\<open>while (!q.empty()) \<dots>\<close> on a heap: the elements in the order they are popped.\<close>

definition drain :: "('a \<Rightarrow> 'a \<Rightarrow> bool) \<Rightarrow> 'a list \<Rightarrow> 'a list" where
  "drain lt q = drain_n pq_top (pq_pop lt) (length q) q"

lemma length_drain [simp]: "length (drain lt q) = length q"
  by (simp add: drain_def)

lemma mset_drain_n:
  "length q = n \<Longrightarrow> mset (drain_n pq_top (pq_pop lt) n q) = mset q"
proof (induction n arbitrary: q)
  case (Suc n)
  then have "q \<noteq> []" by auto
  with Suc show ?case using mset_pq_pop[of q lt] by simp
qed simp

lemma mset_drain [simp]: "mset (drain lt q) = mset q"
  by (simp add: drain_def mset_drain_n)

lemma set_drain [simp]: "set (drain lt q) = set q"
  using mset_drain by (metis set_mset_mset)

lemma sorted_drain:
  assumes "weak_order lt" "is_heap lt q"
  shows "sorted_wrt (\<lambda>a b. \<not> lt a b) (drain lt q)"
proof -
  from heap_prio_queue[OF assms(1)]
  have "prio_queue lt (pq_push lt) (pq_pop lt) pq_top mset (is_heap lt)" .
  from prio_queue.drain_n_sorted[OF this assms(2)] show ?thesis by (simp add: drain_def)
qed

lemma is_heap_Nil [simp]: "is_heap lt []"
  by (simp add: is_heap_def)

text \<open>Filling a queue, and taking the first element out.\<close>

lemma set_fold_push: "set (fold (pq_push lt) ns q) = set ns \<union> set q"
  by (induction ns arbitrary: q) (auto simp: set_pq_push)

lemma length_fold_push: "length (fold (pq_push lt) ns q) = length ns + length q"
  by (induction ns arbitrary: q) auto

lemma mset_fold_push: "mset (fold (pq_push lt) ns q) = mset ns + mset q"
  by (induction ns arbitrary: q) (auto simp: mset_pq_push)

lemma is_heap_fold_push: "weak_order lt \<Longrightarrow> is_heap lt q \<Longrightarrow> is_heap lt (fold (pq_push lt) ns q)"
  by (induction ns arbitrary: q) (auto intro: weak_order.heap_push)

lemma drain_Cons: "q \<noteq> [] \<Longrightarrow> drain lt q = pq_top q # drain lt (pq_pop lt q)"
  by (cases "length q") (auto simp: drain_def length_pq_pop)

end
