(* ===== verification/AttackBase.thy ===== *)
theory AttackBase
  imports Complex_Main CLib LevelDB PQueue
begin

text \<open>
  What the two single-stream attack programs (\<open>locality_attack.cc\<close> and \<open>entropy_attack.cc\<close>) have
  in common: the struct \<open>node\<close>, the comparator \<open>cmp\<close>, the global state, the bounded insertion into
  a frequency queue and the walk over a neighbour record. The lemmas show that the walk visits
  exactly the records of a well-formed value and that a queue filled this way holds the
  \<open>k\<close> most frequent of them.
\<close>

section \<open>Nodes and frequency queues\<close>

record node =
  nkey :: bytes
  ncount :: u64

definition cmp :: "node \<Rightarrow> node \<Rightarrow> bool" where
  "cmp a b \<longleftrightarrow> ncount a > ncount b"

text \<open>\<open>if (pt->size() < k) pt->push(entry); else { node min = pt->top(); if (tmp > min.count) {
  pt->pop(); pt->push(entry); } }\<close>\<close>

definition offer :: "u64 \<Rightarrow> node \<Rightarrow> node list \<Rightarrow> cpp_error + node list" where
  "offer k entry pt =
     (if length pt < unat k then Inr (pq_push cmp entry pt)
      else if pt = [] then Inl EmptyTop
      else let min = pq_top pt in
           if ncount entry > ncount min then Inr (pq_push cmp entry (pq_pop cmp pt)) else Inr pt)"

text \<open>The loop over a neighbour record: six bytes of fingerprint, eight of count, repeated.\<close>

function insert_records :: "u64 \<Rightarrow> bytes \<Rightarrow> nat \<Rightarrow> node list \<Rightarrow> cpp_error + node list" where
  "insert_records k v len pt =
     (if len < length v
      then bindE (read_bytes v len FP_SIZE) (\<lambda>tar.
           bindE (read_u64 v (len + FP_SIZE)) (\<lambda>tmp.
           bindE (offer k \<lparr>nkey = tar, ncount = tmp\<rparr> pt) (\<lambda>pt'.
           insert_records k v (len + (FP_SIZE + 8)) pt')))
      else Inr pt)"
  by pat_completeness auto
termination
  by (relation "measure (\<lambda>(_, v, len, _). length v - len)") auto

declare insert_records.simps [simp del]

text \<open>The bytes one record occupies in a neighbour value.\<close>

definition rec_bytes :: "node \<Rightarrow> bytes" where
  "rec_bytes n = nkey n @ u64_bytes (ncount n)"

definition wf_node :: "node \<Rightarrow> bool" where
  "wf_node n \<longleftrightarrow> length (nkey n) = FP_SIZE"

section \<open>The global state\<close>

record 'db attack =
  origin :: 'db
  left_o :: 'db
  right_o :: 'db
  target :: 'db
  left_t :: 'db
  right_t :: 'db
  uniq :: 'db
  pq :: "node list"
  pc :: "node list"
  q_o :: "node list"
  q_t :: "node list"
  ansq :: "node list"
  total :: u64
  common :: u64
  correct :: u64
  involve :: u64
  leak :: u64
  nrand :: nat

text \<open>The parameters \<open>main\<close> reads from the command line: u, v, w and the leakage rate.\<close>

record config =
  INIT :: u64
  TH_K :: u64
  QUEUE_LIMIT :: u64
  LEAK_RATE :: real

text \<open>The globals before \<open>main\<close> runs: the handles are NULL, everything else is empty or zero.\<close>

definition attack_start :: "'db \<Rightarrow> 'db attack" where
  "attack_start null = \<lparr>origin = null, left_o = null, right_o = null, target = null, left_t = null,
     right_t = null, uniq = null, pq = [], pc = [], q_o = [], q_t = [], ansq = [], total = 0,
     common = 0, correct = 0, involve = 0, leak = 0, nrand = 0\<rparr>"

text \<open>The body \<open>left_insert\<close> and \<open>right_insert\<close> share, on the table \<open>db\<close> they select: \<open>type\<close> 0 works
  on \<open>pq\<close>, any other on \<open>pc\<close>; a fingerprint without a record changes nothing.\<close>

definition insert_from ::
  "'db leveldb \<Rightarrow> 'db \<Rightarrow> int \<Rightarrow> bytes \<Rightarrow> u64 \<Rightarrow> ('db, 'x) attack_scheme \<Rightarrow>
   cpp_error + ('db, 'x) attack_scheme" where
  "insert_from L db type fp k s =
     (let (status, existing_value) = ldb_get L db fp [];
          pt = (if type = 0 then pq s else pc s)
      in if status = StOk
         then bindE (insert_records k existing_value 0 pt) (\<lambda>pt'.
                Inr (if type = 0 then s\<lparr>pq := pt'\<rparr> else s\<lparr>pc := pt'\<rparr>))
         else Inr s)"

text \<open>\<open>sprintf(buf, "%lu", count)\<close> into a zeroed buffer, of which eight bytes are stored.\<close>

definition lu_slice :: "u64 \<Rightarrow> bytes" where
  "lu_slice c = take 8 (to_string c @ replicate 32 NUL)"

definition uniq_put :: "'db leveldb \<Rightarrow> node \<Rightarrow> ('db, 'x) attack_scheme \<Rightarrow> ('db, 'x) attack_scheme" where
  "uniq_put L t s = s\<lparr>uniq := snd (ldb_put L (uniq s) (nkey t) (lu_slice (ncount t)))\<rparr>"

text \<open>\<open>db_insert\<close>: the body for one entry of a frequency table.\<close>

definition db_insert_entry :: "u64 \<Rightarrow> bytes \<times> bytes \<Rightarrow> node list \<Rightarrow> cpp_error + node list" where
  "db_insert_entry k e q =
     bindE (read_u64 (snd e) 0) (\<lambda>val.
     bindE (read_bytes (fst e) 0 FP_SIZE) (\<lambda>key.
       offer k \<lparr>nkey = key, ncount = val\<rparr> q))"

section \<open>Properties\<close>

interpretation freq: prio_queue cmp "pq_push cmp" "pq_pop cmp" pq_top mset "is_heap cmp"
proof -
  have "cmp = (\<lambda>a b. ncount a > ncount b)" by (auto simp: fun_eq_iff cmp_def)
  then have "weak_order cmp" using weak_order_key_rev[of ncount] by metis
  then show "prio_queue cmp (pq_push cmp) (pq_pop cmp) pq_top mset (is_heap cmp)"
    by (rule heap_prio_queue)
qed

lemma weak_order_cmp: "weak_order cmp"
  by (rule freq.weak_order_axioms)

lemma offer_keep_best:
  assumes "0 < unat k"
  shows "offer k x q = Inr (keep_best cmp (pq_push cmp) (pq_pop cmp) pq_top (length q) (unat k) x q)"
  using assms by (auto simp: offer_def keep_best_def Let_def cmp_def)

lemma offer_best_k:
  assumes "0 < unat k" "is_heap cmp q" "best_k cmp (unat k) seen (mset q)"
  shows "\<exists>q'. offer k x q = Inr q' \<and> is_heap cmp q' \<and> best_k cmp (unat k) (add_mset x seen) (mset q')"
  using freq.keep_best_best_k[OF assms(2,3,1)] offer_keep_best[OF assms(1)] by auto

lemma offers_best_k:
  assumes "0 < unat k" "is_heap cmp q" "best_k cmp (unat k) seen (mset q)"
  shows "\<exists>q'. foldE (offer k) xs q = Inr q' \<and> is_heap cmp q' \<and>
    best_k cmp (unat k) (mset xs + seen) (mset q')"
  using assms(2,3)
proof (induction xs arbitrary: q seen)
  case Nil
  then show ?case by simp
next
  case (Cons x xs)
  obtain q1 where q1: "offer k x q = Inr q1" "is_heap cmp q1"
    "best_k cmp (unat k) (add_mset x seen) (mset q1)"
    using offer_best_k[OF assms(1) Cons.prems] by blast
  with Cons.IH[OF q1(2,3)] show ?case by simp
qed

lemma set_offer: "offer k x q = Inr q' \<Longrightarrow> set q' \<subseteq> insert x (set q)"
  using set_pq_pop[of q cmp] by (auto simp: offer_def Let_def split: if_splits)

lemma length_rec_bytes: "wf_node n \<Longrightarrow> length (rec_bytes n) = FP_SIZE + 8"
  by (simp add: rec_bytes_def wf_node_def)

lemma length_concat_rec_bytes:
  "\<forall>n \<in> set ns. wf_node n \<Longrightarrow> length (concat (map rec_bytes ns)) = (FP_SIZE + 8) * length ns"
  by (induction ns) (auto simp: length_rec_bytes)

lemma insert_records_foldE:
  assumes "\<forall>n \<in> set ns. wf_node n"
  shows "insert_records k (pre @ concat (map rec_bytes ns)) (length pre) q = foldE (offer k) ns q"
  using assms
proof (induction ns arbitrary: pre q)
  case Nil
  then show ?case by (simp add: insert_records.simps)
next
  case (Cons n ns)
  let ?rest = "concat (map rec_bytes ns)" and ?v = "pre @ concat (map rec_bytes (n # ns))"
  have v: "?v = pre @ nkey n @ u64_bytes (ncount n) @ ?rest"
    "?v = (pre @ nkey n) @ u64_bytes (ncount n) @ ?rest"
    "?v = (pre @ rec_bytes n) @ ?rest"
    by (simp_all add: rec_bytes_def)
  have len: "length (nkey n) = FP_SIZE" "length (pre @ rec_bytes n) = length pre + (FP_SIZE + 8)"
    using Cons.prems length_rec_bytes by (auto simp: wf_node_def)
  have "read_bytes ?v (length pre) FP_SIZE = Inr (nkey n)"
    unfolding v(1) using len(1) by (intro read_bytes_at) auto
  moreover have "read_u64 ?v (length pre + FP_SIZE) = Inr (ncount n)"
    unfolding v(2) using len(1) by (intro read_u64_at) auto
  moreover have "insert_records k ?v (length pre + (FP_SIZE + 8)) = foldE (offer k) ns"
    using Cons.IH[of "pre @ rec_bytes n"] Cons.prems unfolding v(3) len(2) by (simp add: fun_eq_iff)
  moreover have "length pre < length ?v"
    unfolding v(1) by simp
  moreover have surj: "\<lparr>nkey = nkey n, ncount = ncount n\<rparr> = n"
    by (cases n) simp
  ultimately show ?case
    by (subst insert_records.simps) (simp add: surj)
qed

lemma insert_records_concat:
  "\<forall>n \<in> set ns. wf_node n \<Longrightarrow> insert_records k (concat (map rec_bytes ns)) 0 q = foldE (offer k) ns q"
  using insert_records_foldE[of ns k "[]" q] by simp

text \<open>Whatever the value holds, the nodes that come out have keys of fingerprint size.\<close>

lemma insert_records_wf:
  "insert_records k v len q = Inr q' \<Longrightarrow> \<forall>n \<in> set q. wf_node n \<Longrightarrow> \<forall>n \<in> set q'. wf_node n"
proof (induction k v len q arbitrary: q' rule: insert_records.induct)
  case (1 k v len pt)
  show ?case
  proof (cases "len < length v")
    case True
    with 1(2) obtain tar tmp pt' where r: "read_bytes v len FP_SIZE = Inr tar"
      "read_u64 v (len + FP_SIZE) = Inr tmp" "offer k \<lparr>nkey = tar, ncount = tmp\<rparr> pt = Inr pt'"
      "insert_records k v (len + (FP_SIZE + 8)) pt' = Inr q'"
      by (subst (asm) insert_records.simps) auto
    have "wf_node \<lparr>nkey = tar, ncount = tmp\<rparr>"
      using length_read_bytes[OF r(1)] by (simp add: wf_node_def)
    then have "\<forall>n \<in> set pt'. wf_node n"
      using set_offer[OF r(3)] 1(3) by auto
    then show ?thesis using 1(1)[OF True] r(4) by blast
  next
    case False
    with 1(2,3) show ?thesis by (simp add: insert_records.simps)
  qed
qed

text \<open>\<open>insert_from\<close> changes nothing but the two queues, and keeps their nodes well formed.\<close>

definition wf_nodes :: "node list \<Rightarrow> bool" where
  "wf_nodes ns \<longleftrightarrow> (\<forall>n \<in> set ns. wf_node n)"

lemma insert_from_queues:
  assumes "insert_from L db type fp k s = Inr s'" "wf_nodes (pq s)" "wf_nodes (pc s)"
  shows "\<exists>q c. s' = s\<lparr>pq := q, pc := c\<rparr> \<and> wf_nodes q \<and> wf_nodes c"
proof (cases "fst (ldb_get L db fp []) = StOk")
  case True
  obtain v where v: "ldb_get L db fp [] = (StOk, v)"
    using True by (cases "ldb_get L db fp []") auto
  obtain pt where pt: "insert_records k v 0 (if type = 0 then pq s else pc s) = Inr pt"
    and s': "s' = (if type = 0 then s\<lparr>pq := pt\<rparr> else s\<lparr>pc := pt\<rparr>)"
    using assms(1) v by (auto simp: insert_from_def)
  have wf: "wf_nodes pt"
    using insert_records_wf[OF pt] assms(2,3) by (auto simp: wf_nodes_def split: if_splits)
  show ?thesis
  proof (cases "type = 0")
    case True
    then have "s' = s\<lparr>pq := pt, pc := pc s\<rparr>" using s' by simp
    then show ?thesis using wf assms(3) by blast
  next
    case False
    then have "s' = s\<lparr>pq := pq s, pc := pt\<rparr>" using s' by simp
    then show ?thesis using wf assms(2) by blast
  qed
next
  case False
  then have "s' = s\<lparr>pq := pq s, pc := pc s\<rparr>"
    using assms(1) by (auto simp: insert_from_def split: prod.splits)
  then show ?thesis using assms(2,3) by blast
qed

section \<open>Well-formed tables\<close>

text \<open>What the counting program writes: a frequency table maps fingerprints to eight bytes of count,
  a neighbour table maps fingerprints to a sequence of neighbour records.\<close>

definition freq_table :: "(bytes \<rightharpoonup> bytes) \<Rightarrow> bool" where
  "freq_table m \<longleftrightarrow> (\<forall>k v. m k = Some v \<longrightarrow> length k = FP_SIZE \<and> (\<exists>c. v = u64_bytes c))"

definition assoc_table :: "(bytes \<rightharpoonup> bytes) \<Rightarrow> bool" where
  "assoc_table m \<longleftrightarrow> (\<forall>k v. m k = Some v \<longrightarrow> (\<exists>ns. wf_nodes ns \<and> v = concat (map rec_bytes ns)))"

definition wf_tables :: "('db \<Rightarrow> bytes \<rightharpoonup> bytes) \<Rightarrow> ('db, 'x) attack_scheme \<Rightarrow> bool" where
  "wf_tables view s \<longleftrightarrow> freq_table (view (origin s)) \<and> freq_table (view (target s)) \<and>
     assoc_table (view (left_o s)) \<and> assoc_table (view (right_o s)) \<and>
     assoc_table (view (left_t s)) \<and> assoc_table (view (right_t s))"

text \<open>The node of a frequency entry.\<close>

definition entry_node :: "bytes \<times> bytes \<Rightarrow> node" where
  "entry_node e = \<lparr>nkey = fst e, ncount = bytes_u64 (snd e)\<rparr>"

lemma offer_succeeds: "0 < unat k \<Longrightarrow> \<exists>q'. offer k x q = Inr q'"
  by (auto simp: offer_def Let_def)

lemma db_insert_entry_offer:
  assumes "length (fst e) = FP_SIZE" "snd e = u64_bytes c"
  shows "db_insert_entry k e q = offer k (entry_node e) q"
  using assms by (simp add: db_insert_entry_def entry_node_def read_bytes_inside)

context leveldb_laws
begin

lemma insert_from_records:
  assumes "view db fp = Some (concat (map rec_bytes ns))" "wf_nodes ns"
  shows "insert_from L db type fp k s =
    bindE (foldE (offer k) ns (if type = 0 then pq s else pc s))
      (\<lambda>pt. Inr (if type = 0 then s\<lparr>pq := pt\<rparr> else s\<lparr>pc := pt\<rparr>))"
  using assms by (simp add: insert_from_def get_hit insert_records_concat wf_nodes_def)

lemma insert_from_succeeds:
  assumes "assoc_table (view db)" "0 < unat k"
  shows "\<exists>s'. insert_from L db type fp k s = Inr s'"
proof (cases "view db fp")
  case None
  then show ?thesis by (simp add: insert_from_def get_miss)
next
  case (Some v)
  then obtain ns where ns: "wf_nodes ns" "v = concat (map rec_bytes ns)"
    using assms(1) by (auto simp: assoc_table_def)
  obtain q' where "foldE (offer k) ns (if type = 0 then pq s else pc s) = Inr q'"
    using foldE_succeeds[where I = "\<lambda>_. True" and f = "offer k"] offer_succeeds[OF assms(2)] by blast
  then show ?thesis
    unfolding insert_from_records[OF Some[unfolded ns(2)] ns(1)] by simp
qed

text \<open>Filling the empty queue from a frequency table keeps the k most frequent entries.\<close>

lemma db_insert_best_k:
  assumes "freq_table (view db)" "0 < unat k"
  shows "\<exists>q. foldE (db_insert_entry k) (fst (ldb_iter L db)) [] = Inr q \<and> is_heap cmp q \<and>
    best_k cmp (unat k) (mset (map entry_node (fst (ldb_iter L db)))) (mset q)"
proof -
  let ?es = "fst (ldb_iter L db)"
  have "foldE (db_insert_entry k) ?es [] = foldE (\<lambda>e. offer k (entry_node e)) ?es []"
  proof (rule foldE_cong_set)
    fix e q assume "e \<in> set ?es"
    then have "view db (fst e) = Some (snd e)" using iter_mem by (metis prod.collapse)
    then obtain c where "length (fst e) = FP_SIZE" "snd e = u64_bytes c"
      using assms(1) unfolding freq_table_def by blast
    then show "db_insert_entry k e q = offer k (entry_node e) q" by (rule db_insert_entry_offer)
  qed
  also have "\<dots> = foldE (offer k) (map entry_node ?es) []" by (simp add: foldE_map)
  finally show ?thesis
    using offers_best_k[OF assms(2) is_heap_Nil, of "{#}" "map entry_node ?es"] by (simp add: best_k_empty)
qed

end

end
