(* ===== verification/LocalityAttack.thy ===== *)
theory LocalityAttack
  imports AttackBase "HOL-Library.While_Combinator"
begin

text \<open>
  \<open>single_stream/locality_attack.cc\<close>: the locality-based frequency analysis attack. The auxiliary
  tables (\<open>origin\<close>, \<open>left_o\<close>, \<open>right_o\<close>) and the target tables (\<open>target\<close>, \<open>left_t\<close>, \<open>right_t\<close>) are
  read only; the queues \<open>q_o\<close> and \<open>q_t\<close> hold the inferred pairs still to expand and \<open>uniq\<close> the
  ciphertext chunks already inferred. The theorems show that every expansion keeps the most
  frequent neighbours, that no ciphertext chunk is inferred twice, that the queue bound is
  kept, that the counters account for the inferred pairs, and that the main loop always ends.
\<close>

section \<open>The program\<close>

definition init_db_loc ::
  "'db leveldb \<Rightarrow> string \<Rightarrow> int \<Rightarrow> ('db, 'x) attack_scheme \<Rightarrow> cpp_error + ('db, 'x) attack_scheme" where
  "init_db_loc L db_name type s =
     bindE (open_db L db_name) (\<lambda>db. Inr (
       if type = 1 then s\<lparr>origin := db\<rparr>
       else if type = 11 then s\<lparr>left_o := db\<rparr>
       else if type = 12 then s\<lparr>right_o := db\<rparr>
       else if type = 2 then s\<lparr>target := db\<rparr>
       else if type = 21 then s\<lparr>left_t := db\<rparr>
       else if type = 22 then s\<lparr>right_t := db\<rparr>
       else if type = 3 then s\<lparr>uniq := db\<rparr>
       else s))"

text \<open>One step of the loop of \<open>stat_db\<close> over the target table. \<open>rnd n\<close> is what the n-th call
  of \<open>rand()\<close> returns; it is called only when the leakage rate is not zero.\<close>

definition stat_db_entry ::
  "'db leveldb \<Rightarrow> config \<Rightarrow> (nat \<Rightarrow> nat) \<Rightarrow> bytes \<times> bytes \<Rightarrow> ('db, 'x) attack_scheme \<Rightarrow> cpp_error + ('db, 'x) attack_scheme" where
  "stat_db_entry L cfg rnd e s0 =
     (let s = s0\<lparr>total := total s0 + 1\<rparr>;
          (status, existing_value) = ldb_get L (origin s) (fst e) []
      in if LEAK_RATE cfg \<noteq> 0
         then let s = s\<lparr>nrand := Suc (nrand s)\<rparr> in
              if real (rnd (nrand s0) mod 10000) \<le> LEAK_RATE cfg * 10000
              then let s = s\<lparr>common := common s + 1\<rparr> in
                   if status = StOk
                   then bindE (read_bytes (fst e) 0 FP_SIZE) (\<lambda>k.
                        bindE (read_u64 existing_value 0) (\<lambda>co.
                        bindE (read_u64 (snd e) 0) (\<lambda>ct.
                          let s = s\<lparr>q_o := q_o s @ [\<lparr>nkey = k, ncount = co\<rparr>]\<rparr>;
                              entry_t = \<lparr>nkey = k, ncount = ct\<rparr>;
                              s = uniq_put L entry_t s;
                              s = s\<lparr>q_t := q_t s @ [entry_t]\<rparr>
                          in Inr (s\<lparr>leak := leak s + 1\<rparr>))))
                   else Inr s
              else Inr s
         else Inr s)"

definition stat_db_loc ::
  "'db leveldb \<Rightarrow> config \<Rightarrow> (nat \<Rightarrow> nat) \<Rightarrow> ('db, 'x) attack_scheme \<Rightarrow> cpp_error + ('db, 'x) attack_scheme" where
  "stat_db_loc L cfg rnd s = foldE (stat_db_entry L cfg rnd) (fst (ldb_iter L (target s))) s"

definition left_insert_loc ::
  "'db leveldb \<Rightarrow> int \<Rightarrow> bytes \<Rightarrow> u64 \<Rightarrow> ('db, 'x) attack_scheme \<Rightarrow> cpp_error + ('db, 'x) attack_scheme" where
  "left_insert_loc L type fp k s =
     insert_from L (if type = 0 then left_o s else left_t s) type fp k s"

definition right_insert_loc ::
  "'db leveldb \<Rightarrow> int \<Rightarrow> bytes \<Rightarrow> u64 \<Rightarrow> ('db, 'x) attack_scheme \<Rightarrow> cpp_error + ('db, 'x) attack_scheme" where
  "right_insert_loc L type fp k s =
     insert_from L (if type = 0 then right_o s else right_t s) type fp k s"

definition db_insert_loc ::
  "'db leveldb \<Rightarrow> 'db \<Rightarrow> u64 \<Rightarrow> ('db, 'x) attack_scheme \<Rightarrow> cpp_error + ('db, 'x) attack_scheme" where
  "db_insert_loc L db k s =
     bindE (foldE (db_insert_entry k) (fst (ldb_iter L db)) (pq s)) (\<lambda>q. Inr (s\<lparr>pq := q\<rparr>))"

text \<open>The start of \<open>main_loop\<close> without leakage: the \<open>INIT\<close> most frequent chunks of either table,
  most frequent first (draining into a stack and popping the stack reverses the order).\<close>

definition seed_loc ::
  "'db leveldb \<Rightarrow> config \<Rightarrow> ('db, 'x) attack_scheme \<Rightarrow> cpp_error + ('db, 'x) attack_scheme" where
  "seed_loc L cfg s =
     bindE (db_insert_loc L (origin s) (INIT cfg) s) (\<lambda>s.
       let tmp = rev (drain cmp (pq s));
           s = s\<lparr>pq := [], q_o := q_o s @ tmp\<rparr>
       in bindE (db_insert_loc L (target s) (INIT cfg) s) (\<lambda>s.
          let tmp = rev (drain cmp (pq s));
              s = s\<lparr>pq := []\<rparr>
          in Inr (fold (\<lambda>t s. (uniq_put L t s)\<lparr>q_t := q_t s @ [t]\<rparr>) tmp s)))"

text \<open>\<open>while (!pq.empty() && !pc.empty())\<close>: both queues are popped together onto two stacks.\<close>

function pair_pop :: "node list \<Rightarrow> node list \<Rightarrow> node list \<Rightarrow> node list \<Rightarrow>
    node list \<times> node list \<times> node list \<times> node list" where
  "pair_pop q c omp tmp =
     (if q \<noteq> [] \<and> c \<noteq> []
      then pair_pop (pq_pop cmp q) (pq_pop cmp c) (pq_top q # omp) (pq_top c # tmp)
      else (q, c, omp, tmp))"
  by pat_completeness auto
termination
  by (relation "measure (\<lambda>(q, _). length q)") auto

declare pair_pop.simps [simp del]

text \<open>\<open>while (!tmp.empty() && !omp.empty())\<close>: pairs whose ciphertext chunk is new are recorded and
  enqueued until the queue limit stops the loop.\<close>

fun infer_loop ::
  "'db leveldb \<Rightarrow> u64 \<Rightarrow> node list \<Rightarrow> node list \<Rightarrow> ('db, 'x) attack_scheme \<Rightarrow> ('db, 'x) attack_scheme" where
  "infer_loop L limit (o1 # omp) (t # tmp) s =
     (if fst (ldb_get L (uniq s) (nkey t) []) \<noteq> StOk
      then if length (q_o s) + 1 > unat limit then s
           else infer_loop L limit omp tmp
                  ((uniq_put L t s)\<lparr>q_o := q_o s @ [o1], q_t := q_t s @ [t]\<rparr>)
      else infer_loop L limit omp tmp s)"
| "infer_loop L limit omp tmp s = s"

text \<open>One side of an iteration: the queues are cleared, the neighbours of the two fronts are
  inserted, paired by rank and inferred. \<open>ins\<close> is \<open>left_insert\<close> or \<open>right_insert\<close>.\<close>

definition expand_loc ::
  "('db leveldb \<Rightarrow> int \<Rightarrow> bytes \<Rightarrow> u64 \<Rightarrow> ('db, 'x) attack_scheme \<Rightarrow> cpp_error + ('db, 'x) attack_scheme) \<Rightarrow>
   'db leveldb \<Rightarrow> config \<Rightarrow> ('db, 'x) attack_scheme \<Rightarrow> cpp_error + ('db, 'x) attack_scheme" where
  "expand_loc ins L cfg s =
     (let s = s\<lparr>pq := [], pc := []\<rparr> in
      bindE (ins L 0 (nkey (hd (q_o s))) (TH_K cfg) s) (\<lambda>s.
      bindE (ins L 1 (nkey (hd (q_t s))) (TH_K cfg) s) (\<lambda>s.
        let (q, c, omp, tmp) = pair_pop (pq s) (pc s) [] [];
            s = s\<lparr>pq := q, pc := c\<rparr>
        in Inr (infer_loop L (QUEUE_LIMIT cfg) omp tmp s))))"

text \<open>The body of \<open>MAIN LOOP\<close>: the front pair is judged, then expanded to the left and to the
  right, then removed.\<close>

definition judge_front :: "('db, 'x) attack_scheme \<Rightarrow> ('db, 'x) attack_scheme" where
  "judge_front s =
     (if nkey (hd (q_o s)) = nkey (hd (q_t s))
      then s\<lparr>ansq := ansq s @ [hd (q_o s)], correct := correct s + 1\<rparr> else s)"

definition attack_step ::
  "'db leveldb \<Rightarrow> config \<Rightarrow> ('db, 'x) attack_scheme \<Rightarrow> cpp_error + ('db, 'x) attack_scheme" where
  "attack_step L cfg s =
     bindE (expand_loc left_insert_loc L cfg (judge_front s)) (\<lambda>s.
     bindE (expand_loc right_insert_loc L cfg s) (\<lambda>s.
       Inr (s\<lparr>q_o := tl (q_o s), q_t := tl (q_t s), involve := involve s + 1\<rparr>)))"

definition attack_running :: "cpp_error + ('db, 'x) attack_scheme \<Rightarrow> bool" where
  "attack_running r = (case r of Inl e \<Rightarrow> False | Inr s \<Rightarrow> q_o s \<noteq> [] \<and> q_t s \<noteq> [])"

definition attack_loop ::
  "'db leveldb \<Rightarrow> config \<Rightarrow> cpp_error + ('db, 'x) attack_scheme \<Rightarrow> (cpp_error + ('db, 'x) attack_scheme) option" where
  "attack_loop L cfg = while_option attack_running (\<lambda>r. bindE r (attack_step L cfg))"

definition main_loop_loc ::
  "'db leveldb \<Rightarrow> config \<Rightarrow> ('db, 'x) attack_scheme \<Rightarrow> (cpp_error + ('db, 'x) attack_scheme) option" where
  "main_loop_loc L cfg s =
     (let s = s\<lparr>ansq := []\<rparr>
      in attack_loop L cfg (if LEAK_RATE cfg = 0 then seed_loc L cfg s else Inr s))"

text \<open>\<open>main\<close>: the seven stores, the parameters, the leaked chunks, the main loop; then the inferred
  chunks are printed, the last one first.\<close>

definition read_config :: "string list \<Rightarrow> cpp_error + config" where
  "read_config argv =
     bindE (argv_at argv 1) (\<lambda>u.
     bindE (argv_at argv 2) (\<lambda>v.
     bindE (argv_at argv 3) (\<lambda>w.
     bindE (argv_at argv 4) (\<lambda>r.
       Inr \<lparr>INIT = word_of_int (atoi u), TH_K = word_of_int (atoi v),
            QUEUE_LIMIT = word_of_int (atoi w), LEAK_RATE = atof r\<rparr>))))"

definition init_dbs_loc ::
  "'db leveldb \<Rightarrow> string list \<Rightarrow> ('db, 'x) attack_scheme \<Rightarrow> cpp_error + ('db, 'x) attack_scheme" where
  "init_dbs_loc L argv s =
     bindE (foldE (\<lambda>(i, type) s. bindE (argv_at argv i) (\<lambda>name. init_db_loc L name type s))
              [(5, 1), (6, 11), (7, 12), (8, 2), (9, 21), (10, 22)] s)
       (init_db_loc L ''./inference-db/'' 3)"

definition attack_run_loc ::
  "'db leveldb \<Rightarrow> config \<Rightarrow> (nat \<Rightarrow> nat) \<Rightarrow> ('db, 'x) attack_scheme \<Rightarrow> (cpp_error + ('db, 'x) attack_scheme) option" where
  "attack_run_loc L cfg rnd s =
     (case stat_db_loc L cfg rnd s of Inl e \<Rightarrow> Some (Inl e) | Inr s \<Rightarrow> main_loop_loc L cfg s)"

definition print_answers :: "node list \<Rightarrow> string" where
  "print_answers ans = concat (map (\<lambda>n. fp_text (nkey n) @ [LF]) (rev ans))"

definition main_loc ::
  "'db leveldb \<Rightarrow> (nat \<Rightarrow> nat) \<Rightarrow> 'db \<Rightarrow> string list \<Rightarrow> (cpp_error + ('db attack \<times> string)) option" where
  "main_loc L rnd null argv =
     (case bindE (init_dbs_loc L argv (attack_start null)) (\<lambda>s.
            bindE (read_config argv) (\<lambda>cfg. Inr (s, cfg))) of
        Inl e \<Rightarrow> Some (Inl e)
      | Inr (s, cfg) \<Rightarrow>
          map_option (\<lambda>r. bindE r (\<lambda>s. Inr (s\<lparr>ansq := []\<rparr>, print_answers (ansq s))))
            (attack_run_loc L cfg rnd s))"

section \<open>Pairing by rank\<close>

lemma pair_pop_drain_n:
  assumes "n = min (length q) (length c)"
  shows "\<exists>q' c'. pair_pop q c omp tmp =
    (q', c', rev (drain_n pq_top (pq_pop cmp) n q) @ omp, rev (drain_n pq_top (pq_pop cmp) n c) @ tmp)"
  using assms
proof (induction n arbitrary: q c omp tmp)
  case 0
  then have "q = [] \<or> c = []" by (auto simp: min_def split: if_splits)
  then show ?case by (subst pair_pop.simps) auto
next
  case (Suc n)
  then have ne: "q \<noteq> []" "c \<noteq> []" by auto
  have "n = min (length (pq_pop cmp q)) (length (pq_pop cmp c))"
    using Suc.prems by (auto simp: min_def split: if_splits)
  from Suc.IH[OF this, of "pq_top q # omp" "pq_top c # tmp"] ne show ?case
    by (subst pair_pop.simps) simp
qed

lemma drain_n_take:
  "n \<le> m \<Longrightarrow> drain_n top1 pop1 n q = take n (drain_n top1 pop1 m q)"
proof (induction n arbitrary: m q)
  case (Suc n)
  then show ?case by (cases m) auto
qed simp

text \<open>The stacks hold the least frequent entries of the two queues, as many as the smaller queue
  has, the most frequent of them on top.\<close>

lemma pair_pop_ranks:
  assumes "pair_pop q c [] [] = (q', c', omp, tmp)"
  shows "omp = rev (take (min (length q) (length c)) (drain cmp q))"
    and "tmp = rev (take (min (length q) (length c)) (drain cmp c))"
proof -
  let ?n = "min (length q) (length c)"
  obtain q1 c1 where "pair_pop q c [] [] =
    (q1, c1, rev (drain_n pq_top (pq_pop cmp) ?n q) @ [], rev (drain_n pq_top (pq_pop cmp) ?n c) @ [])"
    using pair_pop_drain_n by blast
  with assms have "omp = rev (drain_n pq_top (pq_pop cmp) ?n q)"
    "tmp = rev (drain_n pq_top (pq_pop cmp) ?n c)" by auto
  then show "omp = rev (take ?n (drain cmp q))" "tmp = rev (take ?n (drain cmp c))"
    using drain_n_take[of ?n "length q" pq_top "pq_pop cmp" q]
      drain_n_take[of ?n "length c" pq_top "pq_pop cmp" c]
    by (simp_all add: drain_def)
qed

lemma pair_pop_subset:
  assumes "pair_pop q c [] [] = (q', c', omp, tmp)"
  shows "set omp \<subseteq> set q" "set tmp \<subseteq> set c" "length omp = length tmp"
  using pair_pop_ranks[OF assms] set_take_subset[of _ "drain cmp _"] by fastforce+

section \<open>What one iteration changes\<close>

text \<open>The fingerprint-sized keys.\<close>

definition fp_keys :: "bytes set" where
  "fp_keys = {k. length k = FP_SIZE}"

lemma finite_fp_keys: "finite fp_keys"
  using finite_lists_length_eq[of "UNIV :: char set" FP_SIZE] by (simp add: fp_keys_def)

lemma card_fp_keys: "card fp_keys = 2 ^ 48"
  using card_lists_length_eq[of "UNIV :: char set" FP_SIZE] by (simp add: fp_keys_def card_UNIV_char)

text \<open>\<open>grows view cap s s' os ts\<close>: the step from \<open>s\<close> to \<open>s'\<close> inferred the new pairs \<open>os\<close>, \<open>ts\<close>.\<close>

abbreviation tables :: "('db, 'x) attack_scheme \<Rightarrow> 'db \<times> 'db \<times> 'db \<times> 'db \<times> 'db \<times> 'db" where
  "tables s \<equiv> (origin s, left_o s, right_o s, target s, left_t s, right_t s)"

definition grows :: "('db \<Rightarrow> bytes \<rightharpoonup> bytes) \<Rightarrow> nat \<Rightarrow> ('db, 'x) attack_scheme \<Rightarrow> ('db, 'x) attack_scheme \<Rightarrow> node list \<Rightarrow> node list \<Rightarrow> bool" where
  "grows view cap s s' os ts \<longleftrightarrow>
     length os = length ts \<and> q_o s' = q_o s @ os \<and> q_t s' = q_t s @ ts \<and>
     distinct (map nkey ts) \<and> nkey ` set ts \<inter> dom (view (uniq s)) = {} \<and>
     dom (view (uniq s')) = dom (view (uniq s)) \<union> nkey ` set ts \<and>
     (\<forall>n \<in> set ts. wf_node n) \<and>
     (os \<noteq> [] \<longrightarrow> length (q_o s) + length os \<le> cap) \<and>
     involve s' = involve s \<and> correct s' = correct s \<and> ansq s' = ansq s \<and>
     tables s' = tables s \<and> total s' = total s"

lemma grows_refl: "grows view cap s s [] []"
  by (simp add: grows_def)

lemma grows_trans:
  assumes "grows view cap s s1 os ts" "grows view cap s1 s2 os' ts'"
  shows "grows view cap s s2 (os @ os') (ts @ ts')"
  using assms by (auto simp: grows_def)

lemma grows_upd_queues:
  "grows view cap (s\<lparr>pq := q, pc := c\<rparr>) s' os ts \<longleftrightarrow> grows view cap s s' os ts"
  by (simp add: grows_def)

context leveldb_laws
begin

lemma grows_uniq_put:
  assumes "wf_node t" "nkey t \<notin> dom (view (uniq s))" "length (q_o s) + 1 \<le> cap"
  shows "grows view cap s ((uniq_put L t s)\<lparr>q_o := q_o s @ [o1], q_t := q_t s @ [t]\<rparr>) [o1] [t]"
  using assms by (auto simp: grows_def uniq_put_def view_put)

lemma infer_loop_grows:
  assumes "\<forall>n \<in> set tmp. wf_node n"
  shows "\<exists>os ts. grows view (unat limit) s (infer_loop L limit omp tmp s) os ts"
  using assms
proof (induction omp tmp arbitrary: s rule: list_induct2')
  case (4 o1 omp t tmp)
  let ?s1 = "(uniq_put L t s)\<lparr>q_o := q_o s @ [o1], q_t := q_t s @ [t]\<rparr>"
  show ?case
  proof (cases "nkey t \<in> dom (view (uniq s)) \<or> length (q_o s) + 1 > unat limit")
    case True
    then have "infer_loop L limit (o1 # omp) (t # tmp) s = infer_loop L limit omp tmp s \<or>
      infer_loop L limit (o1 # omp) (t # tmp) s = s"
      using get_status[of "uniq s" "nkey t" "[]"] by auto
    then show ?thesis
      using 4 grows_refl by (metis list.set_intros(2))
  next
    case False
    then have "grows view (unat limit) s ?s1 [o1] [t]"
      using 4(2) by (intro grows_uniq_put) auto
    moreover obtain os ts where "grows view (unat limit) ?s1 (infer_loop L limit omp tmp ?s1) os ts"
      using 4 by fastforce
    ultimately have "grows view (unat limit) s (infer_loop L limit omp tmp ?s1) ([o1] @ os) ([t] @ ts)"
      by (rule grows_trans)
    moreover have "infer_loop L limit (o1 # omp) (t # tmp) s = infer_loop L limit omp tmp ?s1"
      using False get_status[of "uniq s" "nkey t" "[]"] by auto
    ultimately show ?thesis by auto
  qed
qed (auto intro: grows_refl)

end

context leveldb_laws
begin

lemma expand_grows:
  assumes "\<And>L type fp k s. \<exists>db. ins L type fp k s = insert_from L db type fp k s"
    and "expand_loc ins L cfg s = Inr s'"
  shows "\<exists>os ts. grows view (unat (QUEUE_LIMIT cfg)) s s' os ts"
proof -
  let ?s0 = "s\<lparr>pq := [], pc := []\<rparr>"
  have wf0: "wf_nodes (pq ?s0)" "wf_nodes (pc ?s0)" by (auto simp: wf_nodes_def)
  from assms(2) obtain s1 s2 where
    i1: "ins L 0 (nkey (hd (q_o ?s0))) (TH_K cfg) ?s0 = Inr s1" and
    i2: "ins L 1 (nkey (hd (q_t s1))) (TH_K cfg) s1 = Inr s2" and
    r: "(let (q, c, omp, tmp) = pair_pop (pq s2) (pc s2) [] [];
            s = s2\<lparr>pq := q, pc := c\<rparr>
        in Inr (infer_loop L (QUEUE_LIMIT cfg) omp tmp s)) = (Inr s' :: cpp_error + _)"
    by (auto simp: expand_loc_def Let_def)
  obtain q1 c1 where s1: "s1 = ?s0\<lparr>pq := q1, pc := c1\<rparr>" "wf_nodes q1" "wf_nodes c1"
    using insert_from_queues[OF _ wf0] assms(1) i1 by metis
  have wf1: "wf_nodes (pq s1)" "wf_nodes (pc s1)" using s1 by auto
  obtain q2 c2 where s2: "s2 = s1\<lparr>pq := q2, pc := c2\<rparr>" "wf_nodes q2" "wf_nodes c2"
    using insert_from_queues[OF _ wf1] assms(1) i2 by metis
  obtain q3 c3 omp tmp where p: "pair_pop (pq s2) (pc s2) [] [] = (q3, c3, omp, tmp)"
    by (cases "pair_pop (pq s2) (pc s2) [] []") auto
  have s': "s' = infer_loop L (QUEUE_LIMIT cfg) omp tmp (s2\<lparr>pq := q3, pc := c3\<rparr>)"
    using r p by simp
  have "\<forall>n \<in> set tmp. wf_node n"
    using pair_pop_subset(2)[OF p] s2 by (auto simp: wf_nodes_def)
  then obtain os ts where "grows view (unat (QUEUE_LIMIT cfg)) (s2\<lparr>pq := q3, pc := c3\<rparr>) s' os ts"
    using infer_loop_grows s' by blast
  then show ?thesis
    unfolding s1 s2 by (auto simp: grows_def)
qed

lemma attack_step_grows:
  assumes "attack_step L cfg s = Inr s'"
  obtains s3 os ts where "grows view (unat (QUEUE_LIMIT cfg)) (judge_front s) s3 os ts"
    and "s' = s3\<lparr>q_o := tl (q_o s3), q_t := tl (q_t s3), involve := involve s3 + 1\<rparr>"
proof -
  from assms obtain s2 s3 where e: "expand_loc left_insert_loc L cfg (judge_front s) = Inr s2"
    "expand_loc right_insert_loc L cfg s2 = Inr s3"
    and s': "s' = s3\<lparr>q_o := tl (q_o s3), q_t := tl (q_t s3), involve := involve s3 + 1\<rparr>"
    by (auto simp: attack_step_def)
  have l: "\<exists>db. left_insert_loc L type fp k s = insert_from L db type fp k s"
    and r: "\<exists>db. right_insert_loc L type fp k s = insert_from L db type fp k s" for L type fp k s
    by (auto simp: left_insert_loc_def right_insert_loc_def)
  obtain os1 ts1 os2 ts2 where "grows view (unat (QUEUE_LIMIT cfg)) (judge_front s) s2 os1 ts1"
    "grows view (unat (QUEUE_LIMIT cfg)) s2 s3 os2 ts2"
    using expand_grows[OF l e(1)] expand_grows[OF r e(2)] by blast
  then have "grows view (unat (QUEUE_LIMIT cfg)) (judge_front s) s3 (os1 @ os2) (ts1 @ ts2)"
    by (rule grows_trans)
  then show ?thesis using that s' by blast
qed

end

lemma judge_front_frame [simp]:
  "q_o (judge_front s) = q_o s" "q_t (judge_front s) = q_t s" "uniq (judge_front s) = uniq s"
  "involve (judge_front s) = involve s"
  by (simp_all add: judge_front_def)

section \<open>Termination\<close>

text \<open>Twice the number of fingerprints not yet inferred, plus the queue: every inferred pair takes
  two from the first and adds one to the second, every iteration removes one.\<close>

definition attack_measure :: "('db \<Rightarrow> bytes \<rightharpoonup> bytes) \<Rightarrow> cpp_error + ('db, 'x) attack_scheme \<Rightarrow> nat" where
  "attack_measure view r =
     (case r of Inl e \<Rightarrow> 0
      | Inr s \<Rightarrow> 2 * card (fp_keys - dom (view (uniq s))) + length (q_t s))"

lemma card_fresh_keys:
  assumes "distinct (map nkey ts)" "\<forall>n \<in> set ts. wf_node n" "nkey ` set ts \<inter> D = {}"
  shows "card (fp_keys - (D \<union> nkey ` set ts)) + length ts = card (fp_keys - D)"
proof -
  have sub: "nkey ` set ts \<subseteq> fp_keys - D"
    using assms by (auto simp: wf_node_def fp_keys_def)
  have "card (nkey ` set ts) = length ts"
    using assms(1) by (metis distinct_card image_set length_map)
  moreover have "fp_keys - (D \<union> nkey ` set ts) = (fp_keys - D) - nkey ` set ts" by auto
  moreover have "card ((fp_keys - D) - nkey ` set ts) = card (fp_keys - D) - card (nkey ` set ts)"
    using sub finite_fp_keys by (intro card_Diff_subset) auto
  moreover have "card (nkey ` set ts) \<le> card (fp_keys - D)"
    using sub finite_fp_keys by (intro card_mono) auto
  ultimately show ?thesis by simp
qed

context leveldb_laws
begin

lemma attack_step_measure:
  assumes "attack_running r"
  shows "attack_measure view (bindE r (attack_step L cfg)) < attack_measure view r"
proof -
  obtain s where r: "r = Inr s" and ne: "q_o s \<noteq> []" "q_t s \<noteq> []"
    using assms by (auto simp: attack_running_def split: sum.splits)
  show ?thesis
  proof (cases "attack_step L cfg s")
    case (Inl e)
    then show ?thesis using r ne by (simp add: attack_measure_def)
  next
    case (Inr s')
    then obtain s3 os ts where g: "grows view (unat (QUEUE_LIMIT cfg)) (judge_front s) s3 os ts"
      and s': "s' = s3\<lparr>q_o := tl (q_o s3), q_t := tl (q_t s3), involve := involve s3 + 1\<rparr>"
      by (rule attack_step_grows)
    have "card (fp_keys - dom (view (uniq s'))) + length ts = card (fp_keys - dom (view (uniq s)))"
      using g card_fresh_keys[of ts "dom (view (uniq s))"] unfolding s' by (simp add: grows_def)
    moreover have "Suc (length (q_t s')) = length (q_t s) + length ts"
      using g ne unfolding s' by (simp add: grows_def Suc_pred)
    ultimately show ?thesis
      using r Inr by (simp add: attack_measure_def)
  qed
qed

lemma attack_loop_terminates: "\<exists>r'. attack_loop L cfg r = Some r'"
  unfolding attack_loop_def
  using measure_while_option_Some[where P = "\<lambda>_. True" and f = "attack_measure view"]
    attack_step_measure by (metis (no_types, lifting))

end

section \<open>The invariant of the attack\<close>

text \<open>
  Every ciphertext chunk in the queue, and every correctly inferred one, is recorded in \<open>uniq\<close>,
  and none of them occurs twice; \<open>uniq\<close> holds exactly the chunks expanded so far and those still
  queued; \<open>correct\<close> counts the answers.
\<close>

definition attack_inv :: "('db \<Rightarrow> bytes \<rightharpoonup> bytes) \<Rightarrow> ('db, 'x) attack_scheme \<Rightarrow> bool" where
  "attack_inv view s \<longleftrightarrow>
     distinct (map nkey (ansq s) @ map nkey (q_t s)) \<and>
     nkey ` (set (ansq s) \<union> set (q_t s)) \<subseteq> dom (view (uniq s)) \<and>
     dom (view (uniq s)) \<subseteq> fp_keys \<and>
     card (dom (view (uniq s))) = unat (involve s) + length (q_t s) \<and>
     unat (correct s) = length (ansq s)"

lemma unat_plus_one: "unat (w :: u64) < 2 ^ 64 - 1 \<Longrightarrow> unat (w + 1) = Suc (unat w)"
  by (simp add: unat_word_ariths)

lemma attack_inv_bounds:
  assumes "attack_inv view s"
  shows "unat (involve s) + length (q_t s) \<le> 2 ^ 48"
    and "length (ansq s) + length (q_t s) \<le> 2 ^ 48"
proof -
  have le: "card (dom (view (uniq s))) \<le> 2 ^ 48"
    using assms card_mono[OF finite_fp_keys] card_fp_keys by (metis attack_inv_def)
  then show "unat (involve s) + length (q_t s) \<le> 2 ^ 48"
    using assms by (auto simp: attack_inv_def)
  have "card (set (map nkey (ansq s) @ map nkey (q_t s))) = length (ansq s) + length (q_t s)"
    using assms distinct_card[of "map nkey (ansq s) @ map nkey (q_t s)"] by (simp add: attack_inv_def)
  moreover have "card (set (map nkey (ansq s) @ map nkey (q_t s))) \<le> card (dom (view (uniq s)))"
    using assms finite_subset[OF _ finite_fp_keys] by (intro card_mono) (auto simp: attack_inv_def)
  ultimately show "length (ansq s) + length (q_t s) \<le> 2 ^ 48" using le by simp
qed

text \<open>Judging and removing the front pair, with new pairs at the back.\<close>

lemma attack_inv_advance:
  assumes inv: "attack_inv view s" and ne: "q_t s \<noteq> []"
    and g: "grows view cap (judge_front s) s3 os ts"
  shows "attack_inv view (s3\<lparr>q_o := tl (q_o s3), q_t := tl (q_t s3), involve := involve s3 + 1\<rparr>)"
proof -
  obtain t q where q: "q_t s = t # q" using ne by (cases "q_t s") auto
  let ?D = "dom (view (uniq s))" and ?T = "nkey ` set ts"
  have D: "dom (view (uniq s3)) = ?D \<union> ?T" and fresh: "?T \<inter> ?D = {}" and dts: "distinct (map nkey ts)"
    and wf: "\<forall>n \<in> set ts. wf_node n" and qt: "tl (q_t s3) = q @ ts" and inv3: "involve s3 = involve s"
    and ans: "ansq s3 = ansq (judge_front s)" "correct s3 = correct (judge_front s)"
    using g q by (auto simp: grows_def)
  have fin: "finite ?D" using inv finite_subset[OF _ finite_fp_keys] by (auto simp: attack_inv_def)
  have Tc: "card ?T = length ts" using dts by (metis distinct_card image_set length_map)
  note b = attack_inv_bounds[OF inv]
  have i: "unat (involve s + 1) = Suc (unat (involve s))" using b(1) by (intro unat_plus_one) simp
  have c: "unat (correct s + 1) = Suc (unat (correct s))"
    using b(2) inv by (intro unat_plus_one) (simp add: attack_inv_def)
  have sub: "nkey ` (set (ansq s) \<union> set (q_t s)) \<subseteq> ?D" using inv by (simp add: attack_inv_def)
  have a: "nkey ` (set (ansq s3) \<union> set q) \<subseteq> ?D"
    "distinct (map nkey (ansq s3) @ map nkey q)" "unat (correct s3) = length (ansq s3)"
    unfolding ans using inv c sub q by (auto simp: judge_front_def attack_inv_def)
  have "distinct (map nkey (ansq s3) @ map nkey (q @ ts))"
    using a(1,2) dts fresh by auto
  moreover have "card (?D \<union> ?T) = card ?D + length ts"
    using fin fresh Tc by (simp add: card_Un_disjoint Int_commute)
  then have "card (?D \<union> ?T) = unat (involve s + 1) + length (q @ ts)"
    using inv q i by (simp add: attack_inv_def)
  moreover have "nkey ` (set (ansq s3) \<union> set (q @ ts)) \<subseteq> ?D \<union> ?T" using a(1) by auto
  moreover have "?D \<union> ?T \<subseteq> fp_keys" using inv wf by (auto simp: attack_inv_def fp_keys_def wf_node_def)
  ultimately show ?thesis
    using a(3) by (simp add: attack_inv_def D qt inv3)
qed

context leveldb_laws
begin

lemma attack_step_inv:
  assumes "attack_inv view s" "q_t s \<noteq> []" "attack_step L cfg s = Inr s'"
  shows "attack_inv view s'"
  using assms(3)
proof (rule attack_step_grows)
  fix s3 os ts
  assume "grows view (unat (QUEUE_LIMIT cfg)) (judge_front s) s3 os ts"
    and "s' = s3\<lparr>q_o := tl (q_o s3), q_t := tl (q_t s3), involve := involve s3 + 1\<rparr>"
  then show "attack_inv view s'" using attack_inv_advance[OF assms(1,2)] by simp
qed

text \<open>The plaintext queue never grows past the limit, unless it started longer.\<close>

lemma attack_step_queue_bound:
  assumes "attack_step L cfg s = Inr s'" "q_o s \<noteq> []" "length (q_o s) \<le> max n (unat (QUEUE_LIMIT cfg))"
  shows "length (q_o s') \<le> max n (unat (QUEUE_LIMIT cfg))"
proof -
  obtain s3 os ts where g: "grows view (unat (QUEUE_LIMIT cfg)) (judge_front s) s3 os ts"
    and s': "s' = s3\<lparr>q_o := tl (q_o s3), q_t := tl (q_t s3), involve := involve s3 + 1\<rparr>"
    using assms(1) by (rule attack_step_grows)
  then have "length (q_o s') = length (q_o s) - 1 + length os"
    using assms(2) by (simp add: grows_def)
  then show ?thesis
    using g assms(3) by (cases "os = []") (auto simp: grows_def)
qed

text \<open>What holds at the start of the main loop and is kept by every iteration holds at its end.\<close>

lemma attack_loop_rule:
  assumes "attack_loop L cfg (Inr s) = Some (Inr s')" "I s"
    and "\<And>s s'. I s \<Longrightarrow> q_o s \<noteq> [] \<Longrightarrow> q_t s \<noteq> [] \<Longrightarrow> attack_step L cfg s = Inr s' \<Longrightarrow> I s'"
  shows "I s' \<and> (q_o s' = [] \<or> q_t s' = [])"
proof -
  let ?P = "\<lambda>r. case r of Inl e \<Rightarrow> True | Inr s \<Rightarrow> I s"
  have step: "?P (bindE r (attack_step L cfg))" if P: "?P r" and run: "attack_running r" for r
  proof (cases r)
    case (Inr s)
    have "I s" "q_o s \<noteq> []" "q_t s \<noteq> []" using P run Inr by (auto simp: attack_running_def)
    then show ?thesis using assms(3)[of s] Inr by (cases "attack_step L cfg s") auto
  qed (simp add: bindE_def)
  have "?P (Inr s')"
    using while_option_rule[where P = ?P, OF step assms(1)[unfolded attack_loop_def]] assms(2) by simp
  moreover have "\<not> attack_running (Inr s')"
    using while_option_stop[OF assms(1)[unfolded attack_loop_def]] .
  ultimately show ?thesis by (auto simp: attack_running_def)
qed

end

section \<open>From a fresh start\<close>

lemma distinct_mset_subset:
  assumes "mset xs \<subseteq># mset ys" "distinct (map f ys)"
  shows "distinct (map f xs)"
proof -
  have "mset (map f xs) \<subseteq># mset (map f ys)" using image_mset_subseteq_mono[OF assms(1)] by simp
  then have "count (mset (map f xs)) a \<le> 1" for a
    using assms(2) mset_subset_eq_count[of "mset (map f xs)" "mset (map f ys)" a]
    by (auto simp: distinct_count_atmost_1 split: if_splits)
  then have "count (mset (map f xs)) a = (if a \<in> set (map f xs) then 1 else 0)" for a
    by (metis Suc_le_eq One_nat_def count_greater_zero_iff count_mset_0_iff le_antisym set_mset_mset)
  then show ?thesis by (simp add: distinct_count_atmost_1)
qed

text \<open>The state \<open>main\<close> hands to \<open>stat_db\<close>: an empty inference store, empty queues, counters zero.\<close>

definition fresh_attack :: "('db \<Rightarrow> bytes \<rightharpoonup> bytes) \<Rightarrow> ('db, 'x) attack_scheme \<Rightarrow> bool" where
  "fresh_attack view s \<longleftrightarrow> view (uniq s) = Map.empty \<and> pq s = [] \<and> pc s = [] \<and> q_o s = [] \<and>
     q_t s = [] \<and> ansq s = [] \<and> correct s = 0 \<and> involve s = 0 \<and> total s = 0"

lemma fresh_attack_inv: "fresh_attack view s \<Longrightarrow> attack_inv view s"
  by (simp add: fresh_attack_def attack_inv_def)

context leveldb_laws
begin

lemma attack_inv_push:
  assumes "attack_inv view s" "wf_node t" "nkey t \<notin> dom (view (uniq s))"
  shows "attack_inv view ((uniq_put L t s)\<lparr>q_t := q_t s @ [t]\<rparr>)"
proof -
  have "finite (dom (view (uniq s)))" by (rule dom_view_finite)
  then show ?thesis
    using assms by (auto simp: attack_inv_def uniq_put_def view_put fp_keys_def wf_node_def)
qed

lemma push_all_inv:
  assumes "attack_inv view s" "\<forall>t \<in> set ts. wf_node t" "distinct (map nkey ts)"
    "nkey ` set ts \<inter> dom (view (uniq s)) = {}"
  shows "attack_inv view (fold (\<lambda>t s. (uniq_put L t s)\<lparr>q_t := q_t s @ [t]\<rparr>) ts s)"
  using assms
proof (induction ts arbitrary: s)
  case (Cons t ts)
  let ?s1 = "(uniq_put L t s)\<lparr>q_t := q_t s @ [t]\<rparr>"
  have "attack_inv view ?s1" using Cons.prems by (intro attack_inv_push) auto
  moreover have "nkey ` set ts \<inter> dom (view (uniq ?s1)) = {}"
    using Cons.prems(3,4) by (auto simp: uniq_put_def view_put)
  ultimately show ?case using Cons.IH[of ?s1] Cons.prems(2,3) by simp
qed simp

lemma push_all_frame:
  "\<exists>db. fold (\<lambda>t s. (uniq_put L t s)\<lparr>q_t := q_t s @ [t]\<rparr>) ts s = s\<lparr>uniq := db, q_t := q_t s @ ts\<rparr>"
proof (induction ts arbitrary: s)
  case Nil
  have "s = s\<lparr>uniq := uniq s, q_t := q_t s @ []\<rparr>" by simp
  then show ?case by (metis fold_simps(1))
next
  case (Cons t ts)
  then obtain db where "fold (\<lambda>t s. (uniq_put L t s)\<lparr>q_t := q_t s @ [t]\<rparr>) ts
      ((uniq_put L t s)\<lparr>q_t := q_t s @ [t]\<rparr>) =
    ((uniq_put L t s)\<lparr>q_t := q_t s @ [t]\<rparr>)\<lparr>uniq := db, q_t := q_t ((uniq_put L t s)\<lparr>q_t := q_t s @ [t]\<rparr>) @ ts\<rparr>"
    by blast
  then show ?case by (auto simp: uniq_put_def)
qed

end

text \<open>\<open>top_ranked k es ns\<close>: \<open>ns\<close> are the k most frequent entries of a table, most frequent first.\<close>

definition top_ranked :: "nat \<Rightarrow> (bytes \<times> bytes) list \<Rightarrow> node list \<Rightarrow> bool" where
  "top_ranked k es ns \<longleftrightarrow>
     best_k cmp k (mset (map entry_node es)) (mset ns) \<and>
     sorted_wrt (\<lambda>a b. ncount a \<ge> ncount b) ns"

lemma top_ranked_drain:
  assumes "is_heap cmp q" "best_k cmp k (mset (map entry_node es)) (mset q)"
  shows "top_ranked k es (rev (drain cmp q))"
  using sorted_drain[OF weak_order_cmp assms(1)] assms(2)
  by (simp add: top_ranked_def sorted_wrt_rev cmp_def linorder_not_less)

context leveldb_laws
begin

lemma top_ranked_keys:
  assumes "top_ranked k (fst (ldb_iter L db)) ns" "freq_table (view db)"
  shows "distinct (map nkey ns)" "\<forall>n \<in> set ns. wf_node n"
proof -
  let ?es = "fst (ldb_iter L db)"
  have sub: "mset ns \<subseteq># mset (map entry_node ?es)"
    using assms(1) by (simp add: top_ranked_def best_k_def)
  have "map nkey (map entry_node ?es) = map fst ?es" by (simp add: entry_node_def)
  then show "distinct (map nkey ns)" using distinct_mset_subset[OF sub] iter_distinct by metis
  have "set ns \<subseteq> set (map entry_node ?es)" using sub by (metis set_mset_mono set_mset_mset)
  then show "\<forall>n \<in> set ns. wf_node n"
    using assms(2) iter_mem by (fastforce simp: freq_table_def wf_node_def entry_node_def)
qed

lemma seed_loc_ranked:
  assumes "wf_tables view s" "0 < unat (INIT cfg)" "pq s = []"
  shows "\<exists>os ts. top_ranked (unat (INIT cfg)) (fst (ldb_iter L (origin s))) os \<and>
    top_ranked (unat (INIT cfg)) (fst (ldb_iter L (target s))) ts \<and>
    seed_loc L cfg s = Inr (fold (\<lambda>t s. (uniq_put L t s)\<lparr>q_t := q_t s @ [t]\<rparr>) ts
      (s\<lparr>q_o := q_o s @ os\<rparr>))"
proof -
  have ft: "freq_table (view (origin s))" "freq_table (view (target s))"
    using assms(1) by (auto simp: wf_tables_def)
  obtain q where q: "foldE (db_insert_entry (INIT cfg)) (fst (ldb_iter L (origin s))) [] = Inr q"
    "top_ranked (unat (INIT cfg)) (fst (ldb_iter L (origin s))) (rev (drain cmp q))"
    using db_insert_best_k[OF ft(1) assms(2)] top_ranked_drain by blast
  obtain c where c: "foldE (db_insert_entry (INIT cfg)) (fst (ldb_iter L (target s))) [] = Inr c"
    "top_ranked (unat (INIT cfg)) (fst (ldb_iter L (target s))) (rev (drain cmp c))"
    using db_insert_best_k[OF ft(2) assms(2)] top_ranked_drain by blast
  have pq: "s\<lparr>q_o := x, pq := []\<rparr> = s\<lparr>q_o := x\<rparr>" for x using assms(3) by (cases s) simp
  have "seed_loc L cfg s = Inr (fold (\<lambda>t s. (uniq_put L t s)\<lparr>q_t := q_t s @ [t]\<rparr>) (rev (drain cmp c))
      (s\<lparr>q_o := q_o s @ rev (drain cmp q)\<rparr>))"
    using q(1) c(1) assms(3) by (simp add: seed_loc_def db_insert_loc_def Let_def pq)
  then show ?thesis using q(2) c(2) by blast
qed

lemma seed_loc_inv:
  assumes "wf_tables view s" "0 < unat (INIT cfg)" "pq s = []" "attack_inv view s"
    "view (uniq s) = Map.empty"
  shows "\<exists>s'. seed_loc L cfg s = Inr s' \<and> attack_inv view s' \<and> wf_tables view s' \<and> total s' = total s \<and>
    tables s' = tables s"
proof -
  obtain os ts where ts: "top_ranked (unat (INIT cfg)) (fst (ldb_iter L (target s))) ts"
    and seed: "seed_loc L cfg s = Inr (fold (\<lambda>t s. (uniq_put L t s)\<lparr>q_t := q_t s @ [t]\<rparr>) ts
      (s\<lparr>q_o := q_o s @ os\<rparr>))"
    using seed_loc_ranked[OF assms(1-3)] by blast
  have ft: "freq_table (view (target s))" using assms(1) by (simp add: wf_tables_def)
  have "attack_inv view (fold (\<lambda>t s. (uniq_put L t s)\<lparr>q_t := q_t s @ [t]\<rparr>) ts
      (s\<lparr>q_o := q_o s @ os\<rparr>))"
    using top_ranked_keys[OF ts ft] assms(4,5)
    by (intro push_all_inv) (auto simp: attack_inv_def)
  moreover obtain db where "fold (\<lambda>t s. (uniq_put L t s)\<lparr>q_t := q_t s @ [t]\<rparr>) ts (s\<lparr>q_o := q_o s @ os\<rparr>)
      = s\<lparr>q_o := q_o s @ os, uniq := db, q_t := q_t s @ ts\<rparr>"
    using push_all_frame[of ts "s\<lparr>q_o := q_o s @ os\<rparr>"] by auto
  ultimately show ?thesis
    using seed assms(1) by (auto simp: wf_tables_def)
qed

text \<open>One entry of the target table keeps the invariant, adds at most its own key to \<open>uniq\<close>, and
  counts itself.\<close>

lemma stat_db_entry_inv:
  assumes "wf_tables view s" "attack_inv view s" "fst e \<notin> dom (view (uniq s))" "length (fst e) = FP_SIZE"
    "snd e = u64_bytes c" "pq s = []"
  shows "\<exists>s'. stat_db_entry L cfg rnd e s = Inr s' \<and> attack_inv view s' \<and> wf_tables view s' \<and>
    pq s' = [] \<and> ansq s' = ansq s \<and> dom (view (uniq s')) \<subseteq> insert (fst e) (dom (view (uniq s))) \<and>
    total s' = total s + 1 \<and> tables s' = tables s \<and>
    (LEAK_RATE cfg = 0 \<longrightarrow> view (uniq s') = view (uniq s))"
proof -
  obtain st v where g: "ldb_get L (origin s) (fst e) [] = (st, v)" by fastforce
  have rd: "read_bytes (fst e) 0 FP_SIZE = Inr (fst e)" "read_u64 (snd e) 0 = Inr c"
    using assms(4,5) by (simp_all add: read_bytes_inside)
  have v: "\<exists>w. read_u64 v 0 = Inr w" if "st = StOk"
  proof -
    have "view (origin s) (fst e) = Some v"
      using g that get_cases[of "origin s" "fst e" "[]"] by (auto split: option.splits)
    then obtain w where "v = u64_bytes w"
      using assms(1) unfolding wf_tables_def freq_table_def by blast
    then show ?thesis by simp
  qed
  let ?t = "\<lparr>nkey = fst e, ncount = c\<rparr>"
  have inv_upd: "attack_inv view (s1\<lparr>total := x, nrand := y, common := z, q_o := q\<rparr>) = attack_inv view s1"
    "attack_inv view (s1\<lparr>leak := x\<rparr>) = attack_inv view s1" for s1 x y z q
    by (simp_all add: attack_inv_def)
  have push: "attack_inv view ((uniq_put L ?t s1)\<lparr>q_t := q_t s1 @ [?t]\<rparr>)"
    if "attack_inv view s1" "uniq s1 = uniq s" for s1
    using attack_inv_push[of s1 ?t] that assms(3,4) by (simp add: wf_node_def)
  show ?thesis
  proof (cases "LEAK_RATE cfg \<noteq> 0 \<and> real (rnd (nrand s) mod 10000) \<le> LEAK_RATE cfg * 10000 \<and> st = StOk")
    case True
    then obtain w where w: "read_u64 v 0 = Inr w" using v by blast
    define s1 where "s1 = s\<lparr>total := total s + 1, nrand := Suc (nrand s), common := common s + 1,
      q_o := q_o s @ [\<lparr>nkey = fst e, ncount = w\<rparr>]\<rparr>"
    have r: "stat_db_entry L cfg rnd e s = Inr (((uniq_put L ?t s1)\<lparr>q_t := q_t s1 @ [?t]\<rparr>)\<lparr>leak := leak s + 1\<rparr>)"
      using True w rd by (simp add: stat_db_entry_def g s1_def Let_def uniq_put_def)
    have "attack_inv view (((uniq_put L ?t s1)\<lparr>q_t := q_t s1 @ [?t]\<rparr>)\<lparr>leak := leak s + 1\<rparr>)"
      unfolding inv_upd using push[of s1] assms(2) by (simp add: s1_def attack_inv_def)
    then show ?thesis
      using True r assms(1,6) by (auto simp: s1_def uniq_put_def view_put wf_tables_def)
  next
    case False
    have n: "attack_inv view (s\<lparr>total := total s + 1\<rparr>)"
      "attack_inv view (s\<lparr>total := total s + 1, nrand := Suc (nrand s)\<rparr>)"
      "attack_inv view (s\<lparr>total := total s + 1, nrand := Suc (nrand s), common := common s + 1\<rparr>)"
      using assms(2) by (simp_all add: attack_inv_def)
    have "stat_db_entry L cfg rnd e s \<in> {Inr (s\<lparr>total := total s + 1\<rparr>),
        Inr (s\<lparr>total := total s + 1, nrand := Suc (nrand s)\<rparr>),
        Inr (s\<lparr>total := total s + 1, nrand := Suc (nrand s), common := common s + 1\<rparr>)}"
      using False by (auto simp: stat_db_entry_def g Let_def)
    then show ?thesis
      using n assms(1,6) by (auto simp: wf_tables_def)
  qed
qed

lemma stat_fold_inv:
  assumes "wf_tables view s" "attack_inv view s" "pq s = []" "distinct (map fst es)"
    "fst ` set es \<inter> dom (view (uniq s)) = {}" "\<forall>(k, v) \<in> set es. length k = FP_SIZE \<and> (\<exists>c. v = u64_bytes c)"
  shows "\<exists>s'. foldE (stat_db_entry L cfg rnd) es s = Inr s' \<and> attack_inv view s' \<and> wf_tables view s' \<and>
    pq s' = [] \<and> ansq s' = ansq s \<and> total s' = total s + word_of_nat (length es) \<and> tables s' = tables s \<and>
    (LEAK_RATE cfg = 0 \<longrightarrow> view (uniq s') = view (uniq s))"
  using assms
proof (induction es arbitrary: s)
  case (Cons e es)
  obtain c where c: "length (fst e) = FP_SIZE" "snd e = u64_bytes c"
    using Cons.prems(6) by (cases e) auto
  have fresh: "fst e \<notin> dom (view (uniq s))" using Cons.prems(5) by auto
  obtain s1 where s1: "stat_db_entry L cfg rnd e s = Inr s1" "attack_inv view s1" "wf_tables view s1"
    "pq s1 = []" "dom (view (uniq s1)) \<subseteq> insert (fst e) (dom (view (uniq s)))"
    "total s1 = total s + 1" "tables s1 = tables s" "ansq s1 = ansq s"
    "LEAK_RATE cfg = 0 \<longrightarrow> view (uniq s1) = view (uniq s)"
    using stat_db_entry_inv[OF Cons.prems(1,2) fresh c Cons.prems(3)] by blast
  have disj: "fst ` set es \<inter> dom (view (uniq s1)) = {}"
  proof -
    have "fst ` set es \<inter> dom (view (uniq s1)) \<subseteq> fst ` set es \<inter> insert (fst e) (dom (view (uniq s)))"
      using s1(5) by (intro Int_mono) auto
    also have "\<dots> = {}" using Cons.prems(4,5) by simp
    finally show ?thesis by simp
  qed
  have es: "distinct (map fst es)" "\<forall>(k, v) \<in> set es. length k = FP_SIZE \<and> (\<exists>c. v = u64_bytes c)"
    using Cons.prems(4,6) by simp_all
  obtain s2 where "foldE (stat_db_entry L cfg rnd) es s1 = Inr s2" "attack_inv view s2" "wf_tables view s2"
    "pq s2 = []" "ansq s2 = ansq s1" "total s2 = total s1 + word_of_nat (length es)" "tables s2 = tables s1"
    "LEAK_RATE cfg = 0 \<longrightarrow> view (uniq s2) = view (uniq s1)"
    using Cons.IH[OF s1(3,2,4) es(1) disj es(2)] by (elim exE conjE) (rule that)
  then show ?case using s1 by (simp add: add.assoc)
qed simp

lemma stat_db_loc_inv:
  assumes "wf_tables view s" "fresh_attack view s"
  shows "\<exists>s'. stat_db_loc L cfg rnd s = Inr s' \<and> attack_inv view s' \<and> wf_tables view s' \<and> pq s' = [] \<and> ansq s' = [] \<and>
    unat (total s') = card (dom (view (target s))) \<and> tables s' = tables s \<and>
    (LEAK_RATE cfg = 0 \<longrightarrow> view (uniq s') = Map.empty)"
proof -
  let ?es = "fst (ldb_iter L (target s))"
  have wf: "\<forall>(k, v) \<in> set ?es. length k = FP_SIZE \<and> (\<exists>c. v = u64_bytes c)"
    using assms(1) iter_mem unfolding wf_tables_def freq_table_def by blast
  have len: "length ?es = card (dom (view (target s)))"
    using iter_keys[of "target s"] distinct_card[OF iter_distinct[of "target s"]] by simp
  have "dom (view (target s)) \<subseteq> fp_keys"
    using assms(1) by (auto simp: wf_tables_def freq_table_def fp_keys_def)
  then have "length ?es \<le> 2 ^ 48"
    unfolding len card_fp_keys[symmetric] by (rule card_mono[OF finite_fp_keys])
  then have tot: "unat (word_of_nat (length ?es) :: u64) = length ?es"
    by (simp add: unsigned_of_nat take_bit_nat_eq_self)
  have "\<exists>s'. foldE (stat_db_entry L cfg rnd) ?es s = Inr s' \<and> attack_inv view s' \<and> wf_tables view s' \<and>
    pq s' = [] \<and> ansq s' = ansq s \<and> total s' = total s + word_of_nat (length ?es) \<and> tables s' = tables s \<and>
    (LEAK_RATE cfg = 0 \<longrightarrow> view (uniq s') = view (uniq s))"
    using assms(2) wf iter_distinct
    by (intro stat_fold_inv[OF assms(1) fresh_attack_inv[OF assms(2)]]) (auto simp: fresh_attack_def)
  then show ?thesis
    using assms(2) tot len unfolding stat_db_loc_def fresh_attack_def by auto
qed

lemma insert_loc_succeeds:
  assumes "wf_tables view s" "0 < unat k"
  shows "\<exists>s'. left_insert_loc L type fp k s = Inr s'" "\<exists>s'. right_insert_loc L type fp k s = Inr s'"
  using assms insert_from_succeeds
  by (auto simp: left_insert_loc_def right_insert_loc_def wf_tables_def)

lemma expand_succeeds:
  assumes ins: "\<And>L type fp k s. \<exists>db. ins L type fp k s = insert_from L db type fp k s"
    and ok: "\<And>type fp s. wf_tables view s \<Longrightarrow> \<exists>s'. ins L type fp (TH_K cfg) s = Inr s'"
    and wf: "wf_tables view s"
  shows "\<exists>s'. expand_loc ins L cfg s = Inr s' \<and> wf_tables view s'"
proof -
  let ?s0 = "s\<lparr>pq := [], pc := []\<rparr>"
  have wf0: "wf_tables view ?s0" "wf_nodes (pq ?s0)" "wf_nodes (pc ?s0)"
    using wf by (auto simp: wf_tables_def wf_nodes_def)
  obtain s1 where s1: "ins L 0 (nkey (hd (q_o ?s0))) (TH_K cfg) ?s0 = Inr s1"
    using ok[OF wf0(1)] by blast
  then obtain q c where "s1 = ?s0\<lparr>pq := q, pc := c\<rparr>"
    using insert_from_queues[OF _ wf0(2,3)] ins by metis
  then have "wf_tables view s1" using wf0(1) by (simp add: wf_tables_def)
  then obtain s2 where s2: "ins L 1 (nkey (hd (q_t s1))) (TH_K cfg) s1 = Inr s2" using ok by blast
  then have "\<exists>s'. expand_loc ins L cfg s = Inr s'"
    using s1 by (cases "pair_pop (pq s2) (pc s2) [] []") (simp add: expand_loc_def)
  then obtain s' where s': "expand_loc ins L cfg s = Inr s'" by blast
  then have "tables s' = tables s" using expand_grows[OF ins s'] by (auto simp: grows_def)
  then show ?thesis using s' wf by (auto simp: wf_tables_def)
qed

lemma attack_step_tables:
  assumes "attack_step L cfg s = Inr s'"
  shows "tables s' = tables s" "total s' = total s"
proof -
  have "tables s' = tables s \<and> total s' = total s"
    using assms by (rule attack_step_grows) (simp add: grows_def judge_front_def split: if_splits)
  then show "tables s' = tables s" "total s' = total s" by auto
qed

lemma attack_step_succeeds:
  assumes "wf_tables view s" "0 < unat (TH_K cfg)"
  shows "\<exists>s'. attack_step L cfg s = Inr s'"
proof -
  have l: "\<exists>db. left_insert_loc L type fp k s = insert_from L db type fp k s"
    and r: "\<exists>db. right_insert_loc L type fp k s = insert_from L db type fp k s" for L type fp k s
    by (auto simp: left_insert_loc_def right_insert_loc_def)
  have "wf_tables view (judge_front s)"
    using assms(1) by (simp add: wf_tables_def judge_front_def)
  then obtain s2 where s2: "expand_loc left_insert_loc L cfg (judge_front s) = Inr s2" "wf_tables view s2"
    using expand_succeeds[OF l, of cfg] insert_loc_succeeds(1)[OF _ assms(2)] by blast
  then obtain s3 where "expand_loc right_insert_loc L cfg s2 = Inr s3"
    using expand_succeeds[OF r, of cfg] insert_loc_succeeds(2)[OF _ assms(2)] by blast
  with s2(1) show ?thesis by (simp add: attack_step_def)
qed

text \<open>The whole loop, on well-formed tables: it ends without an error, with the invariant, with one
  of the queues empty, and with the plaintext queue within its bound.\<close>

lemma attack_loop_total:
  assumes "wf_tables view s" "0 < unat (TH_K cfg)" "attack_inv view s"
    "length (q_o s) \<le> max n (unat (QUEUE_LIMIT cfg))"
  shows "\<exists>s'. attack_loop L cfg (Inr s) = Some (Inr s') \<and> attack_inv view s' \<and> tables s' = tables s \<and>
    total s' = total s \<and> (q_o s' = [] \<or> q_t s' = []) \<and> length (q_o s') \<le> max n (unat (QUEUE_LIMIT cfg))"
proof -
  let ?I = "\<lambda>s1. attack_inv view s1 \<and> tables s1 = tables s \<and> total s1 = total s \<and>
    length (q_o s1) \<le> max n (unat (QUEUE_LIMIT cfg))"
  let ?P = "\<lambda>r. \<exists>s1. r = Inr s1 \<and> tables s1 = tables s"
  have wf: "wf_tables view s1" if "tables s1 = tables s" for s1
    using that assms(1) by (auto simp: wf_tables_def)
  obtain r where r: "attack_loop L cfg (Inr s) = Some r" using attack_loop_terminates by blast
  have step: "?P (bindE r1 (attack_step L cfg))" if P: "?P r1" for r1
  proof -
    obtain s1 where s1: "r1 = Inr s1" "tables s1 = tables s" using P by blast
    obtain s2 where s2: "attack_step L cfg s1 = Inr s2"
      using attack_step_succeeds[OF wf[OF s1(2)] assms(2)] by blast
    then show ?thesis using attack_step_tables(1)[OF s2] s1 by simp
  qed
  have "?P r"
    using while_option_rule[where P = ?P, OF step r[unfolded attack_loop_def]] by blast
  then obtain s' where s': "r = Inr s'" by blast
  have "?I s' \<and> (q_o s' = [] \<or> q_t s' = [])"
  proof (rule attack_loop_rule)
    show "attack_loop L cfg (Inr s) = Some (Inr s')" using r s' by simp
    show "?I s" using assms(3,4) by simp
    show "?I s2" if "?I s1" "q_o s1 \<noteq> []" "q_t s1 \<noteq> []" "attack_step L cfg s1 = Inr s2" for s1 s2
      using attack_step_inv[OF _ that(3,4)] attack_step_tables[OF that(4)]
        attack_step_queue_bound[OF that(4,2)] that(1) by simp
  qed
  then show ?thesis using r s' by simp
qed

lemma seed_loc_bound:
  assumes "wf_tables view s" "0 < unat (INIT cfg)" "pq s = []" "q_o s = []" "seed_loc L cfg s = Inr s'"
  shows "length (q_o s') \<le> unat (INIT cfg)"
proof -
  obtain os ts where os: "top_ranked (unat (INIT cfg)) (fst (ldb_iter L (origin s))) os"
    and seed: "seed_loc L cfg s = Inr (fold (\<lambda>t s. (uniq_put L t s)\<lparr>q_t := q_t s @ [t]\<rparr>) ts (s\<lparr>q_o := q_o s @ os\<rparr>))"
    using seed_loc_ranked[OF assms(1-3)] by blast
  obtain db where "s' = s\<lparr>q_o := os, uniq := db, q_t := q_t s @ ts\<rparr>"
    using push_all_frame[of ts "s\<lparr>q_o := q_o s @ os\<rparr>"] seed assms(4,5) by auto
  moreover have "length os = size (mset os)" by simp
  ultimately show ?thesis using os by (simp add: top_ranked_def best_k_def)
qed

lemma attack_run_total:
  assumes "wf_tables view s" "fresh_attack view s" "0 < unat (INIT cfg)" "0 < unat (TH_K cfg)"
  shows "\<exists>s'. attack_run_loc L cfg rnd s = Some (Inr s') \<and> attack_inv view s' \<and>
    (q_o s' = [] \<or> q_t s' = []) \<and> tables s' = tables s \<and> unat (total s') = card (dom (view (target s)))"
proof -
  obtain s1 where s1: "stat_db_loc L cfg rnd s = Inr s1" "attack_inv view s1" "wf_tables view s1"
    "pq s1 = []" "ansq s1 = []" "unat (total s1) = card (dom (view (target s)))" "tables s1 = tables s"
    "LEAK_RATE cfg = 0 \<longrightarrow> view (uniq s1) = Map.empty"
    using stat_db_loc_inv[OF assms(1,2)] by blast
  have a: "s1\<lparr>ansq := []\<rparr> = s1" using s1(5) by (cases s1) simp
  obtain s2 where s2: "(if LEAK_RATE cfg = 0 then seed_loc L cfg s1 else Inr s1) = Inr s2"
    "attack_inv view s2" "wf_tables view s2" "total s2 = total s1" "tables s2 = tables s1"
  proof (cases "LEAK_RATE cfg = 0")
    case True
    obtain s2 where "seed_loc L cfg s1 = Inr s2" "attack_inv view s2" "wf_tables view s2"
      "total s2 = total s1" "tables s2 = tables s1"
      using seed_loc_inv[OF s1(3) assms(3) s1(4,2)] s1(8) True by blast
    then show ?thesis using that True by simp
  next
    case False
    then show ?thesis using that[of s1] s1 by simp
  qed
  obtain s3 where "attack_loop L cfg (Inr s2) = Some (Inr s3)" "attack_inv view s3" "tables s3 = tables s2"
    "total s3 = total s2" "q_o s3 = [] \<or> q_t s3 = []"
    using attack_loop_total[OF s2(3) assms(4) s2(2), of "length (q_o s2)"] by auto
  then show ?thesis
    using s1 s2 by (simp add: attack_run_loc_def main_loop_loc_def a)
qed

lemma insert_from_top_k:
  assumes "view db fp = Some (concat (map rec_bytes ns))" "wf_nodes ns" "0 < unat k"
    "(if type = 0 then pq s else pc s) = []"
  shows "\<exists>q. insert_from L db type fp k s = Inr (if type = 0 then s\<lparr>pq := q\<rparr> else s\<lparr>pc := q\<rparr>) \<and>
    is_heap cmp q \<and> best_k cmp (unat k) (mset ns) (mset q)"
  using offers_best_k[OF assms(3) is_heap_Nil, of "{#}" ns] assms(4)
  unfolding insert_from_records[OF assms(1,2)] by (auto simp: best_k_empty)

end

section \<open>Properties of the attack\<close>

text \<open>A small pair of backups for the concrete runs: two chunks, the second following the first.\<close>

definition demo_freq :: mem_db where
  "demo_freq = [(''chunk1'', u64_bytes 3), (''chunk2'', u64_bytes 2)]"

definition demo_right :: mem_db where
  "demo_right = [(''chunk1'', concat (map rec_bytes [\<lparr>nkey = ''chunk2'', ncount = 2\<rparr>]))]"

definition demo_attack :: "mem_db attack" where
  "demo_attack = (attack_start [])\<lparr>origin := demo_freq, target := demo_freq,
     right_o := demo_right, right_t := demo_right\<rparr>"

definition demo_config :: config where
  "demo_config = \<lparr>INIT = 1, TH_K = 2, QUEUE_LIMIT = 10, LEAK_RATE = 0\<rparr>"

lemma freq_table_demo: "freq_table (map_of demo_freq)"
  by (auto simp: freq_table_def demo_freq_def split: if_splits)

lemma assoc_table_demo: "assoc_table (map_of demo_right)"
  unfolding assoc_table_def demo_right_def
  by (auto simp: wf_nodes_def wf_node_def split: if_splits
      intro!: exI[of _ "[\<lparr>nkey = ''chunk2'', ncount = 2\<rparr>]"])

lemma demo_attack_wf: "wf_tables map_of demo_attack" "fresh_attack map_of demo_attack"
  using freq_table_demo assoc_table_demo
  by (auto simp: wf_tables_def fresh_attack_def demo_attack_def attack_start_def assoc_table_def)

text \<open>C8. The attack always ends, without an error, on tables of the format the counting program
  writes: every record walk stays inside its value and no empty queue is read. At the end one of
  the queues of inferred pairs is empty, no chunk was answered twice, every ciphertext chunk recorded
  as inferred was expanded or is still queued, the counter of correct inferences is the number of
  answers, and the total is the number of distinct ciphertext chunks.\<close>

theorem attack_run_correct:
  assumes "leveldb_laws L view" "wf_tables view s" "fresh_attack view s"
    "0 < unat (INIT cfg)" "0 < unat (TH_K cfg)"
  shows "\<exists>s'. attack_run_loc L cfg rnd s = Some (Inr s') \<and> (q_o s' = [] \<or> q_t s' = []) \<and>
    distinct (map nkey (ansq s')) \<and> nkey ` set (ansq s') \<subseteq> dom (view (uniq s')) \<and>
    card (dom (view (uniq s'))) = unat (involve s') + length (q_t s') \<and>
    unat (correct s') = length (ansq s') \<and> unat (total s') = card (dom (view (target s)))"
  using leveldb_laws.attack_run_total[OF assms, of rnd] by (auto simp: attack_inv_def image_Un)

theorem attack_run_correct_witness:
  "\<exists>s'. attack_run_loc (mem_leveldb (\<lambda>_. [])) demo_config (\<lambda>_. 0) demo_attack = Some (Inr s') \<and>
    (q_o s' = [] \<or> q_t s' = []) \<and> distinct (map nkey (ansq s')) \<and>
    nkey ` set (ansq s') \<subseteq> dom (map_of (uniq s')) \<and>
    card (dom (map_of (uniq s'))) = unat (involve s') + length (q_t s') \<and>
    unat (correct s') = length (ansq s') \<and> unat (total s') = card (dom (map_of (target demo_attack)))"
  by (rule attack_run_correct[OF mem.leveldb_laws_axioms demo_attack_wf])
    (simp_all add: demo_config_def)

text \<open>C9. Whatever the tables hold, well formed or not, and from any state, the main loop ends:
  with a result or with the first error.\<close>

theorem main_loop_terminates:
  assumes "leveldb_laws L view"
  shows "\<exists>r. main_loop_loc L cfg s = Some r"
  unfolding main_loop_loc_def Let_def by (rule leveldb_laws.attack_loop_terminates[OF assms])

theorem main_loop_terminates_witness:
  "\<exists>r. main_loop_loc (mem_leveldb (\<lambda>_. [])) demo_config
     (demo_attack\<lparr>right_t := [(''chunk1'', ''broken'')]\<rparr>) = Some r"
  by (rule main_loop_terminates[OF mem.leveldb_laws_axioms])

text \<open>C10. One iteration of the main loop keeps the invariant: no ciphertext chunk is queued or
  answered twice, the inferred set is what was expanded plus what is queued, and the plaintext queue
  stays within the limit w, or shrinks if it started above it.\<close>

theorem attack_step_keeps_inv:
  assumes "leveldb_laws L view" "attack_inv view s" "q_o s \<noteq> []" "q_t s \<noteq> []"
    "attack_step L cfg s = Inr s'"
  shows "attack_inv view s' \<and>
    (length (q_o s) \<le> unat (QUEUE_LIMIT cfg) \<longrightarrow> length (q_o s') \<le> unat (QUEUE_LIMIT cfg)) \<and>
    (unat (QUEUE_LIMIT cfg) < length (q_o s) \<longrightarrow> length (q_o s') \<le> length (q_o s))"
  using leveldb_laws.attack_step_inv[OF assms(1,2,4,5)]
    leveldb_laws.attack_step_queue_bound[OF assms(1,5,3), of 0]
    leveldb_laws.attack_step_queue_bound[OF assms(1,5,3), of "length (q_o s)"]
  by (auto simp: max_def split: if_splits)

definition demo_mid :: "mem_db attack" where
  "demo_mid = demo_attack\<lparr>q_o := [\<lparr>nkey = ''chunk1'', ncount = 3\<rparr>],
     q_t := [\<lparr>nkey = ''chunk1'', ncount = 3\<rparr>], uniq := [(''chunk1'', lu_slice 3)]\<rparr>"

lemma demo_mid_wf: "wf_tables map_of demo_mid" "attack_inv map_of demo_mid"
proof -
  show "wf_tables map_of demo_mid"
    using demo_attack_wf(1) by (simp add: demo_mid_def wf_tables_def)
  have "dom (map_of (uniq demo_mid)) = {''chunk1''}" by (simp add: demo_mid_def)
  then show "attack_inv map_of demo_mid"
    by (simp add: attack_inv_def demo_mid_def demo_attack_def attack_start_def fp_keys_def)
qed

theorem attack_step_keeps_inv_witness:
  "\<exists>s'. attack_step (mem_leveldb (\<lambda>_. [])) demo_config demo_mid = Inr s' \<and> attack_inv map_of s' \<and>
    length (q_o s') \<le> 10"
proof -
  have "0 < unat (TH_K demo_config)" by (simp add: demo_config_def)
  from mem.attack_step_succeeds[OF demo_mid_wf(1) this] obtain s' where
    s': "attack_step (mem_leveldb (\<lambda>_. [])) demo_config demo_mid = Inr s'" by blast
  have "q_o demo_mid \<noteq> []" "q_t demo_mid \<noteq> []" "length (q_o demo_mid) \<le> unat (QUEUE_LIMIT demo_config)"
    by (simp_all add: demo_mid_def demo_config_def)
  with attack_step_keeps_inv[OF mem.leveldb_laws_axioms demo_mid_wf(2) this(1,2) s'] s'
  show ?thesis by (simp add: demo_config_def)
qed

text \<open>C11. Without leakage the attack starts from the u most frequent chunks of the auxiliary
  backup and of the target backup, both in descending order of frequency.\<close>

theorem seed_loc_top_ranked:
  assumes "leveldb_laws L view" "wf_tables view s" "0 < unat (INIT cfg)" "pq s = []" "q_o s = []" "q_t s = []"
  shows "\<exists>s'. seed_loc L cfg s = Inr s' \<and>
    top_ranked (unat (INIT cfg)) (fst (ldb_iter L (origin s))) (q_o s') \<and>
    top_ranked (unat (INIT cfg)) (fst (ldb_iter L (target s))) (q_t s')"
proof -
  from leveldb_laws.seed_loc_ranked[OF assms(1-4)] obtain os ts where
    r: "top_ranked (unat (INIT cfg)) (fst (ldb_iter L (origin s))) os"
    "top_ranked (unat (INIT cfg)) (fst (ldb_iter L (target s))) ts" and
    seed: "seed_loc L cfg s = Inr (fold (\<lambda>t s. (uniq_put L t s)\<lparr>q_t := q_t s @ [t]\<rparr>) ts (s\<lparr>q_o := q_o s @ os\<rparr>))"
    by blast
  show ?thesis
    using leveldb_laws.push_all_frame[OF assms(1), of ts "s\<lparr>q_o := q_o s @ os\<rparr>"] r seed assms(5,6) by auto
qed

theorem seed_loc_top_ranked_witness:
  "\<exists>s'. seed_loc (mem_leveldb (\<lambda>_. [])) demo_config demo_attack = Inr s' \<and>
    top_ranked (unat (INIT demo_config)) (fst (ldb_iter (mem_leveldb (\<lambda>_. [])) (origin demo_attack))) (q_o s') \<and>
    top_ranked (unat (INIT demo_config)) (fst (ldb_iter (mem_leveldb (\<lambda>_. [])) (target demo_attack))) (q_t s')"
  by (rule seed_loc_top_ranked[OF mem.leveldb_laws_axioms demo_attack_wf(1)])
    (simp_all add: demo_config_def demo_attack_def attack_start_def)

text \<open>C12. \<open>left_insert\<close> and \<open>right_insert\<close> fill the empty queue of either side with the v most
  frequent of the chunk's neighbours, as the neighbour table of that side records them.\<close>

theorem neighbour_insert_top_k:
  assumes "leveldb_laws L view" "wf_nodes ns" "0 < unat k" "(if type = 0 then pq s else pc s) = []"
    "view db fp = Some (concat (map rec_bytes ns))"
  shows "(db = (if type = 0 then left_o s else left_t s) \<longrightarrow>
      (\<exists>q. left_insert_loc L type fp k s = Inr (if type = 0 then s\<lparr>pq := q\<rparr> else s\<lparr>pc := q\<rparr>) \<and>
        is_heap cmp q \<and> best_k cmp (unat k) (mset ns) (mset q))) \<and>
    (db = (if type = 0 then right_o s else right_t s) \<longrightarrow>
      (\<exists>q. right_insert_loc L type fp k s = Inr (if type = 0 then s\<lparr>pq := q\<rparr> else s\<lparr>pc := q\<rparr>) \<and>
        is_heap cmp q \<and> best_k cmp (unat k) (mset ns) (mset q)))"
  using leveldb_laws.insert_from_top_k[OF assms(1,5,2,3,4)]
  unfolding left_insert_loc_def right_insert_loc_def by (cases "type = 0") auto

theorem neighbour_insert_top_k_witness:
  "\<exists>q. right_insert_loc (mem_leveldb (\<lambda>_. [])) 0 ''chunk1'' 2 demo_attack = Inr (demo_attack\<lparr>pq := q\<rparr>) \<and>
    is_heap cmp q \<and> best_k cmp 2 (mset [\<lparr>nkey = ''chunk2'', ncount = 2\<rparr>]) (mset q)"
  using neighbour_insert_top_k[OF mem.leveldb_laws_axioms, where s = demo_attack and type = 0 and k = 2
      and ns = "[\<lparr>nkey = ''chunk2'', ncount = 2\<rparr>]" and db = demo_right and fp = "''chunk1''"]
  by (simp add: wf_nodes_def wf_node_def demo_attack_def attack_start_def demo_right_def)

text \<open>The two neighbour queues of an expansion are paired by rank when they are equally long:
  both stacks hold a whole queue in descending order of frequency, and both queues end empty.\<close>

lemma pair_pop_aligned:
  assumes "is_heap cmp q" "is_heap cmp c" "length q = length c" "pair_pop q c [] [] = (q', c', omp, tmp)"
  shows "mset omp = mset q \<and> mset tmp = mset c \<and>
    sorted_wrt (\<lambda>a b. ncount a \<ge> ncount b) omp \<and> sorted_wrt (\<lambda>a b. ncount a \<ge> ncount b) tmp"
  using pair_pop_ranks[OF assms(4)] sorted_drain[OF weak_order_cmp assms(1)]
    sorted_drain[OF weak_order_cmp assms(2)] assms(3)
  by (simp add: sorted_wrt_rev cmp_def linorder_not_less)

lemma pair_pop_aligned_witness:
  "\<exists>q' c' omp tmp. pair_pop [\<lparr>nkey = ''a'', ncount = 1\<rparr>, \<lparr>nkey = ''b'', ncount = 2\<rparr>]
      [\<lparr>nkey = ''x'', ncount = 3\<rparr>, \<lparr>nkey = ''y'', ncount = 4\<rparr>] [] [] = (q', c', omp, tmp) \<and>
    mset tmp = mset [\<lparr>nkey = ''x'', ncount = 3\<rparr>, \<lparr>nkey = ''y'', ncount = 4\<rparr>] \<and>
    sorted_wrt (\<lambda>a b. ncount a \<ge> ncount b) omp \<and> sorted_wrt (\<lambda>a b. ncount a \<ge> ncount b) tmp"
proof -
  let ?q = "[\<lparr>nkey = ''a'', ncount = 1\<rparr>, \<lparr>nkey = ''b'', ncount = 2\<rparr>]"
  let ?c = "[\<lparr>nkey = ''x'', ncount = 3\<rparr>, \<lparr>nkey = ''y'', ncount = 4\<rparr>]"
  obtain q' c' omp tmp where p: "pair_pop ?q ?c [] [] = (q', c', omp, tmp)"
    by (cases "pair_pop ?q ?c [] []") auto
  have "is_heap cmp ?q" "is_heap cmp ?c" by (auto simp: is_heap_def cmp_def less_Suc_eq)
  from pair_pop_aligned[OF this _ p] p show ?thesis by auto
qed

text \<open>When one queue is longer, the ranks shift: the most frequent neighbour on one side is paired
  with the least frequent one on the other.\<close>

lemma pair_pop_misaligned:
  "\<exists>q' c'. pair_pop [\<lparr>nkey = ''a'', ncount = 5\<rparr>] [\<lparr>nkey = ''x'', ncount = 1\<rparr>, \<lparr>nkey = ''y'', ncount = 9\<rparr>] [] []
     = (q', c', [\<lparr>nkey = ''a'', ncount = 5\<rparr>], [\<lparr>nkey = ''x'', ncount = 1\<rparr>])"
  by (simp add: pair_pop.simps pq_top_def pq_pop_def)

end
