(* ===== verification/Entropy.thy ===== *)
theory Entropy
  imports Prelude Complex_Main
begin

text \<open>
  The Shannon entropy of a table of counts, which \<open>entropy_attack.cc\<close> and \<open>pair.cc\<close> compute with the
  same loop, and its bounds. Doubles are idealised as reals, \<open>log\<close> is the natural logarithm.
\<close>

definition entropy_term :: "real \<Rightarrow> real" where
  "entropy_term po = - po * (ln po / ln 2)"

text \<open>The sum of the counts is a \<open>uint64_t\<close>; zero counts are left out. With the flag the result is the
  smallest term.\<close>

definition counts_entropy :: "bool \<Rightarrow> u64 list \<Rightarrow> real" where
  "counts_entropy flg ws =
     (let sum = sum_list ws in
      if sum = 0 then 0
      else let (ansEntropy, minEntropy) =
             fold (\<lambda>w (ans, mn).
                     let po = real (unat w) / real (unat sum) in
                     if po \<noteq> 0 then (ans + entropy_term po, if entropy_term po < mn then entropy_term po else mn)
                     else (ans, mn)) ws (0, 9999999)
           in if flg then minEntropy else ansEntropy)"

lemma entropy_fold:
  "fst (fold (\<lambda>w (ans, mn).
       let po = f w in
       if po \<noteq> 0 then (ans + entropy_term po, if entropy_term po < mn then entropy_term po else mn)
       else (ans, mn)) ws acc) = fst acc + (\<Sum>w \<leftarrow> ws. entropy_term (f w))"
proof (induction ws arbitrary: acc)
  case (Cons w ws)
  then show ?case by (cases acc) (simp add: Let_def entropy_term_def)
qed simp

lemma counts_entropy_sum:
  "counts_entropy False ws = (let S = sum_list ws in
     if S = 0 then 0 else (\<Sum>w \<leftarrow> ws. entropy_term (real (unat w) / real (unat S))))"
  using entropy_fold[of "\<lambda>w. real (unat w) / real (unat (sum_list ws))" ws "(0, 9999999)"]
  by (simp add: counts_entropy_def Let_def case_prod_beta)

lemma unat_sum_list:
  "(\<Sum>w \<leftarrow> ws. unat (w :: u64)) < 2 ^ 64 \<Longrightarrow> unat (sum_list ws) = (\<Sum>w \<leftarrow> ws. unat w)"
  by (induction ws) (auto simp: unat_word_ariths)

lemma sum_list_divide: "(\<Sum>n \<leftarrow> xs. f n / (c :: real)) = (\<Sum>n \<leftarrow> xs. f n) / c"
  by (induction xs) (auto simp: add_divide_distrib)

lemma nat_fraction: "a \<le> b \<Longrightarrow> 0 < b \<Longrightarrow> 0 \<le> real a / real b \<and> real a / real b \<le> 1"
  by simp

lemma entropy_term_bounds:
  assumes "0 \<le> p" "p \<le> 1" "0 < n"
  shows "0 \<le> entropy_term p" "entropy_term p \<le> p * log 2 n + (1 / n - p) / ln 2"
proof -
  have l2: "0 < ln (2 :: real)" by simp
  show "0 \<le> entropy_term p"
  proof (cases "p = 0")
    case False
    then have "ln p \<le> 0" using assms by simp
    then have "p * (ln p / ln 2) \<le> 0" using assms(1) l2 by (simp add: divide_nonpos_pos mult_nonneg_nonpos)
    then show ?thesis by (simp add: entropy_term_def)
  qed (simp add: entropy_term_def)
  show "entropy_term p \<le> p * log 2 n + (1 / n - p) / ln 2"
  proof (cases "p = 0")
    case True
    then show ?thesis using assms l2 by (simp add: entropy_term_def)
  next
    case False
    then have p: "0 < p" using assms by simp
    have "ln (1 / (p * n)) \<le> 1 / (p * n) - 1" using p assms by (intro ln_le_minus_one) simp
    then have "p * ln (1 / (p * n)) \<le> p * (1 / (p * n) - 1)" using p by (intro mult_left_mono) auto
    also have "\<dots> = 1 / n - p" using p assms by (simp add: field_simps)
    finally have "- (p * ln p) \<le> p * ln n + (1 / n - p)"
      using p assms by (simp add: ln_div ln_mult algebra_simps)
    then have "- (p * ln p) / ln 2 \<le> (p * ln n + (1 / n - p)) / ln 2"
      using l2 by (intro divide_right_mono) auto
    then show ?thesis by (simp add: entropy_term_def log_def add_divide_distrib)
  qed
qed

theorem counts_entropy_bounds:
  assumes "ws \<noteq> []" "(\<Sum>w \<leftarrow> ws. unat w) < 2 ^ 64"
  shows "0 \<le> counts_entropy False ws \<and> counts_entropy False ws \<le> log 2 (real (length ws))"
proof (cases "sum_list ws = 0")
  case True
  have "1 \<le> real (length ws)" using assms(1) by (cases ws) auto
  then have "0 \<le> log 2 (real (length ws))" by (simp only: zero_le_log_cancel_iff)
  then show ?thesis using True by (simp add: counts_entropy_sum)
next
  case False
  let ?S = "sum_list ws" and ?n = "real (length ws)"
  define p where "p n = real (unat n) / real (unat ?S)" for n :: u64
  have S: "unat ?S = (\<Sum>n \<leftarrow> ws. unat n)"
    using unat_sum_list[of ws] assms(2) by simp
  have pos: "0 < unat ?S" using False by (simp add: unat_gt_0)
  have n: "0 < ?n" using assms(1) by simp
  have p01: "0 \<le> p n \<and> p n \<le> 1" if "n \<in> set ws" for n
  proof -
    have "unat n \<le> unat ?S"
      unfolding S using that by (intro member_le_sum_list) auto
    then show ?thesis unfolding p_def using pos by (rule nat_fraction)
  qed
  have sum1: "(\<Sum>n \<leftarrow> ws. p n) = 1"
  proof -
    have "(\<Sum>n \<leftarrow> ws. p n) = (\<Sum>n \<leftarrow> ws. real (unat n)) / real (unat ?S)"
      unfolding p_def by (rule sum_list_divide)
    also have "(\<Sum>n \<leftarrow> ws. real (unat n)) = real (unat ?S)"
      unfolding S by (induction ws) (simp_all only: list.map sum_list_simps of_nat_add of_nat_0)
    also have "real (unat ?S) / real (unat ?S) = 1"
      using pos by (intro divide_self) (simp only: of_nat_eq_0_iff neq0_conv)
    finally show ?thesis .
  qed
  have e: "counts_entropy False ws = (\<Sum>n \<leftarrow> ws. entropy_term (p n))" using False by (simp add: counts_entropy_sum p_def)
  have "0 \<le> (\<Sum>n \<leftarrow> ws. entropy_term (p n))"
    using p01 entropy_term_bounds(1)[OF _ _ n] by (intro sum_list_nonneg) auto
  moreover have "(\<Sum>n \<leftarrow> ws. entropy_term (p n)) \<le> (\<Sum>n \<leftarrow> ws. p n * log 2 ?n + (1 / ?n - p n) / ln 2)"
    using p01 entropy_term_bounds(2)[OF _ _ n] by (intro sum_list_mono) auto
  moreover have "(\<Sum>n \<leftarrow> xs. p n * log 2 ?n + (1 / ?n - p n) / ln 2) =
      (\<Sum>n \<leftarrow> xs. p n) * log 2 ?n + (real (length xs) / ?n - (\<Sum>n \<leftarrow> xs. p n)) / ln 2" for xs
    by (induction xs) (auto simp: add_divide_distrib diff_divide_distrib algebra_simps)
  ultimately show ?thesis using e sum1 n by simp
qed

end
