(* ===== verification/EntropyAttack.thy ===== *)
theory EntropyAttack
  imports LocalityAttack Entropy
begin

text \<open>
  \<open>single_stream/entropy_attack.cc\<close>: the variant of the locality attack that compares the entropy
  of the neighbour counts. State, tables and queues are those of the locality attack, plus the
  ground-truth store and three counters; neighbours are not paired by rank but by the distance of
  their entropies within a window of ranks. Doubles are idealised as reals.
\<close>

section \<open>The program\<close>

record 'db eattack = "'db attack" +
  relate :: 'db
  smallChunkAmount :: u64
  bigChunkError :: u64
  smallChunkError :: u64

text \<open>The macros of the program: the size of the entropy arrays, the threshold on the distance, the
  radius of the window, the value that marks a used entry, and the two disabled modes.\<close>

definition MAX_UO :: nat where "MAX_UO = 4000"
definition ENTROPY_THESHOLD :: real where "ENTROPY_THESHOLD = 1"
definition RADIUS :: nat where "RADIUS = 2"
definition MAX_INT :: real where "MAX_INT = 9999999"
definition E_ATTACK :: bool where "E_ATTACK = False"
definition MIN_ENTROPY :: bool where "MIN_ENTROPY = False"

definition init_db_ent ::
  "'db leveldb \<Rightarrow> string \<Rightarrow> int \<Rightarrow> 'db eattack \<Rightarrow> cpp_error + 'db eattack" where
  "init_db_ent L db_name type s =
     bindE (open_db L db_name) (\<lambda>db. Inr (
       if type = 1 then s\<lparr>origin := db\<rparr>
       else if type = 11 then s\<lparr>left_o := db\<rparr>
       else if type = 12 then s\<lparr>right_o := db\<rparr>
       else if type = 2 then s\<lparr>target := db\<rparr>
       else if type = 21 then s\<lparr>left_t := db\<rparr>
       else if type = 22 then s\<lparr>right_t := db\<rparr>
       else if type = 3 then s\<lparr>uniq := db\<rparr>
       else s))"

definition init_relate :: "'db leveldb \<Rightarrow> string \<Rightarrow> 'db eattack \<Rightarrow> cpp_error + 'db eattack" where
  "init_relate L rel s = bindE (open_db L rel) (\<lambda>db. Inr (s\<lparr>relate := db\<rparr>))"

text \<open>\<open>stat_db\<close> is the same code as in the locality attack.\<close>

definition stat_db_ent ::
  "'db leveldb \<Rightarrow> config \<Rightarrow> (nat \<Rightarrow> nat) \<Rightarrow> 'db eattack \<Rightarrow> cpp_error + 'db eattack" where
  "stat_db_ent L cfg rnd s = foldE (stat_db_entry L cfg rnd) (fst (ldb_iter L (target s))) s"

text \<open>\<open>left_insert\<close> leaves \<open>pt\<close> unset for a type other than 0 and 1.\<close>

definition left_insert_ent ::
  "'db leveldb \<Rightarrow> int \<Rightarrow> bytes \<Rightarrow> u64 \<Rightarrow> 'db eattack \<Rightarrow> cpp_error + 'db eattack" where
  "left_insert_ent L type fp k s =
     (let db = (if type = 0 then left_o s else left_t s) in
      if type = 0 \<or> type = 1 then insert_from L db type fp k s
      else if fst (ldb_get L db fp []) = StOk \<and> snd (ldb_get L db fp []) \<noteq> [] then Inl Uninitialised
      else Inr s)"

definition right_insert_ent ::
  "'db leveldb \<Rightarrow> int \<Rightarrow> bytes \<Rightarrow> u64 \<Rightarrow> 'db eattack \<Rightarrow> cpp_error + 'db eattack" where
  "right_insert_ent L type fp k s =
     insert_from L (if type = 0 then right_o s else right_t s) type fp k s"

definition db_insert_ent ::
  "'db leveldb \<Rightarrow> 'db \<Rightarrow> u64 \<Rightarrow> 'db eattack \<Rightarrow> cpp_error + 'db eattack" where
  "db_insert_ent L db k s =
     bindE (foldE (db_insert_entry k) (fst (ldb_iter L db)) (pq s)) (\<lambda>q. Inr (s\<lparr>pq := q\<rparr>))"

text \<open>The entropy of the counts. Their sum is a \<open>uint64_t\<close>; zero counts are left out.\<close>

definition entropy :: "node list \<Rightarrow> real" where
  "entropy tp = counts_entropy MIN_ENTROPY (map ncount tp)"

text \<open>The entropy of the neighbours of one chunk on one side (\<open>ins\<close> is \<open>left_insert\<close> or
  \<open>right_insert\<close>): both queues are emptied, filled, and the one of the side drained in descending order.\<close>

definition side_entropy ::
  "('db leveldb \<Rightarrow> int \<Rightarrow> bytes \<Rightarrow> u64 \<Rightarrow> 'db eattack \<Rightarrow> cpp_error + 'db eattack) \<Rightarrow>
   'db leveldb \<Rightarrow> int \<Rightarrow> u64 \<Rightarrow> node \<Rightarrow> 'db eattack \<Rightarrow> cpp_error + (real \<times> 'db eattack)" where
  "side_entropy ins L type num ne s =
     bindE (ins L type (nkey ne) num (s\<lparr>pq := [], pc := []\<rparr>)) (\<lambda>s.
       let ui = (if type = 0 then pq s else pc s);
           cal = rev (drain cmp ui)
       in Inr (entropy cal, if type = 0 then s\<lparr>pq := []\<rparr> else s\<lparr>pc := []\<rparr>))"

text \<open>\<open>getEntropy\<close>: a stack is a list with its top first; the result is the filled prefix of the
  two arrays, which have room for \<open>MAX_UO\<close> entries. \<open>ansPosision\<close> is the next free entry.\<close>

fun getEntropy ::
  "'db leveldb \<Rightarrow> int \<Rightarrow> u64 \<Rightarrow> nat \<Rightarrow> node list \<Rightarrow> 'db eattack \<Rightarrow>
   cpp_error + ((real list \<times> real list) \<times> 'db eattack)" where
  "getEntropy L type num ansPosision [] s = Inr (([], []), s)"
| "getEntropy L type num ansPosision (ne # tp) s =
     bindE (side_entropy left_insert_ent L type num ne s) (\<lambda>(leftEntropy, s).
     bindE (side_entropy right_insert_ent L type num ne s) (\<lambda>(rightEntropy, s).
       if ansPosision < MAX_UO
       then bindE (getEntropy L type num (ansPosision + 1) tp s) (\<lambda>((ls, rs), s).
              Inr ((leftEntropy # ls, rightEntropy # rs), s))
       else Inl BufferOverflow))"

definition dist_ent :: "real \<Rightarrow> real \<Rightarrow> real \<Rightarrow> real \<Rightarrow> real" where
  "dist_ent l1 r1 l2 r2 = sqrt ((l1 - l2) * (l1 - l2) + (r1 - r2) * (r1 - r2))"

text \<open>The inner loop of \<open>peakToPair\<close>: the position with the smallest distance below the threshold,
  the first one among equals.\<close>

definition peak_step ::
  "real list \<Rightarrow> real list \<Rightarrow> real \<Rightarrow> real \<Rightarrow> nat \<Rightarrow> real \<times> nat option \<Rightarrow> real \<times> nat option" where
  "peak_step leftOrigin rightOrigin l r j best =
     (let nowDist = dist_ent l r (leftOrigin ! j) (rightOrigin ! j) in
      if nowDist < ENTROPY_THESHOLD then if fst best > nowDist then (nowDist, Some j) else best
      else best)"

definition peak_pos ::
  "real list \<Rightarrow> real list \<Rightarrow> real \<Rightarrow> real \<Rightarrow> nat list \<Rightarrow> real \<times> nat option" where
  "peak_pos leftOrigin rightOrigin l r js = fold (peak_step leftOrigin rightOrigin l r) js (MAX_INT, None)"

definition peak_window :: "nat \<Rightarrow> nat \<Rightarrow> nat \<Rightarrow> nat list" where
  "peak_window originNum r i = [i - r ..< min originNum (i + RADIUS)]"

text \<open>The outer loop, over the target entries from position \<open>i\<close> on, each with its two entropies.\<close>

fun peak_loop ::
  "'db leveldb \<Rightarrow> u64 \<Rightarrow> nat \<Rightarrow> node list \<Rightarrow> nat \<Rightarrow> (node \<times> real \<times> real) list \<Rightarrow>
   real list \<Rightarrow> real list \<Rightarrow> 'db eattack \<Rightarrow> 'db eattack" where
  "peak_loop L limit r originTemp i [] leftOrigin rightOrigin s = s"
| "peak_loop L limit r originTemp i ((t, lt, rt) # ts) leftOrigin rightOrigin s =
     (case snd (peak_pos leftOrigin rightOrigin lt rt (peak_window (length originTemp) r i)) of
        None \<Rightarrow> peak_loop L limit r originTemp (i + 1) ts leftOrigin rightOrigin s
      | Some minpos \<Rightarrow>
          if fst (ldb_get L (uniq s) (nkey t) []) \<noteq> StOk
          then if length (q_o s) + 1 > unat limit then s
               else let p = originTemp ! minpos;
                        d = snd (ldb_put L (uniq s) (nkey t) (nkey p));
                        d = snd (ldb_put L d (nkey p) (nkey t))
                    in peak_loop L limit r originTemp (i + 1) ts
                         (leftOrigin[minpos := MAX_INT]) (rightOrigin[minpos := MAX_INT])
                         (s\<lparr>uniq := d, q_o := q_o s @ [p], q_t := q_t s @ [t]\<rparr>)
          else peak_loop L limit r originTemp (i + 1) ts leftOrigin rightOrigin s)"

definition peakToPair ::
  "'db leveldb \<Rightarrow> u64 \<Rightarrow> real list \<times> real list \<Rightarrow> real list \<times> real list \<Rightarrow> node list \<Rightarrow> node list \<Rightarrow> int \<Rightarrow>
   'db eattack \<Rightarrow> 'db eattack" where
  "peakToPair L limit eo et originStack targetStack flg s =
     peak_loop L limit (if flg = 1 then 0 else 2) originStack 0
       (zip targetStack (zip (fst et) (snd et))) (fst eo) (snd eo) s"

definition equal_ent :: "'db leveldb \<Rightarrow> bytes \<Rightarrow> bytes \<Rightarrow> 'db eattack \<Rightarrow> cpp_error + bool" where
  "equal_ent L ptext ctext s =
     (if \<not> E_ATTACK then Inr (ptext = ctext)
      else bindE (read_bytes (snd (ldb_get L (relate s) ctext [])) 0 FP_SIZE) (\<lambda>v. Inr (ptext = v)))"

text \<open>Entropies of both stacks, then the pairing; \<open>num\<close> is 5000 at every call.\<close>

definition pair_entropy ::
  "'db leveldb \<Rightarrow> config \<Rightarrow> node list \<Rightarrow> node list \<Rightarrow> int \<Rightarrow> 'db eattack \<Rightarrow> cpp_error + 'db eattack" where
  "pair_entropy L cfg omp tmp flg s =
     bindE (getEntropy L 0 5000 0 omp s) (\<lambda>(eo, s).
     bindE (getEntropy L 1 5000 0 tmp s) (\<lambda>(et, s).
       Inr (peakToPair L (QUEUE_LIMIT cfg) eo et omp tmp flg s)))"

definition seed_ent :: "'db leveldb \<Rightarrow> config \<Rightarrow> 'db eattack \<Rightarrow> cpp_error + 'db eattack" where
  "seed_ent L cfg s =
     bindE (db_insert_ent L (origin s) (INIT cfg) s) (\<lambda>s.
       let tmpA = rev (drain cmp (pq s))
       in bindE (db_insert_ent L (target s) (INIT cfg) (s\<lparr>pq := []\<rparr>)) (\<lambda>s.
          let tmpB = rev (drain cmp (pq s))
          in pair_entropy L cfg tmpA tmpB 0 (s\<lparr>pq := []\<rparr>)))"

definition expand_ent ::
  "('db leveldb \<Rightarrow> int \<Rightarrow> bytes \<Rightarrow> u64 \<Rightarrow> 'db eattack \<Rightarrow> cpp_error + 'db eattack) \<Rightarrow>
   'db leveldb \<Rightarrow> config \<Rightarrow> 'db eattack \<Rightarrow> cpp_error + 'db eattack" where
  "expand_ent ins L cfg s =
     (let s = s\<lparr>pq := [], pc := []\<rparr> in
      bindE (ins L 0 (nkey (hd (q_o s))) (TH_K cfg) s) (\<lambda>s.
      bindE (ins L 1 (nkey (hd (q_t s))) (TH_K cfg) s) (\<lambda>s.
        let (q, c, omp, tmp) = pair_pop (pq s) (pc s) [] []
        in pair_entropy L cfg omp tmp 1 (s\<lparr>pq := [], pc := []\<rparr>))))"

definition judge_ent :: "'db leveldb \<Rightarrow> 'db eattack \<Rightarrow> cpp_error + 'db eattack" where
  "judge_ent L s =
     bindE (equal_ent L (nkey (hd (q_o s))) (nkey (hd (q_t s))) s) (\<lambda>eq.
       Inr (if eq
            then s\<lparr>ansq := ansq s @ [hd (q_o s)],
                   smallChunkAmount := (if ncount (hd (q_t s)) < 50 then smallChunkAmount s + 1
                                        else smallChunkAmount s),
                   correct := correct s + 1\<rparr>
            else if ncount (hd (q_o s)) > 50 then s\<lparr>bigChunkError := bigChunkError s + 1\<rparr>
            else s\<lparr>smallChunkError := smallChunkError s + 1\<rparr>))"

definition attack_step_ent :: "'db leveldb \<Rightarrow> config \<Rightarrow> 'db eattack \<Rightarrow> cpp_error + 'db eattack" where
  "attack_step_ent L cfg s =
     bindE (judge_ent L s) (\<lambda>s.
     bindE (expand_ent left_insert_ent L cfg s) (\<lambda>s.
     bindE (expand_ent right_insert_ent L cfg s) (\<lambda>s.
       Inr (s\<lparr>q_o := tl (q_o s), q_t := tl (q_t s), involve := involve s + 1\<rparr>))))"

definition attack_loop_ent ::
  "'db leveldb \<Rightarrow> config \<Rightarrow> cpp_error + 'db eattack \<Rightarrow> (cpp_error + 'db eattack) option" where
  "attack_loop_ent L cfg = while_option attack_running (\<lambda>r. bindE r (attack_step_ent L cfg))"

definition main_loop_ent ::
  "'db leveldb \<Rightarrow> config \<Rightarrow> 'db eattack \<Rightarrow> (cpp_error + 'db eattack) option" where
  "main_loop_ent L cfg s =
     (let s = s\<lparr>ansq := []\<rparr>
      in attack_loop_ent L cfg (if LEAK_RATE cfg = 0 then seed_ent L cfg s else Inr s))"

definition eattack_start :: "'db \<Rightarrow> 'db eattack" where
  "eattack_start null = attack.extend (attack_start null)
     \<lparr>relate = null, smallChunkAmount = 0, bigChunkError = 0, smallChunkError = 0\<rparr>"

definition main_ent ::
  "'db leveldb \<Rightarrow> (nat \<Rightarrow> nat) \<Rightarrow> 'db \<Rightarrow> string list \<Rightarrow> (cpp_error + 'db eattack) option" where
  "main_ent L rnd null argv =
     (case bindE (foldE (\<lambda>(i, type) s. bindE (argv_at argv i) (\<lambda>name. init_db_ent L name type s))
              [(5, 1), (6, 11), (7, 12), (8, 2), (9, 21), (10, 22)] (eattack_start null)) (\<lambda>s.
           bindE (init_db_ent L ''./inference-db/'' 3 s) (\<lambda>s.
           bindE (init_relate L ''./ground-truth/'' s) (\<lambda>s.
           bindE (read_config argv) (\<lambda>cfg.
           bindE (stat_db_ent L cfg rnd s) (\<lambda>s. Inr (s, cfg)))))) of
        Inl e \<Rightarrow> Some (Inl e)
      | Inr (s, cfg) \<Rightarrow> main_loop_ent L cfg s)"

section \<open>What one iteration changes\<close>

text \<open>As \<open>grows\<close> for the locality attack, but both chunks of a pair are recorded in \<open>uniq\<close>.\<close>

definition egrows :: "('db \<Rightarrow> bytes \<rightharpoonup> bytes) \<Rightarrow> nat \<Rightarrow> 'db eattack \<Rightarrow> 'db eattack \<Rightarrow> node list \<Rightarrow> node list \<Rightarrow> bool" where
  "egrows view cap s s' os ts \<longleftrightarrow>
     length os = length ts \<and> q_o s' = q_o s @ os \<and> q_t s' = q_t s @ ts \<and>
     distinct (map nkey ts) \<and> nkey ` set ts \<inter> dom (view (uniq s)) = {} \<and>
     dom (view (uniq s')) = dom (view (uniq s)) \<union> nkey ` set ts \<union> nkey ` set os \<and>
     wf_nodes os \<and> wf_nodes ts \<and> (os \<noteq> [] \<longrightarrow> length (q_o s) + length os \<le> cap) \<and>
     involve s' = involve s \<and> correct s' = correct s \<and> ansq s' = ansq s \<and>
     bigChunkError s' = bigChunkError s \<and> smallChunkError s' = smallChunkError s \<and> tables s' = tables s \<and> total s' = total s"

lemma egrows_refl: "egrows view cap s s [] []"
  by (simp add: egrows_def wf_nodes_def)

lemma egrows_trans:
  assumes "egrows view cap s s1 os ts" "egrows view cap s1 s2 os' ts'"
  shows "egrows view cap s s2 (os @ os') (ts @ ts')"
  using assms unfolding egrows_def wf_nodes_def by auto

text \<open>Parts of an iteration that touch nothing but the two frequency queues.\<close>

definition only_queues :: "'db eattack \<Rightarrow> 'db eattack \<Rightarrow> bool" where
  "only_queues s s' \<longleftrightarrow> s'\<lparr>pq := [], pc := []\<rparr> = s\<lparr>pq := [], pc := []\<rparr>"

lemma only_queues_refl [simp]: "only_queues s s"
  by (simp add: only_queues_def)

lemma only_queues_trans: "only_queues s s1 \<Longrightarrow> only_queues s1 s2 \<Longrightarrow> only_queues s s2"
  by (simp add: only_queues_def)

lemma only_queues_upd [simp]:
  "only_queues s (s1\<lparr>pq := q\<rparr>) = only_queues s s1" "only_queues s (s1\<lparr>pc := c\<rparr>) = only_queues s s1"
  "only_queues (s\<lparr>pq := q\<rparr>) s1 = only_queues s s1" "only_queues (s\<lparr>pc := c\<rparr>) s1 = only_queues s s1"
  by (simp_all add: only_queues_def)

lemma egrows_only_queues: "only_queues s s1 \<Longrightarrow> egrows view cap s1 s2 os ts \<Longrightarrow> egrows view cap s s2 os ts"
  by (cases s, cases s1) (auto simp: only_queues_def egrows_def)

lemma insert_ent_from:
  assumes "left_insert_ent L type fp k s = Inr s' \<or> right_insert_ent L type fp k s = Inr s'"
    "wf_nodes (pq s)" "wf_nodes (pc s)"
  shows "only_queues s s'" "wf_nodes (pq s')" "wf_nodes (pc s')"
proof -
  have "s' = s \<or> (\<exists>db. insert_from L db type fp k s = Inr s')"
    using assms(1) by (auto simp: left_insert_ent_def right_insert_ent_def Let_def split: if_splits)
  then have "\<exists>q c. s' = s\<lparr>pq := q, pc := c\<rparr> \<and> wf_nodes q \<and> wf_nodes c"
  proof
    assume "s' = s"
    then have "s' = s\<lparr>pq := pq s, pc := pc s\<rparr>" by simp
    then show ?thesis using assms(2,3) by blast
  next
    assume "\<exists>db. insert_from L db type fp k s = Inr s'"
    then show ?thesis using insert_from_queues[OF _ assms(2,3)] by blast
  qed
  then show "only_queues s s'" "wf_nodes (pq s')" "wf_nodes (pc s')"
    by auto
qed

lemma insert_ent_cases:
  "ins = left_insert_ent \<or> ins = right_insert_ent \<Longrightarrow> ins L type fp k s = r \<Longrightarrow>
   left_insert_ent L type fp k s = r \<or> right_insert_ent L type fp k s = r"
  by auto

lemma side_entropy_queues:
  assumes "side_entropy ins L type num ne s = Inr (e, s')" "ins = left_insert_ent \<or> ins = right_insert_ent"
  shows "only_queues s s'"
proof -
  let ?s0 = "s\<lparr>pq := [], pc := []\<rparr>"
  obtain s1 where s1: "ins L type (nkey ne) num ?s0 = Inr s1"
    "s' = (if type = 0 then s1\<lparr>pq := []\<rparr> else s1\<lparr>pc := []\<rparr>)"
    using assms(1) by (auto simp: side_entropy_def Let_def)
  from insert_ent_from(1)[OF insert_ent_cases[OF assms(2) s1(1)]] have "only_queues ?s0 s1" by (simp add: wf_nodes_def)
  then show ?thesis using s1(2) by simp
qed

lemma getEntropy_queues:
  "getEntropy L type num pos ns s = Inr (e, s') \<Longrightarrow> only_queues s s'"
proof (induction L type num pos ns s arbitrary: e s' rule: getEntropy.induct)
  case (2 L type num pos ne tp s)
  from 2(2) obtain l s1 r s2 ls rs where s: "side_entropy left_insert_ent L type num ne s = Inr (l, s1)"
    "side_entropy right_insert_ent L type num ne s1 = Inr (r, s2)" "pos < MAX_UO"
    "getEntropy L type num (pos + 1) tp s2 = Inr ((ls, rs), s')"
    by (auto split: if_splits)
  have "only_queues s s1" "only_queues s1 s2" using s(1,2) side_entropy_queues by blast+
  moreover have "only_queues s2 s'" using 2(1)[OF s(3,4)] by blast
  ultimately show ?case using only_queues_trans by blast
qed auto

lemma getEntropy_length:
  "getEntropy L type num pos ns s = Inr ((ls, rs), s') \<Longrightarrow> length ls = length ns \<and> length rs = length ns"
proof (induction ns arbitrary: pos s ls rs)
  case (Cons ne ns)
  from Cons.prems obtain s2 ls' rs' where "getEntropy L type num (pos + 1) ns s2 = Inr ((ls', rs'), s')"
    "length ls = Suc (length ls')" "length rs = Suc (length rs')"
    by (auto split: if_splits)
  then show ?case using Cons.IH by fastforce
qed auto

lemma peak_pos_mem: "snd (peak_pos lo ro l r js) = Some j \<Longrightarrow> j \<in> set js"
proof -
  have "snd (fold (peak_step lo ro l r) js acc) = Some j \<Longrightarrow> j \<in> set js \<or> snd acc = Some j" for acc
    by (induction js arbitrary: acc) (fastforce simp: peak_step_def Let_def split: if_splits)+
  from this[of "(MAX_INT, None)"] show "snd (peak_pos lo ro l r js) = Some j \<Longrightarrow> j \<in> set js"
    by (simp add: peak_pos_def)
qed

lemma peak_window_less: "j \<in> set (peak_window n r i) \<Longrightarrow> j < n"
  by (simp add: peak_window_def)

context leveldb_laws
begin

lemma peak_loop_grows:
  assumes "wf_nodes oT" "\<forall>(t, _) \<in> set ts. wf_node t"
  shows "\<exists>os us. egrows view (unat limit) s (peak_loop L limit r oT i ts lo ro s) os us"
  using assms(2)
proof (induction ts arbitrary: i lo ro s)
  case (Cons x ts)
  obtain t l rt where x: "x = (t, l, rt)" by (cases x) auto
  have wf: "\<forall>(t, _) \<in> set ts. wf_node t" "wf_node t" using Cons.prems x by auto
  show ?case
  proof (cases "snd (peak_pos lo ro l rt (peak_window (length oT) r i))")
    case None
    then show ?thesis using Cons.IH[OF wf(1)] x by simp
  next
    case (Some j)
    have p: "wf_node (oT ! j)"
      using peak_window_less[OF peak_pos_mem[OF Some]] assms(1) by (auto simp: wf_nodes_def)
    consider "nkey t \<in> dom (view (uniq s))" | "nkey t \<notin> dom (view (uniq s))" "length (q_o s) + 1 > unat limit"
      | "nkey t \<notin> dom (view (uniq s))" "length (q_o s) + 1 \<le> unat limit" by linarith
    then show ?thesis
    proof cases
      case 1
      then show ?thesis using Cons.IH[OF wf(1)] x Some get_status[of "uniq s" "nkey t" "[]"] by simp
    next
      case 2
      then have "peak_loop L limit r oT i (x # ts) lo ro s = s"
        using x Some get_status[of "uniq s" "nkey t" "[]"] by simp
      then show ?thesis using egrows_refl by metis
    next
      case 3
      let ?s1 = "s\<lparr>uniq := snd (ldb_put L (snd (ldb_put L (uniq s) (nkey t) (nkey (oT ! j)))) (nkey (oT ! j)) (nkey t)),
        q_o := q_o s @ [oT ! j], q_t := q_t s @ [t]\<rparr>"
      have "egrows view (unat limit) s ?s1 [oT ! j] [t]"
        using 3 p wf(2) by (auto simp: egrows_def view_put wf_nodes_def)
      moreover obtain os us where "egrows view (unat limit) ?s1
          (peak_loop L limit r oT (i + 1) ts (lo[j := MAX_INT]) (ro[j := MAX_INT]) ?s1) os us"
        using Cons.IH[OF wf(1)] by blast
      ultimately have "egrows view (unat limit) s
          (peak_loop L limit r oT (i + 1) ts (lo[j := MAX_INT]) (ro[j := MAX_INT]) ?s1) ([oT ! j] @ os) ([t] @ us)"
        by (rule egrows_trans)
      moreover have "peak_loop L limit r oT i (x # ts) lo ro s =
          peak_loop L limit r oT (i + 1) ts (lo[j := MAX_INT]) (ro[j := MAX_INT]) ?s1"
        using 3 x Some get_status[of "uniq s" "nkey t" "[]"] by (simp add: Let_def)
      ultimately show ?thesis by auto
    qed
  qed
qed (auto intro: egrows_refl)

lemma pair_entropy_grows:
  assumes "pair_entropy L cfg omp tmp flg s = Inr s'" "wf_nodes omp" "wf_nodes tmp"
  shows "\<exists>os ts. egrows view (unat (QUEUE_LIMIT cfg)) s s' os ts"
proof -
  obtain eo s1 et s2 where s: "getEntropy L 0 5000 0 omp s = Inr (eo, s1)" "getEntropy L 1 5000 0 tmp s1 = Inr (et, s2)"
    "s' = peakToPair L (QUEUE_LIMIT cfg) eo et omp tmp flg s2"
    using assms(1) by (auto simp: pair_entropy_def)
  have q: "only_queues s s2" using getEntropy_queues s(1,2) only_queues_trans by blast
  have "\<forall>(t, _) \<in> set (zip tmp (zip (fst et) (snd et))). wf_node t"
    using assms(3) by (auto simp: wf_nodes_def dest: set_zip_leftD)
  then obtain os ts where "egrows view (unat (QUEUE_LIMIT cfg)) s2 s' os ts"
    using peak_loop_grows[OF assms(2)] s(3) unfolding peakToPair_def by blast
  then show ?thesis using egrows_only_queues[OF q] by blast
qed

lemma expand_ent_grows:
  assumes "expand_ent ins L cfg s = Inr s'" "ins = left_insert_ent \<or> ins = right_insert_ent"
  shows "\<exists>os ts. egrows view (unat (QUEUE_LIMIT cfg)) s s' os ts"
proof -
  let ?s0 = "s\<lparr>pq := [], pc := []\<rparr>"
  obtain s1 s2 where i: "ins L 0 (nkey (hd (q_o ?s0))) (TH_K cfg) ?s0 = Inr s1"
    "ins L 1 (nkey (hd (q_t s1))) (TH_K cfg) s1 = Inr s2"
    and r: "(let (q, c, omp, tmp) = pair_pop (pq s2) (pc s2) [] []
        in pair_entropy L cfg omp tmp 1 (s2\<lparr>pq := [], pc := []\<rparr>)) = Inr s'"
    using assms(1) by (auto simp: expand_ent_def Let_def)
  have "wf_nodes (pq ?s0)" "wf_nodes (pc ?s0)" by (auto simp: wf_nodes_def)
  note q1 = insert_ent_from[OF insert_ent_cases[OF assms(2) i(1)] this]
  note q2 = insert_ent_from[OF insert_ent_cases[OF assms(2) i(2)] q1(2,3)]
  obtain q c omp tmp where p: "pair_pop (pq s2) (pc s2) [] [] = (q, c, omp, tmp)"
    by (cases "pair_pop (pq s2) (pc s2) [] []") auto
  have "wf_nodes omp" "wf_nodes tmp"
    using pair_pop_subset(1,2)[OF p] q2(2,3) by (auto simp: wf_nodes_def)
  then obtain os ts where "egrows view (unat (QUEUE_LIMIT cfg)) (s2\<lparr>pq := [], pc := []\<rparr>) s' os ts"
    using pair_entropy_grows r p by fastforce
  moreover have "only_queues s (s2\<lparr>pq := [], pc := []\<rparr>)"
    using only_queues_trans[of s s1 s2] q1(1) q2(1) by simp
  ultimately show ?thesis using egrows_only_queues by blast
qed

end

lemma judge_ent_Inr:
  assumes "judge_ent L s = Inr s1"
  shows "q_o s1 = q_o s" "q_t s1 = q_t s" "uniq s1 = uniq s" "involve s1 = involve s" "tables s1 = tables s"
    "(ansq s1 = ansq s \<and> correct s1 = correct s \<or>
      ansq s1 = ansq s @ [hd (q_o s)] \<and> correct s1 = correct s + 1 \<and> nkey (hd (q_o s)) = nkey (hd (q_t s)))"
    "correct s1 + bigChunkError s1 + smallChunkError s1 = correct s + bigChunkError s + smallChunkError s + 1" "total s1 = total s"
  using assms by (auto simp: judge_ent_def equal_ent_def E_ATTACK_def algebra_simps split: if_splits)

context leveldb_laws
begin

lemma attack_step_ent_grows:
  assumes "attack_step_ent L cfg s = Inr s'"
  obtains s1 s3 os ts where "judge_ent L s = Inr s1" "egrows view (unat (QUEUE_LIMIT cfg)) s1 s3 os ts"
    "s' = s3\<lparr>q_o := tl (q_o s3), q_t := tl (q_t s3), involve := involve s3 + 1\<rparr>"
proof -
  obtain s1 s2 s3 where s: "judge_ent L s = Inr s1" "expand_ent left_insert_ent L cfg s1 = Inr s2"
    "expand_ent right_insert_ent L cfg s2 = Inr s3"
    "s' = s3\<lparr>q_o := tl (q_o s3), q_t := tl (q_t s3), involve := involve s3 + 1\<rparr>"
    using assms by (auto simp: attack_step_ent_def)
  obtain os1 ts1 os2 ts2 where "egrows view (unat (QUEUE_LIMIT cfg)) s1 s2 os1 ts1"
    "egrows view (unat (QUEUE_LIMIT cfg)) s2 s3 os2 ts2"
    using expand_ent_grows[OF s(2)] expand_ent_grows[OF s(3)] by blast
  then have "egrows view (unat (QUEUE_LIMIT cfg)) s1 s3 (os1 @ os2) (ts1 @ ts2)" by (rule egrows_trans)
  then show ?thesis using that s(1,4) by blast
qed

lemma attack_step_ent_measure:
  assumes "attack_running r"
  shows "attack_measure view (bindE r (attack_step_ent L cfg)) < attack_measure view r"
proof -
  obtain s where r: "r = Inr s" and ne: "q_o s \<noteq> []" "q_t s \<noteq> []"
    using assms by (auto simp: attack_running_def split: sum.splits)
  show ?thesis
  proof (cases "attack_step_ent L cfg s")
    case (Inl e)
    then show ?thesis using r ne by (simp add: attack_measure_def)
  next
    case (Inr s')
    then obtain s1 s3 os ts where j: "judge_ent L s = Inr s1"
      and g: "egrows view (unat (QUEUE_LIMIT cfg)) s1 s3 os ts"
      and s': "s' = s3\<lparr>q_o := tl (q_o s3), q_t := tl (q_t s3), involve := involve s3 + 1\<rparr>"
      by (rule attack_step_ent_grows)
    note js = judge_ent_Inr[OF j]
    let ?D = "dom (view (uniq s))"
    have wf: "\<forall>n \<in> set ts. wf_node n" using g by (simp add: egrows_def wf_nodes_def)
    have "card (fp_keys - (?D \<union> nkey ` set ts)) + length ts = card (fp_keys - ?D)"
      using g js wf by (intro card_fresh_keys) (auto simp: egrows_def)
    moreover have "card (fp_keys - dom (view (uniq s'))) \<le> card (fp_keys - (?D \<union> nkey ` set ts))"
      using g js finite_fp_keys unfolding s' by (intro card_mono) (auto simp: egrows_def)
    moreover have "Suc (length (q_t s')) = length (q_t s) + length ts"
      using g ne js unfolding s' by (simp add: egrows_def Suc_pred)
    ultimately show ?thesis using r Inr by (simp add: attack_measure_def)
  qed
qed

lemma attack_loop_ent_terminates: "\<exists>r'. attack_loop_ent L cfg r = Some r'"
  unfolding attack_loop_ent_def
  using measure_while_option_Some[where P = "\<lambda>_. True" and f = "attack_measure view"]
    attack_step_ent_measure by (metis (no_types, lifting))

end

section \<open>The invariant\<close>

definition eattack_inv :: "('db \<Rightarrow> bytes \<rightharpoonup> bytes) \<Rightarrow> 'db eattack \<Rightarrow> bool" where
  "eattack_inv view s \<longleftrightarrow>
     distinct (map nkey (ansq s) @ map nkey (q_t s)) \<and>
     nkey ` (set (ansq s) \<union> set (q_t s)) \<subseteq> dom (view (uniq s)) \<and>
     dom (view (uniq s)) \<subseteq> fp_keys \<and>
     unat (involve s) + length (q_t s) \<le> card (dom (view (uniq s))) \<and>
     unat (correct s) = length (ansq s) \<and>
     correct s + bigChunkError s + smallChunkError s = involve s"

lemma eattack_inv_bounds:
  assumes "eattack_inv view s"
  shows "unat (involve s) + length (q_t s) \<le> 2 ^ 48" "length (ansq s) + length (q_t s) \<le> 2 ^ 48"
proof -
  have sub: "dom (view (uniq s)) \<subseteq> fp_keys" using assms by (simp add: eattack_inv_def)
  have le: "card (dom (view (uniq s))) \<le> 2 ^ 48"
    using card_mono[OF finite_fp_keys sub] card_fp_keys by simp
  then show "unat (involve s) + length (q_t s) \<le> 2 ^ 48" using assms by (auto simp: eattack_inv_def)
  have "card (set (map nkey (ansq s) @ map nkey (q_t s))) = length (ansq s) + length (q_t s)"
    using assms distinct_card[of "map nkey (ansq s) @ map nkey (q_t s)"] by (simp add: eattack_inv_def)
  moreover have "card (set (map nkey (ansq s) @ map nkey (q_t s))) \<le> card (dom (view (uniq s)))"
    using assms finite_subset[OF sub finite_fp_keys] by (intro card_mono) (auto simp: eattack_inv_def)
  ultimately show "length (ansq s) + length (q_t s) \<le> 2 ^ 48" using le by simp
qed

lemma eattack_inv_advance:
  assumes inv: "eattack_inv view s" and ne: "q_t s \<noteq> []" and j: "judge_ent L s = Inr s1"
    and g: "egrows view cap s1 s3 os ts"
  shows "eattack_inv view (s3\<lparr>q_o := tl (q_o s3), q_t := tl (q_t s3), involve := involve s3 + 1\<rparr>)"
proof -
  note js = judge_ent_Inr[OF j]
  obtain t q where q: "q_t s = t # q" using ne by (cases "q_t s") auto
  let ?D = "dom (view (uniq s))" and ?T = "nkey ` set ts" and ?O = "nkey ` set os"
  have D: "dom (view (uniq s3)) = ?D \<union> ?T \<union> ?O" and fresh: "?T \<inter> ?D = {}" and dts: "distinct (map nkey ts)"
    and wf: "wf_nodes ts" "wf_nodes os" and qt: "tl (q_t s3) = q @ ts" and inv3: "involve s3 = involve s"
    and ans: "ansq s3 = ansq s1" "correct s3 = correct s1"
    and err: "correct s3 + bigChunkError s3 + smallChunkError s3 = involve s + 1"
    using g q js inv by (auto simp: egrows_def eattack_inv_def)
  have fin: "finite ?D" using inv finite_subset[OF _ finite_fp_keys] by (auto simp: eattack_inv_def)
  have Tc: "card ?T = length ts" using dts by (metis distinct_card image_set length_map)
  note b = eattack_inv_bounds[OF inv]
  have i: "unat (involve s + 1) = Suc (unat (involve s))" using b(1) by (intro unat_plus_one) simp
  have c: "unat (correct s + 1) = Suc (unat (correct s))"
    using b(2) inv by (intro unat_plus_one) (simp add: eattack_inv_def)
  have sub: "nkey ` set (ansq s) \<subseteq> ?D" "nkey t \<in> ?D" "nkey ` set q \<subseteq> ?D"
    and dis: "distinct (map nkey (ansq s) @ nkey t # map nkey q)" and co: "unat (correct s) = length (ansq s)"
    using inv q by (simp_all add: eattack_inv_def image_Un)
  have "nkey ` (set (ansq s3) \<union> set q) \<subseteq> ?D \<and> distinct (map nkey (ansq s3) @ map nkey q) \<and>
    unat (correct s3) = length (ansq s3)"
    using js(6)
  proof (elim disjE conjE)
    assume "ansq s1 = ansq s" "correct s1 = correct s"
    then show ?thesis using sub dis co unfolding ans by (simp add: image_Un)
  next
    assume "ansq s1 = ansq s @ [hd (q_o s)]" "correct s1 = correct s + 1" "nkey (hd (q_o s)) = nkey (hd (q_t s))"
    then show ?thesis using sub dis co c q unfolding ans by (simp add: image_Un)
  qed
  then have a: "nkey ` (set (ansq s3) \<union> set q) \<subseteq> ?D"
    "distinct (map nkey (ansq s3) @ map nkey q)" "unat (correct s3) = length (ansq s3)" by auto
  have "distinct (map nkey (ansq s3) @ map nkey (q @ ts))" using a(1,2) dts fresh by auto
  moreover have "card (?D \<union> ?T) = card ?D + length ts"
    using fin fresh Tc by (simp add: card_Un_disjoint Int_commute)
  then have "unat (involve s + 1) + length (q @ ts) \<le> card (?D \<union> ?T)"
    using inv q i by (simp add: eattack_inv_def)
  then have "unat (involve s + 1) + length (q @ ts) \<le> card (?D \<union> ?T \<union> ?O)"
    using fin card_mono[of "?D \<union> ?T \<union> ?O" "?D \<union> ?T"] by auto
  moreover have "nkey ` (set (ansq s3) \<union> set (q @ ts)) \<subseteq> ?D \<union> ?T \<union> ?O" using a(1) by auto
  moreover have "?D \<union> ?T \<union> ?O \<subseteq> fp_keys"
    using inv wf by (auto simp: eattack_inv_def fp_keys_def wf_node_def wf_nodes_def)
  ultimately show ?thesis using a(3) err by (simp add: eattack_inv_def D qt inv3)
qed

section \<open>The entropy\<close>



section \<open>The pairing\<close>

lemma dist_ent_used: "l \<le> MAX_INT - 1 \<Longrightarrow> 1 \<le> dist_ent l r MAX_INT x"
proof -
  assume "l \<le> MAX_INT - 1"
  then have "1 \<le> \<bar>l - MAX_INT\<bar>" by simp
  also have "\<dots> = sqrt ((l - MAX_INT) * (l - MAX_INT))" by (simp add: real_sqrt_mult_self)
  also have "\<dots> \<le> dist_ent l r MAX_INT x"
    unfolding dist_ent_def by (rule real_sqrt_le_mono) simp
  finally show ?thesis .
qed

text \<open>The position found is below the threshold and no other in the window is closer.\<close>

lemma peak_pos_best:
  assumes "snd (peak_pos lo ro l r js) = Some j"
  shows "dist_ent l r (lo ! j) (ro ! j) < 1"
    "\<forall>k \<in> set js. dist_ent l r (lo ! j) (ro ! j) \<le> dist_ent l r (lo ! k) (ro ! k)"
proof -
  let ?d = "\<lambda>k. dist_ent l r (lo ! k) (ro ! k)"
  let ?ok = "\<lambda>acc seen. (case snd acc of None \<Rightarrow> fst acc = MAX_INT \<and> (\<forall>k \<in> seen. 1 \<le> ?d k)
      | Some j \<Rightarrow> fst acc = ?d j \<and> ?d j < 1 \<and> (\<forall>k \<in> seen. ?d j \<le> ?d k))"
  have step: "?ok (peak_step lo ro l r k acc) (insert k seen)" if "?ok acc seen" for k acc seen
    using that by (cases "snd acc") (auto simp: peak_step_def Let_def ENTROPY_THESHOLD_def MAX_INT_def)
  have "?ok (fold (peak_step lo ro l r) js acc) (seen \<union> set js)" if "?ok acc seen" for acc seen
    using that
  proof (induction js arbitrary: acc seen)
    case (Cons k js)
    have "seen \<union> set (k # js) = insert k seen \<union> set js" by auto
    with Cons.IH[OF step[OF Cons.prems, of k]] show ?case by (simp only: fold_simps)
  qed (simp only: fold_simps list.set Un_empty_right)
  from this[of "(MAX_INT, None)" "{}"] have "?ok (peak_pos lo ro l r js) (set js)"
    by (simp only: peak_pos_def Un_empty_left snd_conv fst_conv option.case simp_thms ball_empty)
  then show "?d j < 1" "\<forall>k \<in> set js. ?d j \<le> ?d k" using assms by auto
qed

text \<open>The pairs of one call: \<open>(k, j)\<close> pairs the k-th target with the j-th origin chunk.\<close>

definition window_pairs ::
  "nat \<Rightarrow> nat \<Rightarrow> nat \<Rightarrow> real list \<Rightarrow> real list \<Rightarrow> (node \<times> real \<times> real) list \<Rightarrow> nat set \<Rightarrow> (nat \<times> nat) list \<Rightarrow> bool" where
  "window_pairs n r i lo ro ts U ps \<longleftrightarrow>
     distinct (map snd ps) \<and> snd ` set ps \<inter> U = {} \<and> sorted_wrt (<) (map fst ps) \<and>
     (\<forall>(k, j) \<in> set ps. k < length ts \<and> j < n \<and> i + k - r \<le> j \<and> j < i + k + 2 \<and>
        dist_ent (fst (snd (ts ! k))) (snd (snd (ts ! k))) (lo ! j) (ro ! j) < 1)"

lemma window_pairs_Suc:
  assumes "window_pairs n r (i + 1) lo ro ts U ps"
  shows "window_pairs n r i lo ro (t # ts) U (map (\<lambda>(k, j). (Suc k, j)) ps)"
proof -
  have "map snd (map (\<lambda>(k, j). (Suc k, j)) ps) = map snd ps"
    "map fst (map (\<lambda>(k, j). (Suc k, j)) ps) = map Suc (map fst ps)" by (auto simp: comp_def)
  then show ?thesis using assms unfolding window_pairs_def
    by (auto simp: sorted_wrt_map comp_def case_prod_beta)
qed

lemma window_pairs_Cons:
  assumes "window_pairs n r (i + 1) (lo[j := a]) (ro[j := b]) ts (insert j U) ps"
    "j \<notin> U" "j < n" "i - r \<le> j" "j < i + 2" "dist_ent l rt (lo ! j) (ro ! j) < 1"
  shows "window_pairs n r i lo ro ((t, l, rt) # ts) U ((0, j) # map (\<lambda>(k, j). (Suc k, j)) ps)"
proof -
  have neq: "j' \<noteq> j" if "(k, j') \<in> set ps" for k j'
    using assms(1) that unfolding window_pairs_def by fastforce
  have "window_pairs n r (i + 1) lo ro ts U ps"
    using assms(1) neq unfolding window_pairs_def by fastforce
  note W = window_pairs_Suc[OF this, of "(t, l, rt)"]
  define qs where "qs = map (\<lambda>(k, j). (Suc k, j)) ps"
  have "j \<notin> snd ` set qs" "\<forall>k \<in> fst ` set qs. 0 < k" unfolding qs_def using neq by force+
  then show ?thesis
    using W assms(2-6) unfolding qs_def[symmetric] window_pairs_def by simp
qed

context leveldb_laws
begin

lemma peak_loop_window:
  assumes "length lo = length oT" "length ro = length oT" "\<forall>j \<in> U. lo ! j = MAX_INT"
    "\<forall>(t, l, rt) \<in> set ts. l \<le> MAX_INT - 1"
  shows "\<exists>ps. window_pairs (length oT) r i lo ro ts U ps \<and>
    q_o (peak_loop L limit r oT i ts lo ro s) = q_o s @ map (\<lambda>(k, j). oT ! j) ps \<and>
    q_t (peak_loop L limit r oT i ts lo ro s) = q_t s @ map (\<lambda>(k, j). fst (ts ! k)) ps"
  using assms
proof (induction ts arbitrary: i lo ro U s)
  case Nil
  then show ?case by (intro exI[of _ "[]"]) (simp add: window_pairs_def)
next
  case (Cons x ts)
  obtain t l rt where x: "x = (t, l, rt)" by (cases x) auto
  let ?run = "\<lambda>lo ro s. peak_loop L limit r oT (i + 1) ts lo ro s"
  have l: "l \<le> MAX_INT - 1" "\<forall>(t, l, rt) \<in> set ts. l \<le> MAX_INT - 1" using Cons.prems(4) x by auto
  have stop: ?case if "peak_loop L limit r oT i (x # ts) lo ro s = s"
    using that by (intro exI[of _ "[]"]) (simp add: window_pairs_def)
  have skip: ?case if "peak_loop L limit r oT i (x # ts) lo ro s = ?run lo ro s"
  proof -
    obtain ps where "window_pairs (length oT) r (i + 1) lo ro ts U ps"
      "q_o (?run lo ro s) = q_o s @ map (\<lambda>(k, j). oT ! j) ps"
      "q_t (?run lo ro s) = q_t s @ map (\<lambda>(k, j). fst (ts ! k)) ps"
      using Cons.IH[OF Cons.prems(1-3) l(2)] by blast
    then show ?thesis
      using window_pairs_Suc[of _ r i lo ro ts U ps x] that
      by (intro exI[of _ "map (\<lambda>(k, j). (Suc k, j)) ps"]) (auto simp: comp_def case_prod_beta)
  qed
  show ?case
  proof (cases "snd (peak_pos lo ro l rt (peak_window (length oT) r i))")
    case None
    then show ?thesis using skip x by simp
  next
    case (Some j)
    have j: "j < length oT" "i - r \<le> j" "j < i + 2"
      using peak_pos_mem[OF Some] by (auto simp: peak_window_def RADIUS_def)
    have d: "dist_ent l rt (lo ! j) (ro ! j) < 1" by (rule peak_pos_best(1)[OF Some])
    then have U: "j \<notin> U" using Cons.prems(3) dist_ent_used[OF l(1), of rt "ro ! j"] by auto
    show ?thesis
    proof (cases "fst (ldb_get L (uniq s) (nkey t) []) \<noteq> StOk \<and> length (q_o s) + 1 \<le> unat limit")
      case False
      then show ?thesis using stop skip x Some by (auto simp: Let_def split: if_splits)
    next
      case True
      let ?s1 = "s\<lparr>uniq := snd (ldb_put L (snd (ldb_put L (uniq s) (nkey t) (nkey (oT ! j)))) (nkey (oT ! j)) (nkey t)),
        q_o := q_o s @ [oT ! j], q_t := q_t s @ [t]\<rparr>"
      let ?lo = "lo[j := MAX_INT]" and ?ro = "ro[j := MAX_INT]"
      have run: "peak_loop L limit r oT i (x # ts) lo ro s = ?run ?lo ?ro ?s1"
        using True x Some by (simp add: Let_def)
      have "length ?lo = length oT" "length ?ro = length oT" "\<forall>k \<in> insert j U. ?lo ! k = MAX_INT"
        using Cons.prems(1-3) j(1) by (auto simp: nth_list_update)
      from Cons.IH[OF this l(2), of "i + 1" ?s1] obtain ps where
        ps: "window_pairs (length oT) r (i + 1) ?lo ?ro ts (insert j U) ps"
        "q_o (?run ?lo ?ro ?s1) = q_o ?s1 @ map (\<lambda>(k, j). oT ! j) ps"
        "q_t (?run ?lo ?ro ?s1) = q_t ?s1 @ map (\<lambda>(k, j). fst (ts ! k)) ps" by blast
      have "window_pairs (length oT) r i lo ro (x # ts) U ((0, j) # map (\<lambda>(k, j). (Suc k, j)) ps)"
        unfolding x by (rule window_pairs_Cons[OF ps(1) U j d])
      then show ?thesis unfolding run using ps(2,3) x
        by (intro exI[of _ "(0, j) # map (\<lambda>(k, j). (Suc k, j)) ps"]) (auto simp: comp_def case_prod_beta)
    qed
  qed
qed

end

section \<open>Properties of the attack\<close>

text \<open>C15. The entropy attack's main loop ends on any tables and from any state.\<close>

theorem main_loop_ent_terminates:
  assumes "leveldb_laws L view"
  shows "\<exists>r. main_loop_ent L cfg s = Some r"
  unfolding main_loop_ent_def Let_def by (rule leveldb_laws.attack_loop_ent_terminates[OF assms])

theorem main_loop_ent_terminates_witness:
  "\<exists>r. main_loop_ent (mem_leveldb (\<lambda>_. [])) demo_config (eattack_start []) = Some r"
  by (rule main_loop_ent_terminates[OF mem.leveldb_laws_axioms])

text \<open>C16. One iteration of the entropy attack keeps its invariant: no ciphertext chunk is queued or
  answered twice, every one of them is recorded in \<open>uniq\<close>, and every expanded pair was counted as
  correct, as an error on a frequent chunk or as an error on an infrequent one.\<close>

theorem attack_step_ent_keeps_inv:
  assumes "leveldb_laws L view" "eattack_inv view s" "q_t s \<noteq> []" "attack_step_ent L cfg s = Inr s'"
  shows "eattack_inv view s'"
  using leveldb_laws.attack_step_ent_grows[OF assms(1,4)] eattack_inv_advance[OF assms(2,3)] by metis

definition demo_eattack :: "mem_db eattack" where
  "demo_eattack = (eattack_start [])\<lparr>q_o := [\<lparr>nkey = ''chunk1'', ncount = 3\<rparr>],
     q_t := [\<lparr>nkey = ''chunk1'', ncount = 3\<rparr>], uniq := [(''chunk1'', ''chunk1'')]\<rparr>"

lemma demo_eattack_inv: "eattack_inv map_of demo_eattack"
proof -
  have "dom (map_of (uniq demo_eattack)) = {''chunk1''}" by (simp add: demo_eattack_def)
  then show ?thesis
    by (simp add: eattack_inv_def demo_eattack_def eattack_start_def attack_start_def attack.defs fp_keys_def)
qed

lemma demo_eattack_step: "\<exists>s'. attack_step_ent (mem_leveldb (\<lambda>_. [])) demo_config demo_eattack = Inr s'"
  by (simp add: attack_step_ent_def judge_ent_def equal_ent_def E_ATTACK_def expand_ent_def
      left_insert_ent_def right_insert_ent_def insert_from_def mem_leveldb_def demo_eattack_def
      eattack_start_def attack_start_def attack.defs pair_pop.simps pair_entropy_def peakToPair_def)

theorem attack_step_ent_keeps_inv_witness:
  "\<exists>s'. attack_step_ent (mem_leveldb (\<lambda>_. [])) demo_config demo_eattack = Inr s' \<and> eattack_inv map_of s'"
proof -
  obtain s' where s': "attack_step_ent (mem_leveldb (\<lambda>_. [])) demo_config demo_eattack = Inr s'"
    using demo_eattack_step by blast
  have "q_t demo_eattack \<noteq> []" by (simp add: demo_eattack_def)
  from attack_step_ent_keeps_inv[OF mem.leveldb_laws_axioms demo_eattack_inv this s'] s'
  show ?thesis by blast
qed

text \<open>C17. \<open>peakToPair\<close> enqueues pairs in the order of the targets; every pair is within the
  window of ranks (from r below to one above) and closer than the threshold, and no origin chunk of the
  stack is used twice in one call.\<close>

theorem peakToPair_window:
  assumes "leveldb_laws L view" "length lo = length oS" "length ro = length oS"
    "length lt = length tS" "length rt = length tS" "\<forall>l \<in> set lt. l \<le> MAX_INT - 1"
  shows "\<exists>ps. q_o (peakToPair L limit (lo, ro) (lt, rt) oS tS flg s) = q_o s @ map (\<lambda>(k, j). oS ! j) ps \<and>
    q_t (peakToPair L limit (lo, ro) (lt, rt) oS tS flg s) = q_t s @ map (\<lambda>(k, j). tS ! k) ps \<and>
    distinct (map snd ps) \<and> sorted_wrt (<) (map fst ps) \<and>
    (\<forall>(k, j) \<in> set ps. k < length tS \<and> j < length oS \<and> k - (if flg = 1 then 0 else 2) \<le> j \<and> j < k + 2 \<and>
       dist_ent (lt ! k) (rt ! k) (lo ! j) (ro ! j) < 1)"
proof -
  let ?ts = "zip tS (zip lt rt)" and ?r = "if flg = 1 then 0 else 2"
  have "\<forall>(t, l, rt) \<in> set ?ts. l \<le> MAX_INT - 1"
    using assms(6) by (auto dest: set_zip_leftD set_zip_rightD)
  with leveldb_laws.peak_loop_window[OF assms(1-3), of "{}" ?ts ?r 0 limit s] obtain ps where
    w: "window_pairs (length oS) ?r 0 lo ro ?ts {} ps" and
    q: "q_o (peak_loop L limit ?r oS 0 ?ts lo ro s) = q_o s @ map (\<lambda>(k, j). oS ! j) ps"
    "q_t (peak_loop L limit ?r oS 0 ?ts lo ro s) = q_t s @ map (\<lambda>(k, j). fst (?ts ! k)) ps" by auto
  have "map (\<lambda>(k, j). fst (?ts ! k)) ps = map (\<lambda>(k, j). tS ! k) ps"
    using w assms(4,5) by (intro map_cong) (auto simp: window_pairs_def)
  then show ?thesis
    using w q assms(4,5) unfolding peakToPair_def window_pairs_def
    by (intro exI[of _ ps]) auto
qed

theorem peakToPair_window_witness:
  "\<exists>ps :: (nat \<times> nat) list. q_o (peakToPair (mem_leveldb (\<lambda>_. [])) 9 ([1], [1]) ([1], [1])
        [\<lparr>nkey = ''chunk1'', ncount = 3\<rparr>] [\<lparr>nkey = ''chunk2'', ncount = 3\<rparr>] 1 demo_eattack) =
      q_o demo_eattack @ map (\<lambda>(k, j). [\<lparr>nkey = ''chunk1'', ncount = 3\<rparr>] ! j) ps \<and> distinct (map snd ps)"
proof -
  have "length [1 :: real] = length [\<lparr>nkey = ''chunk1'', ncount = 3\<rparr>]"
    "length [1 :: real] = length [\<lparr>nkey = ''chunk2'', ncount = 3\<rparr>]" "\<forall>l \<in> set [1]. l \<le> MAX_INT - 1"
    by (simp_all add: MAX_INT_def)
  from peakToPair_window[OF mem.leveldb_laws_axioms this(1,1,2,2,3), of "\<lambda>_. []" 9 1 demo_eattack]
  show ?thesis by blast
qed

end
