(* ===== verification/EntropyRun.thy ===== *)
theory EntropyRun
  imports EntropyAttack
begin

text \<open>
  The entropy attack on well-formed tables, from the first table to the end of its loop: with parameters that fit
  the arrays of \<open>getEntropy\<close> no step fails, and its counters account for every expanded pair.
\<close>

section \<open>No step fails\<close>

lemma only_queues_tables: "only_queues s s' \<Longrightarrow> wf_tables view s \<Longrightarrow> wf_tables view s'"
  by (cases s, cases s') (auto simp: only_queues_def wf_tables_def)

text \<open>The parameters \<open>u\<close> and \<open>v\<close>, the numbers of chunks per queue, fit the arrays.\<close>

definition fits_arrays :: "config \<Rightarrow> bool" where
  "fits_arrays cfg \<longleftrightarrow> 0 < unat (INIT cfg) \<and> unat (INIT cfg) \<le> MAX_UO \<and> 0 < unat (TH_K cfg) \<and> unat (TH_K cfg) \<le> MAX_UO"

context leveldb_laws
begin

lemma insert_from_bounded:
  assumes "assoc_table (view db)" "0 < unat k" "(if type = 0 then pq s else pc s) = []"
  shows "\<exists>q. insert_from L db type fp k s = Inr (if type = 0 then s\<lparr>pq := q\<rparr> else s\<lparr>pc := q\<rparr>) \<and> length q \<le> unat k"
proof (cases "view db fp")
  case None
  have "s = (if type = 0 then s\<lparr>pq := []\<rparr> else s\<lparr>pc := []\<rparr>)" using assms(3) by (cases s) (auto split: if_splits)
  then show ?thesis using None by (intro exI[of _ "[]"]) (simp add: insert_from_def get_miss)
next
  case (Some v)
  then obtain ns where ns: "wf_nodes ns" "v = concat (map rec_bytes ns)" using assms(1) by (auto simp: assoc_table_def)
  obtain q where q: "insert_from L db type fp k s = Inr (if type = 0 then s\<lparr>pq := q\<rparr> else s\<lparr>pc := q\<rparr>)" "best_k cmp (unat k) (mset ns) (mset q)"
    using insert_from_top_k[OF Some[unfolded ns(2)] ns(1) assms(2,3)] by blast
  have "length q = size (mset q)" by simp
  then show ?thesis using q by (auto simp: best_k_def)
qed

lemma insert_ent_bounded:
  assumes "ins = left_insert_ent \<or> ins = right_insert_ent" "wf_tables view s" "0 < unat k" "type \<in> {0, 1}"
    "(if type = 0 then pq s else pc s) = []"
  shows "\<exists>q. ins L type fp k s = Inr (if type = 0 then s\<lparr>pq := q\<rparr> else s\<lparr>pc := q\<rparr>) \<and> length q \<le> unat k"
  using assms insert_from_bounded[of _ k type s fp]
  by (auto simp: left_insert_ent_def right_insert_ent_def wf_tables_def Let_def)

lemma side_entropy_succeeds:
  assumes "ins = left_insert_ent \<or> ins = right_insert_ent" "wf_tables view s" "0 < unat num" "type \<in> {0, 1}"
  shows "\<exists>e s'. side_entropy ins L type num ne s = Inr (e, s') \<and> wf_tables view s'"
proof -
  let ?s0 = "s\<lparr>pq := [], pc := []\<rparr>"
  have "wf_tables view ?s0" using assms(2) by (simp add: wf_tables_def)
  then obtain q where "ins L type (nkey ne) num ?s0 = Inr (if type = 0 then ?s0\<lparr>pq := q\<rparr> else ?s0\<lparr>pc := q\<rparr>)"
    using insert_ent_bounded[OF assms(1) _ assms(3,4), of ?s0 "nkey ne"] by fastforce
  then show ?thesis using assms(2) by (auto simp: side_entropy_def wf_tables_def)
qed

lemma getEntropy_succeeds:
  assumes "wf_tables view s" "0 < unat num" "type \<in> {0, 1}" "pos + length ns \<le> MAX_UO"
  shows "\<exists>e s'. getEntropy L type num pos ns s = Inr (e, s') \<and> wf_tables view s'"
  using assms(1,4)
proof (induction ns arbitrary: pos s)
  case (Cons ne ns)
  obtain l s1 where l: "side_entropy left_insert_ent L type num ne s = Inr (l, s1)" "wf_tables view s1"
    using side_entropy_succeeds[OF _ Cons.prems(1) assms(2,3)] by blast
  obtain r s2 where r: "side_entropy right_insert_ent L type num ne s1 = Inr (r, s2)" "wf_tables view s2"
    using side_entropy_succeeds[OF _ l(2) assms(2,3)] by blast
  obtain e s3 where "getEntropy L type num (pos + 1) ns s2 = Inr (e, s3)" "wf_tables view s3"
    using Cons.IH[OF r(2), of "pos + 1"] Cons.prems(2) by auto
  then show ?case using l(1) r(1) Cons.prems(2) by (cases e) simp
qed simp

lemma pair_entropy_succeeds:
  assumes "wf_tables view s" "length omp \<le> MAX_UO" "length tmp \<le> MAX_UO"
  shows "\<exists>s'. pair_entropy L cfg omp tmp flg s = Inr s'"
proof -
  obtain e s1 where e: "getEntropy L 0 5000 0 omp s = Inr (e, s1)" "wf_tables view s1"
    using getEntropy_succeeds[OF assms(1), of 5000 0 0 omp] assms(2) by auto
  obtain t s2 where "getEntropy L 1 5000 0 tmp s1 = Inr (t, s2)"
    using getEntropy_succeeds[OF e(2), of 5000 1 0 tmp] assms(3) by auto
  then show ?thesis using e(1) by (simp add: pair_entropy_def)
qed

lemma expand_ent_succeeds:
  assumes "ins = left_insert_ent \<or> ins = right_insert_ent" "wf_tables view s" "fits_arrays cfg"
  shows "\<exists>s'. expand_ent ins L cfg s = Inr s'"
proof -
  let ?s0 = "s\<lparr>pq := [], pc := []\<rparr>"
  have k: "0 < unat (TH_K cfg)" "unat (TH_K cfg) \<le> MAX_UO" using assms(3) by (simp_all add: fits_arrays_def)
  have wf: "wf_tables view (s\<lparr>pq := q, pc := c\<rparr>)" for q c using assms(2) by (simp add: wf_tables_def)
  have upd: "?s0\<lparr>pq := q\<rparr> = s\<lparr>pq := q, pc := []\<rparr>" "s\<lparr>pq := q, pc := [], pc := c\<rparr> = s\<lparr>pq := q, pc := c\<rparr>" for q c by simp_all
  obtain q where q: "ins L 0 (nkey (hd (q_o ?s0))) (TH_K cfg) ?s0 = Inr (s\<lparr>pq := q, pc := []\<rparr>)" "length q \<le> unat (TH_K cfg)"
    using insert_ent_bounded[OF assms(1) wf[of "[]" "[]"] k(1), where type = 0 and fp = "nkey (hd (q_o ?s0))"] unfolding upd by auto
  let ?s1 = "s\<lparr>pq := q, pc := []\<rparr>"
  obtain c where c: "ins L 1 (nkey (hd (q_t ?s1))) (TH_K cfg) ?s1 = Inr (s\<lparr>pq := q, pc := c\<rparr>)"
    using insert_ent_bounded[OF assms(1) wf[of "[]" q] k(1), where type = 1 and fp = "nkey (hd (q_t ?s1))"] unfolding upd by auto
  obtain q' c' omp tmp where p: "pair_pop q c [] [] = (q', c', omp, tmp)" by (cases "pair_pop q c [] []") auto
  have "length omp \<le> MAX_UO" "length tmp \<le> MAX_UO" using pair_pop_ranks[OF p] q(2) k(2) by simp_all
  then obtain s' where "pair_entropy L cfg omp tmp 1 (s\<lparr>pq := [], pc := []\<rparr>) = Inr s'" using pair_entropy_succeeds[OF wf] by blast
  then show ?thesis using q(1) c p by (simp add: expand_ent_def)
qed

lemma attack_step_ent_succeeds:
  assumes "wf_tables view s" "fits_arrays cfg"
  shows "\<exists>s'. attack_step_ent L cfg s = Inr s'"
proof -
  obtain s1 where s1: "judge_ent L s = Inr s1" by (auto simp: judge_ent_def equal_ent_def E_ATTACK_def)
  then have "wf_tables view s1" using assms(1) judge_ent_Inr(5)[OF s1] by (simp add: wf_tables_def)
  then obtain s2 where s2: "expand_ent left_insert_ent L cfg s1 = Inr s2" "wf_tables view s1" using expand_ent_succeeds assms(2) by blast
  have "tables s2 = tables s1" using expand_ent_grows[OF s2(1)] by (auto simp: egrows_def)
  then have "wf_tables view s2" using s2(2) by (simp add: wf_tables_def)
  then obtain s3 where "expand_ent right_insert_ent L cfg s2 = Inr s3" using expand_ent_succeeds assms(2) by blast
  then show ?thesis using s1 s2(1) by (simp add: attack_step_ent_def)
qed

lemma seed_ent_succeeds:
  assumes "wf_tables view s" "fits_arrays cfg" "pq s = []"
  shows "\<exists>s'. seed_ent L cfg s = Inr s' \<and> (\<exists>os ts. egrows view (unat (QUEUE_LIMIT cfg)) s s' os ts)"
proof -
  have k: "0 < unat (INIT cfg)" "unat (INIT cfg) \<le> MAX_UO" using assms(2) by (simp_all add: fits_arrays_def)
  have ft: "freq_table (view (origin s))" "freq_table (view (target s))" using assms(1) by (auto simp: wf_tables_def)
  obtain q where q: "foldE (db_insert_entry (INIT cfg)) (fst (ldb_iter L (origin s))) [] = Inr q" "is_heap cmp q"
    "best_k cmp (unat (INIT cfg)) (mset (map entry_node (fst (ldb_iter L (origin s))))) (mset q)" using db_insert_best_k[OF ft(1) k(1)] by blast
  obtain c where c: "foldE (db_insert_entry (INIT cfg)) (fst (ldb_iter L (target s))) [] = Inr c" "is_heap cmp c"
    "best_k cmp (unat (INIT cfg)) (mset (map entry_node (fst (ldb_iter L (target s))))) (mset c)" using db_insert_best_k[OF ft(2) k(1)] by blast
  have "size (mset q) \<le> unat (INIT cfg)" "size (mset c) \<le> unat (INIT cfg)" using q(3) c(3) by (auto simp: best_k_def)
  then have len: "length (rev (drain cmp q)) \<le> MAX_UO" "length (rev (drain cmp c)) \<le> MAX_UO" using k(2) by simp_all
  have pq: "s\<lparr>pq := []\<rparr> = s" using assms(3) by (cases s) simp
  obtain s' where s': "pair_entropy L cfg (rev (drain cmp q)) (rev (drain cmp c)) 0 s = Inr s'"
    using pair_entropy_succeeds[OF assms(1) len] by blast
  then have "seed_ent L cfg s = Inr s'" using q(1) c(1) assms(3) by (simp add: seed_ent_def db_insert_ent_def Let_def pq)
  moreover have "wf_nodes (rev (drain cmp q))" "wf_nodes (rev (drain cmp c))"
    using top_ranked_keys(2)[OF top_ranked_drain[OF q(2,3)] ft(1)] top_ranked_keys(2)[OF top_ranked_drain[OF c(2,3)] ft(2)] by (auto simp: wf_nodes_def)
  ultimately show ?thesis using pair_entropy_grows[OF s'] by blast
qed

section \<open>The whole run\<close>

lemma eattack_inv_grows:
  assumes "eattack_inv view s" "egrows view cap s s' os ts"
  shows "eattack_inv view s'"
proof -
  let ?D = "dom (view (uniq s))" and ?T = "nkey ` set ts" and ?O = "nkey ` set os"
  note g = assms(2)[unfolded egrows_def]
  have old: "distinct (map nkey (ansq s) @ map nkey (q_t s))" "nkey ` set (ansq s) \<subseteq> ?D" "nkey ` set (q_t s) \<subseteq> ?D" "?D \<subseteq> fp_keys"
    "unat (involve s) + length (q_t s) \<le> card ?D"
    using assms(1) by (simp_all add: eattack_inv_def image_Un)
  have new: "distinct (map nkey ts)" "?T \<inter> ?D = {}" "?T \<subseteq> fp_keys" "?O \<subseteq> fp_keys"
    using g by (auto simp: wf_nodes_def wf_node_def fp_keys_def)
  have "card ?T = length ts" "?D \<inter> ?T = {}" using new(1,2) distinct_card[of "map nkey ts"] by auto
  then have "card (?D \<union> ?T) = card ?D + length ts" by (simp add: card_Un_disjoint dom_view_finite)
  moreover have "card (?D \<union> ?T) \<le> card (?D \<union> ?T \<union> ?O)" by (intro card_mono) (auto simp: dom_view_finite)
  ultimately have card: "unat (involve s) + length (q_t s @ ts) \<le> card (?D \<union> ?T \<union> ?O)" using old(5) by simp
  have apart: "A \<inter> ?T = {}" if "A \<subseteq> ?D" for A using that new(2) by blast
  then have dist: "distinct (map nkey (ansq s) @ map nkey (q_t s @ ts))"
    using old(1-3) new(1) by (simp only: map_append append_assoc[symmetric] distinct_append set_append set_map Int_Un_distrib2 Un_empty simp_thms)
  have "A \<union> (B \<union> ?T) \<subseteq> ?D \<union> ?T \<union> ?O" if "A \<subseteq> ?D" "B \<subseteq> ?D" for A B using that by blast
  then have sub: "nkey ` (set (ansq s) \<union> set (q_t s @ ts)) \<subseteq> ?D \<union> ?T \<union> ?O" using old(2,3) by (simp only: image_Un set_append)
  have "?D \<union> ?T \<union> ?O \<subseteq> fp_keys" using old(4) new(3,4) by (simp only: Un_subset_iff simp_thms)
  with card dist sub show ?thesis
    unfolding eattack_inv_def using g assms(1)[unfolded eattack_inv_def] by (simp only: simp_thms)
qed

lemma stat_db_ent_start:
  assumes "wf_tables view s" "fresh_attack view s" "bigChunkError s = 0" "smallChunkError s = 0"
  shows "\<exists>s'. stat_db_ent L cfg rnd s = Inr s' \<and> eattack_inv view s' \<and> pq s' = [] \<and> ansq s' = [] \<and> tables s' = tables s \<and>
    unat (total s') = card (dom (view (target s)))"
proof -
  obtain s' where s': "stat_db_ent L cfg rnd s = Inr s'" "attack_inv view s'" "pq s' = []" "ansq s' = []"
    "unat (total s') = card (dom (view (target s)))" "tables s' = tables s"
    using stat_db_loc_inv[OF assms(1,2), of cfg rnd] unfolding stat_db_ent_def stat_db_loc_def by blast
  have "correct s' = 0 \<and> involve s' = 0 \<and> bigChunkError s' = 0 \<and> smallChunkError s' = 0"
    by (rule foldE_invariant[OF s'(1)[unfolded stat_db_ent_def], where I = "\<lambda>s. correct s = 0 \<and> involve s = 0 \<and> bigChunkError s = 0 \<and> smallChunkError s = 0"])
      (use assms(2-4) in \<open>auto simp: fresh_attack_def stat_db_entry_def uniq_put_def Let_def split: if_splits prod.splits\<close>)
  then have "eattack_inv view s'" using s'(2) by (simp add: eattack_inv_def attack_inv_def image_Un)
  then show ?thesis using s' by blast
qed

lemma attack_loop_ent_total:
  assumes "wf_tables view s" "fits_arrays cfg" "eattack_inv view s"
  shows "\<exists>s'. attack_loop_ent L cfg (Inr s) = Some (Inr s') \<and> eattack_inv view s' \<and> (q_o s' = [] \<or> q_t s' = []) \<and>
    total s' = total s"
proof -
  let ?P = "\<lambda>r. \<exists>s1. r = Inr s1 \<and> eattack_inv view s1 \<and> tables s1 = tables s \<and> total s1 = total s"
  obtain r where r: "attack_loop_ent L cfg (Inr s) = Some r" using attack_loop_ent_terminates by blast
  have step: "?P (bindE r1 (attack_step_ent L cfg))" if P: "?P r1" and run: "attack_running r1" for r1
  proof -
    obtain s1 where s1: "r1 = Inr s1" "eattack_inv view s1" "tables s1 = tables s" "total s1 = total s" using P by blast
    have "q_t s1 \<noteq> []" using run s1(1) by (simp add: attack_running_def)
    moreover have "wf_tables view s1" using assms(1) s1(3) by (simp add: wf_tables_def)
    then obtain s2 where s2: "attack_step_ent L cfg s1 = Inr s2" using attack_step_ent_succeeds assms(2) by blast
    then obtain sj s3 os ts where j: "judge_ent L s1 = Inr sj" "egrows view (unat (QUEUE_LIMIT cfg)) sj s3 os ts"
      "s2 = s3\<lparr>q_o := tl (q_o s3), q_t := tl (q_t s3), involve := involve s3 + 1\<rparr>" by (rule attack_step_ent_grows)
    ultimately have "eattack_inv view s2" using eattack_inv_advance[OF s1(2) _ j(1,2)] by simp
    moreover have "tables s2 = tables s1" "total s2 = total s1" using j(2,3) judge_ent_Inr(5,8)[OF j(1)] by (auto simp: egrows_def)
    ultimately show ?thesis using s1 s2 by simp
  qed
  have start: "?P (Inr s)" using assms(3) by simp
  have "?P r" by (rule while_option_rule[where P = ?P, OF _ r[unfolded attack_loop_ent_def] start]) (rule step)
  moreover have "\<not> attack_running r" using while_option_stop[OF r[unfolded attack_loop_ent_def]] .
  ultimately show ?thesis using r by (auto simp: attack_running_def)
qed

lemma main_loop_ent_total:
  assumes "wf_tables view s" "fits_arrays cfg" "eattack_inv view s" "pq s = []" "ansq s = []"
  shows "\<exists>s'. main_loop_ent L cfg s = Some (Inr s') \<and> eattack_inv view s' \<and> (q_o s' = [] \<or> q_t s' = []) \<and> total s' = total s"
proof -
  have a: "s\<lparr>ansq := []\<rparr> = s" using assms(5) by (cases s) simp
  obtain s1 where s1: "(if LEAK_RATE cfg = 0 then seed_ent L cfg s else Inr s) = Inr s1" "eattack_inv view s1" "tables s1 = tables s" "total s1 = total s"
  proof (cases "LEAK_RATE cfg = 0")
    case True
    obtain s1 os ts where s1: "seed_ent L cfg s = Inr s1" "egrows view (unat (QUEUE_LIMIT cfg)) s s1 os ts"
      using seed_ent_succeeds[OF assms(1,2,4)] by blast
    then show ?thesis using that True eattack_inv_grows[OF assms(3) s1(2)] by (simp add: egrows_def)
  next
    case False
    then show ?thesis using that assms(3) by simp
  qed
  have "wf_tables view s1" using assms(1) s1(3) by (simp add: wf_tables_def)
  then show ?thesis using attack_loop_ent_total[OF _ assms(2) s1(2)] s1(1,4) by (simp add: main_loop_ent_def a)
qed

lemma entropy_run_total:
  assumes "wf_tables view s" "fresh_attack view s" "bigChunkError s = 0" "smallChunkError s = 0" "fits_arrays cfg"
  shows "\<exists>s1 s'. stat_db_ent L cfg rnd s = Inr s1 \<and> main_loop_ent L cfg s1 = Some (Inr s') \<and> eattack_inv view s' \<and>
    (q_o s' = [] \<or> q_t s' = []) \<and> unat (total s') = card (dom (view (target s)))"
proof -
  obtain s1 where s1: "stat_db_ent L cfg rnd s = Inr s1" "eattack_inv view s1" "pq s1 = []" "ansq s1 = []" "tables s1 = tables s"
    "unat (total s1) = card (dom (view (target s)))" using stat_db_ent_start[OF assms(1-4)] by blast
  have "wf_tables view s1" using assms(1) s1(5) by (simp add: wf_tables_def)
  then show ?thesis using main_loop_ent_total[OF _ assms(5) s1(2-4)] s1(1,6) by metis
qed

end

end
