(* ===== verification/LocalityCount.thy ===== *)
theory LocalityCount
  imports AttackBase
begin

text \<open>
  \<open>single_stream/locality_count.cc\<close>: one pass over a trace file that builds the frequency table
  and the two neighbour tables the attack programs read. The theorems relate the three tables to
  the chunk sequence of the trace: the frequency of a chunk is the number of its occurrences, a
  neighbour count the number of adjacent occurrences, and the tables have the format the attacks
  rely on.
\<close>

section \<open>The program\<close>

text \<open>The three stores and the two local variables that live across iterations.\<close>

record 'db lcount =
  cdb :: 'db
  store_left :: 'db
  store_right :: 'db
  last_fp :: bytes
  flag :: bool

definition init_left :: "'db leveldb \<Rightarrow> string \<Rightarrow> 'db lcount \<Rightarrow> cpp_error + 'db lcount" where
  "init_left L left s = bindE (open_db L left) (\<lambda>d. Inr (s\<lparr>store_left := d\<rparr>))"

definition init_right :: "'db leveldb \<Rightarrow> string \<Rightarrow> 'db lcount \<Rightarrow> cpp_error + 'db lcount" where
  "init_right L right s = bindE (open_db L right) (\<lambda>d. Inr (s\<lparr>store_right := d\<rparr>))"

definition init_db_count :: "'db leveldb \<Rightarrow> string \<Rightarrow> 'db lcount \<Rightarrow> cpp_error + 'db lcount" where
  "init_db_count L db_name s = bindE (open_db L db_name) (\<lambda>d. Inr (s\<lparr>cdb := d\<rparr>))"

text \<open>The reference count: read, increment, delete, put back. On a status other than success and
  not-found \<open>count\<close> is used uninitialised. The value \<open>existing_value\<close> is handed on, because the
  next \<open>Get\<close> of the iteration reuses the variable.\<close>

definition count_freq ::
  "'db leveldb \<Rightarrow> bytes \<Rightarrow> 'db lcount \<Rightarrow> cpp_error + (bytes \<times> 'db lcount)" where
  "count_freq L key s =
     (let (status, existing_value) = ldb_get L (cdb s) key [] in
      case status of
        StOk \<Rightarrow> bindE (read_u64 existing_value 0) (\<lambda>count.
                  let d = snd (ldb_delete L (cdb s) key)
                  in Inr (existing_value, s\<lparr>cdb := snd (ldb_put L d key (u64_bytes (count + 1)))\<rparr>))
      | StNotFound \<Rightarrow> Inr (existing_value, s\<lparr>cdb := snd (ldb_put L (cdb s) key (u64_bytes 1))\<rparr>)
      | StError msg \<Rightarrow> Inl Uninitialised)"

text \<open>\<open>last_value.assign(last); last_value.resize(FP_SIZE)\<close>: the array has no terminator of its
  own, so the copy ends at the first NUL in it or in what follows it in memory (\<open>junk\<close>).\<close>

definition assign_resize :: "bytes \<Rightarrow> bytes \<Rightarrow> bytes" where
  "assign_resize junk fp =
     take FP_SIZE (takeWhile (\<lambda>c. c \<noteq> NUL) (fp @ junk) @ replicate FP_SIZE NUL)"

text \<open>The search loop for a neighbour record. For an empty value \<open>size() - 1\<close> wraps around, the loop
  is entered and its comparison reads past the end.\<close>

function find_record :: "bytes \<Rightarrow> bytes \<Rightarrow> nat \<Rightarrow> cpp_error + nat option" where
  "find_record v fp pos =
     (if v = [] then Inl OutOfBounds
      else if pos < length v - 1
      then bindE (read_bytes v pos FP_SIZE) (\<lambda>b.
             if b = fp then Inr (Some pos) else find_record v fp (pos + (FP_SIZE + 8)))
      else Inr None)"
  by pat_completeness auto
termination
  by (relation "measure (\<lambda>(v, _, pos). length v - pos)") auto

declare find_record.simps [simp del]

text \<open>Append a record with count one, or increment the count of the record at \<open>pos\<close>.\<close>

definition put_record :: "bytes \<Rightarrow> bytes \<Rightarrow> nat option \<Rightarrow> cpp_error + bytes" where
  "put_record existing_value fp r =
     (case r of
        None \<Rightarrow> Inr (existing_value @ fp @ u64_bytes 1)
      | Some pos \<Rightarrow>
          bindE (read_u64 existing_value (pos + FP_SIZE)) (\<lambda>icm.
            Inr (take (pos + FP_SIZE) existing_value @ u64_bytes (icm + 1) @
                 drop (pos + FP_SIZE + 8) existing_value)))"

definition bump_value :: "bytes \<Rightarrow> bytes \<Rightarrow> cpp_error + bytes" where
  "bump_value existing_value fp =
     bindE (find_record existing_value fp 0) (put_record existing_value fp)"

text \<open>The update of one neighbour table: \<open>key\<close> is the chunk, \<open>fp\<close> its neighbour, \<open>old\<close> what
  \<open>existing_value\<close> held before. Result: the new content of \<open>existing_value\<close> and of the store.\<close>

definition count_neighbour ::
  "'db leveldb \<Rightarrow> bytes \<Rightarrow> bytes \<Rightarrow> bytes \<Rightarrow> 'db \<Rightarrow> cpp_error + (bytes \<times> 'db)" where
  "count_neighbour L key fp old d =
     (let (status, existing_value) = ldb_get L d key old in
      bindE (case status of
               StOk \<Rightarrow> bindE (bump_value existing_value fp) (\<lambda>v. Inr (v, snd (ldb_delete L d key)))
             | StNotFound \<Rightarrow> Inr (fp @ u64_bytes 1, d)
             | StError msg \<Rightarrow> Inr (existing_value, d))
        (\<lambda>(v, d). Inr (v, snd (ldb_put L d key v))))"

text \<open>The body of the loop for one chunk.\<close>

definition count_chunk ::
  "'db leveldb \<Rightarrow> bytes \<Rightarrow> bytes \<Rightarrow> 'db lcount \<Rightarrow> cpp_error + 'db lcount" where
  "count_chunk L junk hash s =
     bindE (count_freq L hash s) (\<lambda>(existing_value, s).
     bindE (if flag s
            then bindE (count_neighbour L hash (assign_resize junk (last_fp s)) existing_value (store_left s))
                   (\<lambda>(existing_value, dl).
                 bindE (count_neighbour L (last_fp s) (assign_resize junk hash) existing_value (store_right s))
                   (\<lambda>(existing_value, dr). Inr (s\<lparr>store_left := dl, store_right := dr\<rparr>)))
            else Inr s) (\<lambda>s.
       Inr (s\<lparr>last_fp := hash, flag := True\<rparr>)))"

definition count_line ::
  "'db leveldb \<Rightarrow> bytes \<Rightarrow> string \<Rightarrow> 'db lcount \<Rightarrow> cpp_error + 'db lcount" where
  "count_line L junk read_buffer s =
     (if strpbrk read_buffer ''Chunk'' then Inr s
      else count_chunk L junk (fst (parse_hash read_buffer)) s)"

definition read_hashes_count ::
  "'db leveldb \<Rightarrow> bytes \<Rightarrow> string \<Rightarrow> 'db lcount \<Rightarrow> cpp_error + 'db lcount" where
  "read_hashes_count L junk file s =
     foldE (count_line L junk) (fgets_lines file) (s\<lparr>last_fp := replicate FP_SIZE NUL, flag := False\<rparr>)"

text \<open>\<open>fs name\<close> is the content of the file \<open>name\<close>, if it can be opened.\<close>

definition main_count ::
  "'db leveldb \<Rightarrow> bytes \<Rightarrow> (string \<rightharpoonup> string) \<Rightarrow> string list \<Rightarrow> 'db lcount \<Rightarrow> cpp_error + 'db lcount" where
  "main_count L junk fs argv s =
     (if length argv < 5 then Inl AssertFail
      else bindE (init_db_count L (argv ! 2) s) (\<lambda>s.
           bindE (init_left L (argv ! 3) s) (\<lambda>s.
           bindE (init_right L (argv ! 4) s) (\<lambda>s.
             case fs (argv ! 1) of
               None \<Rightarrow> Inl AssertFail
             | Some file \<Rightarrow> read_hashes_count L junk file s))))"

section \<open>Neighbour records as lists\<close>

text \<open>The abstract update: increment the first node with the key, or append a new one.\<close>

fun bump :: "bytes \<Rightarrow> node list \<Rightarrow> node list" where
  "bump fp [] = [\<lparr>nkey = fp, ncount = 1\<rparr>]"
| "bump fp (n # ns) = (if nkey n = fp then n\<lparr>ncount := ncount n + 1\<rparr> # ns else n # bump fp ns)"

definition nodes_count :: "node list \<Rightarrow> bytes \<Rightarrow> u64" where
  "nodes_count ns fp = (case map_of (map (\<lambda>n. (nkey n, ncount n)) ns) fp of None \<Rightarrow> 0 | Some c \<Rightarrow> c)"

lemma nodes_count_Cons: "nodes_count (n # ns) fp = (if nkey n = fp then ncount n else nodes_count ns fp)"
  by (simp add: nodes_count_def)

lemma nodes_count_Nil [simp]: "nodes_count [] fp = 0"
  by (simp add: nodes_count_def)

lemma nodes_count_bump: "nodes_count (bump fp ns) x = nodes_count ns x + (if x = fp then 1 else 0)"
  by (induction ns) (auto simp: nodes_count_Cons)

lemma keys_bump: "nkey ` set (bump fp ns) = insert fp (nkey ` set ns)"
  by (induction ns) auto

lemma wf_nodes_bump: "wf_nodes ns \<Longrightarrow> length fp = FP_SIZE \<Longrightarrow> wf_nodes (bump fp ns)"
  by (induction ns) (auto simp: wf_nodes_def wf_node_def)

lemma distinct_bump: "distinct (map nkey ns) \<Longrightarrow> distinct (map nkey (bump fp ns))"
proof (induction ns)
  case (Cons n ns)
  then show ?case using keys_bump[of fp ns] by auto
qed simp

lemma bump_neq_Nil [simp]: "bump fp ns \<noteq> []"
  by (cases ns) auto

text \<open>The search and the update on the bytes are the search and the update on the list.\<close>

lemma find_record_step:
  assumes "wf_node n"
  shows "find_record (pre @ rec_bytes n @ rest) fp (length pre) =
    (if nkey n = fp then Inr (Some (length pre))
     else find_record (pre @ rec_bytes n @ rest) fp (length pre + (FP_SIZE + 8)))"
proof -
  let ?v = "pre @ rec_bytes n @ rest"
  have "read_bytes (pre @ nkey n @ (u64_bytes (ncount n) @ rest)) (length pre) FP_SIZE = Inr (nkey n)"
    using assms by (intro read_bytes_at) (auto simp: wf_node_def)
  then have r: "read_bytes ?v (length pre) FP_SIZE = Inr (nkey n)" by (simp add: rec_bytes_def)
  have l: "length (rec_bytes n) = FP_SIZE + 8" using assms by (rule length_rec_bytes)
  then have "?v \<noteq> []" "length pre < length ?v - 1" by auto
  then show ?thesis
    by (subst find_record.simps) (simp only: r bindE_simps if_False if_True)
qed

lemma bump_value_at:
  assumes "wf_nodes ns" "length fp = FP_SIZE" "pre @ concat (map rec_bytes ns) \<noteq> []"
  shows "bindE (find_record (pre @ concat (map rec_bytes ns)) fp (length pre))
      (put_record (pre @ concat (map rec_bytes ns)) fp)
    = Inr (pre @ concat (map rec_bytes (bump fp ns)))"
  using assms(1,3)
proof (induction ns arbitrary: pre)
  case Nil
  then have "find_record pre fp (length pre) = Inr None"
    by (subst find_record.simps) auto
  then show ?case by (simp add: rec_bytes_def put_record_def)
next
  case (Cons n ns)
  let ?rest = "concat (map rec_bytes ns)"
  have wf: "wf_node n" "wf_nodes ns" using Cons.prems(1) by (auto simp: wf_nodes_def)
  have len: "length (rec_bytes n) = FP_SIZE + 8" using wf(1) by (rule length_rec_bytes)
  note step = find_record_step[OF wf(1), of pre ?rest fp]
  show ?case
  proof (cases "nkey n = fp")
    case True
    have "read_u64 ((pre @ fp) @ u64_bytes (ncount n) @ ?rest) (length pre + FP_SIZE) = Inr (ncount n)"
      using assms(2) by (intro read_u64_at) simp
    moreover have "rec_bytes n = fp @ u64_bytes (ncount n)"
      "rec_bytes (n\<lparr>ncount := ncount n + 1\<rparr>) = fp @ u64_bytes (ncount n + 1)"
      using True by (simp_all add: rec_bytes_def)
    ultimately show ?thesis
      using True assms(2) step by (simp add: put_record_def)
  next
    case False
    have v: "pre @ rec_bytes n @ ?rest = (pre @ rec_bytes n) @ ?rest"
      "length pre + (FP_SIZE + 8) = length (pre @ rec_bytes n)"
      using len by simp_all
    have "find_record (pre @ rec_bytes n @ ?rest) fp (length pre) =
        find_record ((pre @ rec_bytes n) @ ?rest) fp (length (pre @ rec_bytes n))"
      using step False unfolding v by simp
    moreover have "(pre @ rec_bytes n) @ ?rest \<noteq> []" using len by auto
    note Cons.IH[OF wf(2) this]
    ultimately show ?thesis using False by simp
  qed
qed

lemma bump_value_bump:
  assumes "wf_nodes ns" "ns \<noteq> []" "length fp = FP_SIZE"
  shows "bump_value (concat (map rec_bytes ns)) fp = Inr (concat (map rec_bytes (bump fp ns)))"
proof -
  have "length (concat (map rec_bytes ns)) \<noteq> 0"
    using assms(1,2) length_concat_rec_bytes[of ns] by (simp add: wf_nodes_def)
  then have "[] @ concat (map rec_bytes ns) \<noteq> []" by (metis append_Nil list.size(3))
  from bump_value_at[OF assms(1,3) this] show ?thesis by (simp add: bump_value_def)
qed

section \<open>The tables of a chunk sequence\<close>

text \<open>The pairs of a chunk and its neighbour, as they are counted: the neighbour is recorded
  through \<open>assign_resize\<close>, which cuts it at a NUL byte.\<close>

definition recorded :: "bytes \<Rightarrow> bytes" where
  "recorded fp = assign_resize [] fp"

definition left_pairs :: "bytes list \<Rightarrow> (bytes \<times> bytes) list" where
  "left_pairs xs = map (\<lambda>(p, q). (q, recorded p)) (zip xs (tl xs))"

definition right_pairs :: "bytes list \<Rightarrow> (bytes \<times> bytes) list" where
  "right_pairs xs = map (\<lambda>(p, q). (p, recorded q)) (zip xs (tl xs))"

text \<open>The neighbour records of chunk \<open>x\<close> after counting the pairs \<open>ps\<close> in order.\<close>

definition records_of :: "(bytes \<times> bytes) list \<Rightarrow> bytes \<Rightarrow> node list" where
  "records_of ps x = fold bump (map snd (filter (\<lambda>p. fst p = x) ps)) []"

definition freq_spec :: "bytes list \<Rightarrow> bytes \<rightharpoonup> bytes" where
  "freq_spec xs x = (if x \<in> set xs then Some (u64_bytes (word_of_nat (count_list xs x))) else None)"

definition assoc_spec :: "(bytes \<times> bytes) list \<Rightarrow> bytes \<rightharpoonup> bytes" where
  "assoc_spec ps x =
     (if x \<in> fst ` set ps then Some (concat (map rec_bytes (records_of ps x))) else None)"

lemma takeWhile_no_nul: "NUL \<notin> set fp \<Longrightarrow> takeWhile (\<lambda>c. c \<noteq> NUL) (fp @ ys) = fp @ takeWhile (\<lambda>c. c \<noteq> NUL) ys"
  by (rule takeWhile_append2) auto

lemma assign_resize_junk:
  assumes "length fp = FP_SIZE"
  shows "assign_resize junk fp = recorded fp"
proof (cases "NUL \<in> set fp")
  case True
  then have "takeWhile (\<lambda>c. c \<noteq> NUL) (fp @ ys) = takeWhile (\<lambda>c. c \<noteq> NUL) fp" for ys
    by (intro takeWhile_append1) auto
  then show ?thesis by (simp add: assign_resize_def recorded_def)
next
  case False
  then show ?thesis using assms by (simp add: assign_resize_def recorded_def takeWhile_no_nul del: append_Nil2)
qed

lemma length_assign_resize [simp]: "length (assign_resize junk fp) = FP_SIZE"
  by (simp add: assign_resize_def)

lemma recorded_id: "length fp = FP_SIZE \<Longrightarrow> NUL \<notin> set fp \<Longrightarrow> recorded fp = fp"
  by (simp add: recorded_def assign_resize_def takeWhile_no_nul del: append_Nil2)

lemma length_recorded [simp]: "length (recorded fp) = FP_SIZE"
  by (simp add: recorded_def)

lemma records_of_snoc:
  "records_of (ps @ [(k, y)]) x = (if k = x then bump y (records_of ps x) else records_of ps x)"
  by (simp add: records_of_def)

lemma records_of_wf:
  "\<forall>p \<in> set ps. length (snd p) = FP_SIZE \<Longrightarrow> wf_nodes (records_of ps x) \<and> distinct (map nkey (records_of ps x))"
proof (induction ps rule: rev_induct)
  case (snoc p ps)
  then show ?case
    by (cases p) (auto simp: records_of_snoc wf_nodes_bump distinct_bump)
qed (simp add: records_of_def wf_nodes_def)

lemma records_of_Nil_iff: "records_of ps x = [] \<longleftrightarrow> x \<notin> fst ` set ps"
proof (induction ps rule: rev_induct)
  case (snoc p ps)
  then show ?case by (cases p) (auto simp: records_of_snoc)
qed (simp add: records_of_def)

text \<open>The count of a neighbour is the number of pairs it occurs in.\<close>

lemma nodes_count_records_of:
  "nodes_count (records_of ps x) y = word_of_nat (count_list ps (x, y))"
proof (induction ps rule: rev_induct)
  case (snoc p ps)
  then show ?case
    by (cases p) (auto simp: records_of_snoc nodes_count_bump)
qed (simp add: records_of_def)

lemma zip_tl_snoc: "xs \<noteq> [] \<Longrightarrow> zip (xs @ [x]) (tl (xs @ [x])) = zip xs (tl xs) @ [(last xs, x)]"
proof (induction xs)
  case (Cons a xs)
  then show ?case by (cases xs) auto
qed simp

section \<open>One pass\<close>

text \<open>After the chunks \<open>xs\<close> the stores hold the tables of \<open>xs\<close>.\<close>

definition count_rel :: "('db \<Rightarrow> bytes \<rightharpoonup> bytes) \<Rightarrow> bytes list \<Rightarrow> 'db lcount \<Rightarrow> bool" where
  "count_rel view xs s \<longleftrightarrow>
     view (cdb s) = freq_spec xs \<and> view (store_left s) = assoc_spec (left_pairs xs) \<and>
     view (store_right s) = assoc_spec (right_pairs xs) \<and>
     flag s = (xs \<noteq> []) \<and> (xs \<noteq> [] \<longrightarrow> last_fp s = last xs)"

lemma freq_spec_snoc:
  "freq_spec (xs @ [x]) = (freq_spec xs)(x \<mapsto> u64_bytes (word_of_nat (count_list xs x) + 1))"
  by (auto simp: freq_spec_def fun_eq_iff)

lemma assoc_spec_snoc:
  "assoc_spec (ps @ [(k, y)]) = (assoc_spec ps)(k \<mapsto> concat (map rec_bytes (bump y (records_of ps k))))"
  by (auto simp: assoc_spec_def fun_eq_iff records_of_snoc)

context leveldb_laws
begin

lemma count_freq_spec:
  assumes "view (cdb s) = freq_spec xs"
  shows "\<exists>v d. count_freq L x s = Inr (v, s\<lparr>cdb := d\<rparr>) \<and> view d = freq_spec (xs @ [x])"
proof (cases "x \<in> set xs")
  case True
  then have "view (cdb s) x = Some (u64_bytes (word_of_nat (count_list xs x)))"
    by (simp add: assms freq_spec_def)
  then have "count_freq L x s = Inr (u64_bytes (word_of_nat (count_list xs x)),
      s\<lparr>cdb := snd (ldb_put L (snd (ldb_delete L (cdb s) x)) x (u64_bytes (word_of_nat (count_list xs x) + 1)))\<rparr>)"
    by (simp add: count_freq_def get_hit)
  then show ?thesis
    by (intro exI conjI) (assumption, simp add: view_put view_delete assms freq_spec_snoc)
next
  case False
  then have "view (cdb s) x = None" "count_list xs x = 0" by (simp_all add: assms freq_spec_def)
  then have "count_freq L x s = Inr ([], s\<lparr>cdb := snd (ldb_put L (cdb s) x (u64_bytes (word_of_nat (count_list xs x) + 1)))\<rparr>)"
    by (simp add: count_freq_def get_miss)
  then show ?thesis
    by (intro exI conjI) (assumption, simp add: view_put assms freq_spec_snoc)
qed

lemma count_neighbour_spec:
  assumes "view d = assoc_spec ps" "\<forall>p \<in> set ps. length (snd p) = FP_SIZE" "length y = FP_SIZE"
  shows "\<exists>v d'. count_neighbour L x y old d = Inr (v, d') \<and> view d' = assoc_spec (ps @ [(x, y)])"
proof (cases "x \<in> fst ` set ps")
  case True
  then have "view d x = Some (concat (map rec_bytes (records_of ps x)))"
    by (simp add: assms assoc_spec_def)
  moreover have "bump_value (concat (map rec_bytes (records_of ps x))) y =
      Inr (concat (map rec_bytes (bump y (records_of ps x))))"
    using True records_of_wf[OF assms(2)] records_of_Nil_iff assms(3) by (intro bump_value_bump) auto
  ultimately show ?thesis
    by (simp add: count_neighbour_def get_hit view_put view_delete assms(1) assoc_spec_snoc)
next
  case False
  then have "view d x = None" "records_of ps x = []"
    by (simp_all add: assms(1) assoc_spec_def records_of_Nil_iff)
  then show ?thesis
    by (simp add: count_neighbour_def get_miss view_put assms(1) assoc_spec_snoc rec_bytes_def)
qed

end

lemma left_pairs_snoc: "xs \<noteq> [] \<Longrightarrow> left_pairs (xs @ [x]) = left_pairs xs @ [(x, recorded (last xs))]"
  unfolding left_pairs_def zip_tl_snoc by simp

lemma right_pairs_snoc: "xs \<noteq> [] \<Longrightarrow> right_pairs (xs @ [x]) = right_pairs xs @ [(last xs, recorded x)]"
  unfolding right_pairs_def zip_tl_snoc by simp

lemma pairs_recorded:
  "\<forall>p \<in> set (left_pairs xs). length (snd p) = FP_SIZE" "\<forall>p \<in> set (right_pairs xs). length (snd p) = FP_SIZE"
  by (auto simp: left_pairs_def right_pairs_def)

lemma pairs_single: "left_pairs [x] = []" "right_pairs [x] = []" "left_pairs [] = []" "right_pairs [] = []"
  by (simp_all add: left_pairs_def right_pairs_def)

context leveldb_laws
begin

lemma count_chunk_rel:
  assumes rel: "count_rel view xs s" and len: "length x = FP_SIZE" "\<forall>y \<in> set xs. length y = FP_SIZE"
  shows "\<exists>s'. count_chunk L junk x s = Inr s' \<and> count_rel view (xs @ [x]) s'"
proof -
  obtain v d where f: "count_freq L x s = Inr (v, s\<lparr>cdb := d\<rparr>)" "view d = freq_spec (xs @ [x])"
    using count_freq_spec rel unfolding count_rel_def by blast
  show ?thesis
  proof (cases "xs = []")
    case True
    then show ?thesis using f rel by (simp add: count_chunk_def count_rel_def pairs_single)
  next
    case False
    have junk: "assign_resize junk (last xs) = recorded (last xs)" "assign_resize junk x = recorded x"
      using assign_resize_junk len False by auto
    have views: "view (store_left s) = assoc_spec (left_pairs xs)"
      "view (store_right s) = assoc_spec (right_pairs xs)" using rel by (simp_all add: count_rel_def)
    obtain v1 dl where l: "count_neighbour L x (recorded (last xs)) v (store_left s) = Inr (v1, dl)"
      "view dl = assoc_spec (left_pairs (xs @ [x]))"
      using count_neighbour_spec[OF views(1) pairs_recorded(1) length_recorded]
      unfolding left_pairs_snoc[OF False] by blast
    obtain v2 dr where r: "count_neighbour L (last xs) (recorded x) v1 (store_right s) = Inr (v2, dr)"
      "view dr = assoc_spec (right_pairs (xs @ [x]))"
      using count_neighbour_spec[OF views(2) pairs_recorded(2) length_recorded]
      unfolding right_pairs_snoc[OF False] by blast
    show ?thesis
      using f l r rel False by (simp add: count_chunk_def count_rel_def junk)
  qed
qed

lemma count_chunks_rel:
  assumes "count_rel view xs s" "\<forall>y \<in> set xs \<union> set ys. length y = FP_SIZE"
  shows "\<exists>s'. foldE (count_chunk L junk) ys s = Inr s' \<and> count_rel view (xs @ ys) s'"
  using assms
proof (induction ys arbitrary: xs s)
  case (Cons y ys)
  have "length y = FP_SIZE" "\<forall>x \<in> set xs. length x = FP_SIZE" using Cons.prems(2) by auto
  then obtain s1 where s1: "count_chunk L junk y s = Inr s1" "count_rel view (xs @ [y]) s1"
    using count_chunk_rel[OF Cons.prems(1)] by blast
  from Cons.IH[OF s1(2)] Cons.prems(2) s1(1) show ?case by auto
qed simp

end

text \<open>The chunk sequence of a trace file: every line that is not skipped, parsed.\<close>

definition trace_chunks :: "string \<Rightarrow> bytes list" where
  "trace_chunks file = map (\<lambda>l. fst (parse_hash l)) (trace_lines file)"

lemma foldE_count_line:
  "foldE (count_line L junk) (fgets_lines file) s = foldE (count_chunk L junk) (trace_chunks file) s"
  unfolding count_line_def [abs_def] trace_chunks_def trace_lines_def by (rule foldE_skip)

lemma trace_chunks_concat:
  assumes "\<forall>(fp, cols) \<in> set ls. length fp = FP_SIZE \<and> plain_cols cols"
  shows "trace_chunks (concat (map (\<lambda>(fp, cols). trace_line fp cols) ls)) = map fst ls"
  using assms unfolding trace_chunks_def trace_lines_concat[OF assms]
  by (auto simp: parse_trace_line)

text \<open>Both neighbour tables, seen through the count of each recorded neighbour.\<close>

definition neighbour_counts :: "(bytes \<rightharpoonup> bytes) \<Rightarrow> (bytes \<times> bytes) list \<Rightarrow> bool" where
  "neighbour_counts m ps \<longleftrightarrow> (\<forall>x. \<exists>ns. wf_nodes ns \<and> distinct (map nkey ns) \<and>
     m x = (if ns = [] then None else Some (concat (map rec_bytes ns))) \<and>
     (\<forall>y. nodes_count ns y = word_of_nat (count_list ps (x, y))))"

lemma neighbour_counts_assoc_spec:
  assumes "\<forall>p \<in> set ps. length (snd p) = FP_SIZE"
  shows "neighbour_counts (assoc_spec ps) ps"
  unfolding neighbour_counts_def
proof
  fix x
  show "\<exists>ns. wf_nodes ns \<and> distinct (map nkey ns) \<and>
     assoc_spec ps x = (if ns = [] then None else Some (concat (map rec_bytes ns))) \<and>
     (\<forall>y. nodes_count ns y = word_of_nat (count_list ps (x, y)))"
    using records_of_wf[OF assms, of x] records_of_Nil_iff[of ps x] nodes_count_records_of[of ps x]
    by (intro exI[of _ "records_of ps x"]) (auto simp: assoc_spec_def)
qed

lemma neighbour_counts_assoc_table: "neighbour_counts m ps \<Longrightarrow> assoc_table m"
  unfolding neighbour_counts_def assoc_table_def by (metis option.distinct(1) option.inject)

section \<open>Properties of the counting program\<close>

definition empty_count :: "('db \<Rightarrow> bytes \<rightharpoonup> bytes) \<Rightarrow> 'db lcount \<Rightarrow> bool" where
  "empty_count view s \<longleftrightarrow> view (cdb s) = Map.empty \<and> view (store_left s) = Map.empty \<and>
     view (store_right s) = Map.empty"

lemma read_hashes_count_rel:
  assumes "leveldb_laws L view" "empty_count view s"
  shows "\<exists>s'. read_hashes_count L junk file s = Inr s' \<and> count_rel view (trace_chunks file) s'"
proof -
  have start: "count_rel view [] (s\<lparr>last_fp := replicate FP_SIZE NUL, flag := False\<rparr>)"
    using assms(2)
    by (auto simp: count_rel_def empty_count_def freq_spec_def assoc_spec_def pairs_single fun_eq_iff)
  have "\<forall>y \<in> set [] \<union> set (trace_chunks file). length y = FP_SIZE" by (auto simp: trace_chunks_def)
  from leveldb_laws.count_chunks_rel[OF assms(1) start this]
  show ?thesis by (simp add: read_hashes_count_def foldE_count_line)
qed


definition demo_lcount :: "mem_db lcount" where
  "demo_lcount = \<lparr>cdb = [], store_left = [], store_right = [], last_fp = [], flag = False\<rparr>"

lemma demo_lcount_empty: "empty_count map_of demo_lcount"
  by (simp add: empty_count_def demo_lcount_def)


lemma count_rel_tables:
  assumes "count_rel view (trace_chunks file) s"
  shows "freq_table (view (cdb s))" "dom (view (cdb s)) = set (trace_chunks file)"
    "assoc_table (view (store_left s))" "assoc_table (view (store_right s))"
proof -
  have "\<forall>x \<in> set (trace_chunks file). length x = FP_SIZE" by (auto simp: trace_chunks_def)
  then show "freq_table (view (cdb s))" "dom (view (cdb s)) = set (trace_chunks file)"
    using assms by (auto simp: count_rel_def freq_table_def freq_spec_def dom_def split: if_splits)
  show "assoc_table (view (store_left s))" "assoc_table (view (store_right s))"
    using assms neighbour_counts_assoc_spec[OF pairs_recorded(1), THEN neighbour_counts_assoc_table]
      neighbour_counts_assoc_spec[OF pairs_recorded(2), THEN neighbour_counts_assoc_table]
    by (simp_all add: count_rel_def)
qed

text \<open>C14. The tables of one trace are well-formed input for the attacks: the frequency store
  holds six-byte keys with eight-byte counts, the neighbour stores sequences of whole records.\<close>

theorem count_tables_well_formed:
  assumes "leveldb_laws L view" "empty_count view s" "read_hashes_count L junk file s = Inr s'"
  shows "freq_table (view (cdb s')) \<and> assoc_table (view (store_left s')) \<and> assoc_table (view (store_right s'))"
proof -
  obtain s1 where "read_hashes_count L junk file s = Inr s1" "count_rel view (trace_chunks file) s1"
    using read_hashes_count_rel[OF assms(1,2)] by blast
  with assms(3) show ?thesis using count_rel_tables by auto
qed

theorem count_tables_well_formed_witness:
  "\<exists>s'. read_hashes_count (mem_leveldb (\<lambda>_. [])) [] ''61:62:63:64:65:66'' demo_lcount = Inr s' \<and>
    freq_table (map_of (cdb s')) \<and> assoc_table (map_of (store_left s')) \<and> assoc_table (map_of (store_right s'))"
proof -
  obtain s' where s': "read_hashes_count (mem_leveldb (\<lambda>_. [])) [] ''61:62:63:64:65:66'' demo_lcount = Inr s'"
    using read_hashes_count_rel[OF mem.leveldb_laws_axioms demo_lcount_empty] by blast
  from count_tables_well_formed[OF mem.leveldb_laws_axioms demo_lcount_empty s'] s' show ?thesis by blast
qed

text \<open>Reading back a printed trace: the chunk sequence of a file made of trace lines is the
  sequence of their fingerprints, whatever the other columns are.\<close>

lemma trace_chunks_roundtrip:
  assumes "\<forall>(fp, cols) \<in> set ls. length fp = FP_SIZE \<and> plain_cols cols"
  shows "trace_chunks (concat (map (\<lambda>(fp, cols). fp_text fp @ TAB # cols @ [LF]) ls)) = map fst ls"
  using trace_chunks_concat[OF assms] by (simp add: trace_line_def)

lemma trace_chunks_roundtrip_witness:
  "trace_chunks (concat (map (\<lambda>(fp, cols). fp_text fp @ TAB # cols @ [LF]) [(''abcdef'', ''4096'')])) = [''abcdef'']"
  using trace_chunks_roundtrip[of "[(''abcdef'', ''4096'')]"] by (simp add: plain_cols_def strpbrk_def)

text \<open>Two different fingerprints that agree up to a zero byte are recorded as the same
  neighbour, because the six-byte array is copied as a C string.\<close>

lemma recorded_collision:
  assumes "length pre < FP_SIZE" "length (pre @ NUL # a) = FP_SIZE" "length (pre @ NUL # b) = FP_SIZE"
  shows "assign_resize junk (pre @ NUL # a) = assign_resize junk (pre @ NUL # b)"
proof -
  have "takeWhile (\<lambda>c. c \<noteq> NUL) ((pre @ NUL # x) @ junk) = takeWhile (\<lambda>c. c \<noteq> NUL) (pre @ [NUL])" for x
    by (induction pre) auto
  then show ?thesis by (simp add: assign_resize_def)
qed

lemma recorded_collision_witness:
  "assign_resize [] (''ab'' @ NUL # ''cde'') = assign_resize [] (''ab'' @ NUL # ''xyz'')"
  by (rule recorded_collision) simp_all

end
