(* ===== verification/Segment.thy ===== *)
theory Segment
  imports CLib LevelDB PQueue
begin

text \<open>
  What the MinHash and segmentation programs (\<open>k_minhash.cc\<close>, \<open>pslice.cc\<close>, \<open>cslice.cc\<close>) share: the
  struct \<open>node\<close> of a chunk with its size, the comparator, the MinHash queue, the parsing of a trace
  line with its size column, and the cutting of the chunk sequence into segments. The locale
  \<open>segment_store\<close> is the contract of a program's \<open>process_seg\<close>; the loop that calls it is proved
  once to store the greedy segmentation of the trace.
\<close>

section \<open>Chunks and the MinHash queue\<close>

record chunk =
  ckey :: bytes
  csize :: u64

text \<open>\<open>return memcmp(b.key, a.key, FP_SIZE)\<close>, converted to bool: true when the keys differ.\<close>

definition cmp_key :: "chunk \<Rightarrow> chunk \<Rightarrow> bool" where
  "cmp_key a b \<longleftrightarrow> ckey b \<noteq> ckey a"

definition K_MINHASH :: nat where
  "K_MINHASH = 1"

definition SEG_SIZE :: u64 where
  "SEG_SIZE = 2 ^ 23"

text \<open>\<open>memcmp(max.key, entry.key, FP_SIZE) > 0\<close> on keys of equal length is the lexicographic order.\<close>

definition minhash_insert :: "chunk \<Rightarrow> chunk list \<Rightarrow> chunk list" where
  "minhash_insert entry pq =
     (if length pq < K_MINHASH then pq_push cmp_key entry pq
      else let max = pq_top pq in
           if ckey max > ckey entry then pq_push cmp_key entry (pq_pop cmp_key pq) else pq)"

text \<open>The start of \<open>process_seg\<close>: \<open>rand() % K_MINHASH\<close> elements are dropped, the next is the core.\<close>

definition pick_core :: "nat \<Rightarrow> chunk list \<Rightarrow> cpp_error + chunk" where
  "pick_core rand pq =
     (let q = (pq_pop cmp_key ^^ (rand mod K_MINHASH)) pq
      in if q = [] then Inl EmptyTop else Inr (pq_top q))"

definition chunk_of_line :: "string \<Rightarrow> cpp_error + chunk" where
  "chunk_of_line read_buffer =
     (let (hash, item) = parse_hash read_buffer
      in bindE (item_size item) (\<lambda>sz. Inr \<lparr>ckey = hash, csize = sz\<rparr>))"

section \<open>The chunks of a trace\<close>

fun mapE :: "('a \<Rightarrow> 'e + 'b) \<Rightarrow> 'a list \<Rightarrow> 'e + 'b list" where
  "mapE f [] = Inr []"
| "mapE f (x # xs) = bindE (f x) (\<lambda>y. bindE (mapE f xs) (\<lambda>ys. Inr (y # ys)))"

definition trace_entries :: "string \<Rightarrow> cpp_error + chunk list" where
  "trace_entries file = mapE chunk_of_line (trace_lines file)"

lemma foldE_mapE:
  "mapE g xs = Inr ys \<Longrightarrow> foldE (\<lambda>x s. bindE (g x) (\<lambda>y. f y s)) xs s = foldE f ys s"
proof (induction xs arbitrary: ys s)
  case (Cons x xs)
  then obtain y zs where y: "g x = Inr y" "mapE g xs = Inr zs" "ys = y # zs" by auto
  then have "foldE (\<lambda>x s. bindE (g x) (\<lambda>y. f y s)) xs = foldE f zs"
    using Cons.IH by (auto simp: fun_eq_iff)
  then show ?case using y by simp
qed simp

lemma foldE_trace_entries:
  assumes "trace_entries file = Inr cs"
  shows "foldE (\<lambda>l s. if strpbrk l ''Chunk'' then Inr s else bindE (chunk_of_line l) (\<lambda>c. f c s))
    (fgets_lines file) s = foldE f cs s"
proof -
  have "foldE (\<lambda>l s. if strpbrk l ''Chunk'' then Inr s else bindE (chunk_of_line l) (\<lambda>c. f c s)) (fgets_lines file) s
    = foldE (\<lambda>l s. bindE (chunk_of_line l) (\<lambda>c. f c s)) (map (\<lambda>x. x) (trace_lines file)) s"
    unfolding trace_lines_def by (rule foldE_skip)
  also have "\<dots> = foldE f cs s"
    using foldE_mapE[OF assms[unfolded trace_entries_def]] by simp
  finally show ?thesis .
qed

lemma mapE_chunk_keys:
  "mapE chunk_of_line ls = Inr cs \<Longrightarrow> \<forall>c \<in> set cs. length (ckey c) = FP_SIZE"
proof (induction ls arbitrary: cs)
  case (Cons l ls)
  then obtain y ys where y: "chunk_of_line l = Inr y" "mapE chunk_of_line ls = Inr ys" "cs = y # ys" by auto
  have "length (ckey y) = FP_SIZE"
    using y(1) length_parse_hash[of l] by (auto simp: chunk_of_line_def case_prod_beta)
  then show ?case using Cons.IH[OF y(2)] y(3) by simp
qed simp

lemma trace_entries_keys:
  assumes "trace_entries file = Inr cs"
  shows "\<forall>c \<in> set cs. length (ckey c) = FP_SIZE"
  by (rule mapE_chunk_keys[OF assms[unfolded trace_entries_def]])

text \<open>A printed trace is read back: the size column is the first one after the fingerprint; what
  follows the digits of the size in its column is ignored.\<close>

lemma chunk_of_size_line:
  assumes "length fp = FP_SIZE" "unat w < 2 ^ 31" "set pre \<subseteq> {TAB}" "d \<in> {TAB, LF}"
    "set sfx \<inter> {CHR '':'', TAB, LF} = {}" "sfx = [] \<or> \<not> digit_of (hd sfx) < 10"
  shows "chunk_of_line (fp_text fp @ TAB # pre @ to_string w @ sfx @ d # rest) = Inr \<lparr>ckey = fp, csize = w\<rparr>"
proof -
  let ?ds = "[CHR '':'', TAB, LF]"
  have tok: "set (to_string w @ sfx) \<inter> set ?ds = {}"
    using dec_nat_plain(2,3,5) assms(5) unfolding to_string_def by fastforce
  have "strtok ?ds (pre @ (to_string w @ sfx) @ d # rest) = strtok ?ds ((to_string w @ sfx) @ d # rest)"
    using assms(3) by (intro strtok_skips) auto
  also have "\<dots> = Some (to_string w @ sfx, rest)"
    using tok assms(4) by (intro strtok_token) (auto simp: to_string_def)
  finally have "parse_hash (fp_text fp @ TAB # pre @ to_string w @ sfx @ d # rest) = (fp, Some (to_string w @ sfx))"
    using parse_hash_fp_text[OF assms(1)] by simp
  moreover have "atoi (to_string w @ sfx) = int (unat w)"
    unfolding to_string_def using assms(2,6) by (rule atoi_dec_nat)
  ultimately show ?thesis by (simp add: chunk_of_line_def item_size_def)
qed

lemma chunk_of_trace_line:
  assumes "length (ckey c) = FP_SIZE" "unat (csize c) < 2 ^ 31"
  shows "chunk_of_line (fp_text (ckey c) @ TAB # to_string (csize c) @ TAB # cols) = Inr c"
  using chunk_of_size_line[OF assms, of "[]" TAB "[]" cols] by simp

lemma mapE_all: "\<forall>x \<in> set xs. f (g x) = Inr (h x) \<Longrightarrow> mapE f (map g xs) = Inr (map h xs)"
  by (induction xs) auto

section \<open>The minimum of a segment\<close>

lemma pq_singleton [simp]: "pq_push lt x [] = [x]" "pq_pop lt [x] = []" "pq_top [x] = x"
  by (simp_all add: pq_push_def sift_up.simps pq_pop_def pq_top_def)

lemma minhash_insert_simps:
  "minhash_insert c [] = [c]"
  "minhash_insert c [m] = [if ckey c < ckey m then c else m]"
  by (simp_all add: minhash_insert_def K_MINHASH_def)

definition min_key :: "chunk list \<Rightarrow> bytes" where
  "min_key seg = Min (ckey ` set seg)"

lemma fold_minhash_insert:
  "seg \<noteq> [] \<Longrightarrow> \<exists>c. fold minhash_insert seg [] = [c] \<and> c \<in> set seg \<and> ckey c = min_key seg"
proof (induction seg rule: rev_induct)
  case (snoc c seg)
  show ?case
  proof (cases "seg = []")
    case True
    then show ?thesis by (simp add: minhash_insert_simps min_key_def)
  next
    case False
    then obtain m where m: "fold minhash_insert seg [] = [m]" "m \<in> set seg" "ckey m = min_key seg"
      using snoc.IH by blast
    have "min_key (seg @ [c]) = min (ckey c) (min_key seg)"
      using False by (simp add: min_key_def Min_insert2 Min.insert_not_elem insert_absorb image_insert)
    then show ?thesis using m by (auto simp: minhash_insert_simps min_def)
  qed
qed simp

lemma pick_core_fold:
  assumes "seg \<noteq> []"
  shows "\<exists>c. pick_core r (fold minhash_insert seg []) = Inr c \<and> ckey c = min_key seg"
  using fold_minhash_insert[OF assms] by (auto simp: pick_core_def K_MINHASH_def)

section \<open>The segmentation\<close>

text \<open>The greedy cut: a chunk that would take the current segment above \<open>SEG_SIZE\<close> starts the next.\<close>

fun segments :: "chunk list \<Rightarrow> u64 \<Rightarrow> chunk list \<Rightarrow> chunk list list" where
  "segments sq sq_size [] = [sq]"
| "segments sq sq_size (c # cs) =
     (if sq_size + csize c > SEG_SIZE then sq # segments [c] (csize c) cs
      else segments (sq @ [c]) (sq_size + csize c) cs)"

text \<open>The loop that calls \<open>process\<close> on every segment that is full, and on the last one at the end.\<close>

definition seg_chunk ::
  "(chunk list \<Rightarrow> 's \<Rightarrow> cpp_error + 's) \<Rightarrow> chunk \<Rightarrow> chunk list \<times> u64 \<times> 's \<Rightarrow> cpp_error + (chunk list \<times> u64 \<times> 's)" where
  "seg_chunk process c = (\<lambda>(sq, sq_size, s).
     bindE (if sq_size + csize c > SEG_SIZE then bindE (process sq s) (\<lambda>s. Inr ([], 0, s))
            else Inr (sq, sq_size, s)) (\<lambda>(sq, sq_size, s).
       Inr (sq @ [c], sq_size + csize c, s)))"

definition seg_run :: "(chunk list \<Rightarrow> 's \<Rightarrow> cpp_error + 's) \<Rightarrow> chunk list \<Rightarrow> 's \<Rightarrow> cpp_error + 's" where
  "seg_run process cs s =
     bindE (foldE (seg_chunk process) cs ([], 0, s)) (\<lambda>(sq, _, s). process sq s)"

lemma seg_run_segments:
  "bindE (foldE (seg_chunk process) cs (sq, sz, s)) (\<lambda>(sq, _, s). process sq s) =
   foldE process (segments sq sz cs) s"
proof (induction cs arbitrary: sq sz s)
  case Nil
  then show ?case by (cases "process sq s") auto
next
  case (Cons c cs)
  show ?case
  proof (cases "sz + csize c > SEG_SIZE")
    case True
    then show ?thesis
      using Cons.IH by (cases "process sq s") (auto simp: seg_chunk_def)
  next
    case False
    then show ?thesis using Cons.IH by (simp add: seg_chunk_def)
  qed
qed

lemma seg_run_foldE: "seg_run process cs s = foldE process (segments [] 0 cs) s"
  unfolding seg_run_def by (rule seg_run_segments)

text \<open>The cut loses and reorders nothing.\<close>

lemma concat_segments: "concat (segments sq sz cs) = sq @ cs"
  by (induction sq sz cs rule: segments.induct) auto

lemma segments_neq_Nil [simp]: "segments sq sz cs \<noteq> []"
  by (induction sq sz cs rule: segments.induct) auto

text \<open>The size of a segment, without wrap-around.\<close>

definition seg_bytes :: "chunk list \<Rightarrow> nat" where
  "seg_bytes seg = (\<Sum>c \<leftarrow> seg. unat (csize c))"

definition small_chunks :: "chunk list \<Rightarrow> bool" where
  "small_chunks cs \<longleftrightarrow> (\<forall>c \<in> set cs. csize c \<le> SEG_SIZE)"

lemma unat_SEG_SIZE: "unat SEG_SIZE = 2 ^ 23"
  by (simp add: SEG_SIZE_def)

lemma unat_add_small:
  assumes "a \<le> SEG_SIZE" "b \<le> SEG_SIZE"
  shows "unat (a + b) = unat a + unat b"
proof -
  have "unat a \<le> 2 ^ 23" "unat b \<le> 2 ^ 23"
    using assms by (simp_all add: word_le_nat_alt unat_SEG_SIZE)
  then show ?thesis by (simp add: unat_word_ariths)
qed

lemma segments_bounds:
  assumes "small_chunks cs" "sq_size \<le> SEG_SIZE" "unat sq_size = seg_bytes sq" "sq \<noteq> [] \<or> sq_size = 0"
    "sq \<noteq> [] \<or> cs \<noteq> []"
  shows "\<forall>seg \<in> set (segments sq sq_size cs). seg \<noteq> [] \<and> seg_bytes seg \<le> 2 ^ 23"
  using assms
proof (induction sq sq_size cs rule: segments.induct)
  case (1 sq sq_size)
  then show ?case by (simp add: word_le_nat_alt unat_SEG_SIZE)
next
  case (2 sq sq_size c cs)
  have small: "small_chunks cs" "csize c \<le> SEG_SIZE" using 2(3) by (auto simp: small_chunks_def)
  have add: "unat (sq_size + csize c) = unat sq_size + unat (csize c)"
    using unat_add_small[OF 2(4) small(2)] .
  show ?case
  proof (cases "sq_size + csize c > SEG_SIZE")
    case True
    have "sq \<noteq> []" using True small(2) 2(6) by auto
    moreover have "seg_bytes sq \<le> 2 ^ 23" using 2(4,5) by (simp add: word_le_nat_alt unat_SEG_SIZE)
    moreover have "\<forall>seg \<in> set (segments [c] (csize c) cs). seg \<noteq> [] \<and> seg_bytes seg \<le> 2 ^ 23"
      using 2(1)[OF True small(1,2)] by (simp add: seg_bytes_def)
    ultimately show ?thesis using True by simp
  next
    case False
    then have "\<forall>seg \<in> set (segments (sq @ [c]) (sq_size + csize c) cs). seg \<noteq> [] \<and> seg_bytes seg \<le> 2 ^ 23"
      using 2(2)[OF False small(1)] 2(5) add by (simp add: seg_bytes_def)
    then show ?thesis using False by simp
  qed
qed

section \<open>The tables of a segmentation\<close>

text \<open>Segment i is stored under the eight bytes of i as the concatenation of its fingerprints; the
  size store maps every fingerprint to its last size.\<close>

definition id_bytes :: "nat \<Rightarrow> bytes" where
  "id_bytes i = u64_bytes (word_of_nat i)"

definition seg_value :: "chunk list \<Rightarrow> bytes" where
  "seg_value seg = concat (map ckey seg)"

definition seg_table :: "chunk list list \<Rightarrow> bytes \<rightharpoonup> bytes" where
  "seg_table segs = fold (\<lambda>(i, seg) m. m(id_bytes i \<mapsto> seg_value seg)) (enumerate 0 segs) Map.empty"

definition size_upd :: "chunk \<Rightarrow> (bytes \<rightharpoonup> bytes) \<Rightarrow> bytes \<rightharpoonup> bytes" where
  "size_upd c m = m(ckey c \<mapsto> u64_bytes (csize c))"

fun last_size :: "chunk list \<Rightarrow> bytes \<Rightarrow> u64" where
  "last_size [] fp = 0"
| "last_size (c # cs) fp = (if fp \<in> ckey ` set cs then last_size cs fp else csize c)"

lemma fold_size_lookup: "fold size_upd cs m fp = (if fp \<in> ckey ` set cs then Some (u64_bytes (last_size cs fp)) else m fp)"
  by (induction cs arbitrary: m) (auto simp: size_upd_def)

lemma seg_table_Nil [simp]: "seg_table [] = Map.empty"
  by (simp add: seg_table_def)

lemma seg_table_snoc:
  "seg_table (segs @ [seg]) = (seg_table segs)(id_bytes (length segs) \<mapsto> seg_value seg)"
  by (simp add: seg_table_def enumerate_append_eq)

lemma id_bytes_inject:
  assumes "i < 2 ^ 64" "j < 2 ^ 64"
  shows "id_bytes i = id_bytes j \<longleftrightarrow> i = j"
proof -
  have "unat (word_of_nat i :: u64) = i" "unat (word_of_nat j :: u64) = j"
    using assms by (simp_all add: unsigned_of_nat take_bit_nat_eq_self)
  then show ?thesis unfolding id_bytes_def by (metis u64_bytes_inject)
qed

lemma seg_table_lookup:
  "length segs \<le> 2 ^ 64 \<Longrightarrow> i < length segs \<Longrightarrow> seg_table segs (id_bytes i) = Some (seg_value (segs ! i))"
proof (induction segs rule: rev_induct)
  case (snoc seg segs)
  have "id_bytes i = id_bytes (length segs) \<longleftrightarrow> i = length segs"
    using snoc.prems by (intro id_bytes_inject) auto
  then show ?case using snoc by (auto simp: seg_table_snoc nth_append)
qed simp

lemma dom_seg_table: "dom (seg_table segs) = id_bytes ` {..<length segs}"
proof (induction segs rule: rev_induct)
  case (snoc seg segs)
  then show ?case unfolding seg_table_snoc dom_fun_upd by (simp add: lessThan_Suc)
qed simp

section \<open>The contract of a segment store\<close>

text \<open>\<open>process\<close> records one more segment, whenever the segment is acceptable: \<open>stored segs s\<close> says that
  the state \<open>s\<close> holds the segments \<open>segs\<close>.\<close>

locale segment_store =
  fixes process :: "chunk list \<Rightarrow> 's \<Rightarrow> cpp_error + 's"
    and acceptable :: "chunk list \<Rightarrow> bool"
    and stored :: "chunk list list \<Rightarrow> 's \<Rightarrow> bool"
  assumes process_stored:
    "stored segs s \<Longrightarrow> acceptable seg \<Longrightarrow> \<exists>s'. process seg s = Inr s' \<and> stored (segs @ [seg]) s'"
begin

lemma process_all:
  "stored segs s \<Longrightarrow> \<forall>seg \<in> set news. acceptable seg \<Longrightarrow>
   \<exists>s'. foldE process news s = Inr s' \<and> stored (segs @ news) s'"
proof (induction news arbitrary: segs s)
  case (Cons seg news)
  then obtain s1 where s1: "process seg s = Inr s1" "stored (segs @ [seg]) s1"
    using process_stored by (meson list.set_intros(1))
  from Cons.IH[OF s1(2)] Cons.prems(2) s1(1) show ?case by auto
qed simp

lemma seg_run_stored:
  assumes "stored [] s" "\<forall>seg \<in> set (segments [] 0 cs). acceptable seg"
  shows "\<exists>s'. seg_run process cs s = Inr s' \<and> stored (segments [] 0 cs) s'"
  using process_all[OF assms] by (simp add: seg_run_foldE)

end

section \<open>A trace for the concrete runs\<close>

definition demo_chunk :: chunk where
  "demo_chunk = \<lparr>ckey = ''abcdef'', csize = 4096\<rparr>"

definition demo_trace :: string where
  "demo_trace = fp_text (ckey demo_chunk) @ TAB # to_string (csize demo_chunk) @ [TAB, LF]"

lemma demo_trace_entries: "trace_entries demo_trace = Inr [demo_chunk]"
proof -
  have four: "to_string (csize demo_chunk) = ''4096''" by (simp add: demo_chunk_def to_string_def) code_simp
  have "demo_trace = concat (map (\<lambda>(fp, cols). trace_line fp cols) [(''abcdef'', ''4096'' @ [TAB])])"
    by (simp add: demo_trace_def trace_line_def four) (simp add: demo_chunk_def)
  moreover have "plain_cols (''4096'' @ [TAB])" by (simp add: plain_cols_def strpbrk_def)
  ultimately have "trace_lines demo_trace = [trace_line ''abcdef'' (''4096'' @ [TAB])]"
    using trace_lines_concat[of "[(''abcdef'', ''4096'' @ [TAB])]"] by simp
  moreover have "trace_line ''abcdef'' (''4096'' @ [TAB]) =
      fp_text (ckey demo_chunk) @ TAB # to_string (csize demo_chunk) @ TAB # [LF]"
    by (simp add: trace_line_def four) (simp add: demo_chunk_def)
  moreover have "chunk_of_line (fp_text (ckey demo_chunk) @ TAB # to_string (csize demo_chunk) @ TAB # [LF]) = Inr demo_chunk"
    by (rule chunk_of_trace_line) (simp_all add: demo_chunk_def)
  ultimately show ?thesis by (simp add: trace_entries_def)
qed

end
