(* ===== verification/PSlice.thy ===== *)
theory PSlice
  imports Segment
begin

text \<open>
  \<open>multistream/src/similarity/pslice.cc\<close>: the plaintext chunks are cut into segments of at most
  \<open>SEG_SIZE\<close> bytes, and segments with the same minimum fingerprint form a slice. The theorems relate
  the three stores to the segmentation of the trace.
\<close>

section \<open>The program\<close>

record 'db pslice =
  pseg_db :: 'db
  pslice_db :: 'db
  pchunk_size :: 'db
  pseg_count :: u64
  pslice_count :: u64
  pnrand :: nat

definition init_dbs_psl ::
  "'db leveldb \<Rightarrow> string \<Rightarrow> string \<Rightarrow> string \<Rightarrow> 'db pslice \<Rightarrow> cpp_error + 'db pslice" where
  "init_dbs_psl L seg_name slice_name chunk_size_name s =
     bindE (open_db L seg_name) (\<lambda>d1.
     bindE (open_db L slice_name) (\<lambda>d2.
     bindE (open_db L chunk_size_name) (\<lambda>d3.
       Inr (s\<lparr>pseg_db := d1, pslice_db := d2, pchunk_size := d3\<rparr>))))"

text \<open>The chunks of the segment, in order: the size is stored, the fingerprint appended.\<close>

fun seg_loop_psl :: "'db leveldb \<Rightarrow> chunk list \<Rightarrow> bytes \<Rightarrow> 'db pslice \<Rightarrow> bytes \<times> 'db pslice" where
  "seg_loop_psl L [] segmentValue s = (segmentValue, s)"
| "seg_loop_psl L (now # sq) segmentValue s =
     seg_loop_psl L sq (segmentValue @ ckey now)
       (s\<lparr>pchunk_size := snd (ldb_put L (pchunk_size s) (ckey now) (u64_bytes (csize now)))\<rparr>)"

text \<open>\<open>process_seg\<close> works on copies of the two queues.\<close>

definition process_seg_psl ::
  "'db leveldb \<Rightarrow> (nat \<Rightarrow> nat) \<Rightarrow> chunk list \<Rightarrow> chunk list \<Rightarrow> 'db pslice \<Rightarrow> cpp_error + 'db pslice" where
  "process_seg_psl L rnd pq sq s =
     bindE (pick_core (rnd (pnrand s)) pq) (\<lambda>core.
       let s = s\<lparr>pnrand := Suc (pnrand s)\<rparr>;
           (segmentValue, s) = seg_loop_psl L sq [] s;
           s = s\<lparr>pseg_db := snd (ldb_put L (pseg_db s) (u64_bytes (pseg_count s)) segmentValue)\<rparr>;
           seg_id = u64_bytes (pseg_count s);
           (cst, v) = ldb_get L (pslice_db s) (ckey core) [];
           (sliceValue, s) = (if cst = StOk then (v @ seg_id, s)
                              else (seg_id, s\<lparr>pslice_count := pslice_count s + 1\<rparr>));
           s = s\<lparr>pslice_db := snd (ldb_put L (pslice_db s) (ckey core) sliceValue)\<rparr>
       in Inr (s\<lparr>pseg_count := pseg_count s + 1\<rparr>))"

text \<open>One line of the trace; the local variables are \<open>sq\<close>, \<open>pq\<close> and \<open>sq_size\<close>.\<close>

definition read_chunk_psl ::
  "'db leveldb \<Rightarrow> (nat \<Rightarrow> nat) \<Rightarrow> chunk \<Rightarrow> chunk list \<times> chunk list \<times> u64 \<times> 'db pslice \<Rightarrow>
   cpp_error + (chunk list \<times> chunk list \<times> u64 \<times> 'db pslice)" where
  "read_chunk_psl L rnd entry = (\<lambda>(sq, pq, sq_size, s).
     bindE (if sq_size + csize entry > SEG_SIZE
            then bindE (process_seg_psl L rnd pq sq s) (\<lambda>s. Inr ([], [], 0, s))
            else Inr (sq, pq, sq_size, s)) (\<lambda>(sq, pq, sq_size, s).
       Inr (sq @ [entry], minhash_insert entry pq, sq_size + csize entry, s)))"

definition read_hashes_psl ::
  "'db leveldb \<Rightarrow> (nat \<Rightarrow> nat) \<Rightarrow> string \<Rightarrow> 'db pslice \<Rightarrow> cpp_error + 'db pslice" where
  "read_hashes_psl L rnd file s =
     bindE (foldE (\<lambda>l st. if strpbrk l ''Chunk'' then Inr st
                          else bindE (chunk_of_line l) (\<lambda>c. read_chunk_psl L rnd c st))
              (fgets_lines file) ([], [], 0, s))
       (\<lambda>(sq, pq, sq_size, s). process_seg_psl L rnd pq sq s)"

text \<open>\<open>main\<close>, without the summary line it prints.\<close>

definition main_psl ::
  "'db leveldb \<Rightarrow> (nat \<Rightarrow> nat) \<Rightarrow> (string \<rightharpoonup> string) \<Rightarrow> string list \<Rightarrow> 'db pslice \<Rightarrow> cpp_error + 'db pslice" where
  "main_psl L rnd fs argv s =
     (if length argv \<noteq> 2 then Inl AssertFail
      else case fs (argv ! 1) of
             None \<Rightarrow> Inl AssertFail
           | Some file \<Rightarrow>
               bindE (init_dbs_psl L ''./output/plain/seg'' ''./output/plain/slice'' ''./output/chunksize'' s)
                 (read_hashes_psl L rnd file))"

section \<open>The stores hold the segmentation\<close>

definition slice_table :: "chunk list list \<Rightarrow> bytes \<rightharpoonup> bytes" where
  "slice_table segs = fold (\<lambda>(i, seg) m.
     m(min_key seg \<mapsto> (case m (min_key seg) of None \<Rightarrow> [] | Some v \<Rightarrow> v) @ id_bytes i)) (enumerate 0 segs) Map.empty"

lemma slice_table_Nil [simp]: "slice_table [] = Map.empty"
  by (simp add: slice_table_def)

lemma slice_table_snoc:
  "slice_table (segs @ [seg]) = (slice_table segs)(min_key seg \<mapsto>
     (case slice_table segs (min_key seg) of None \<Rightarrow> [] | Some v \<Rightarrow> v) @ id_bytes (length segs))"
  by (simp add: slice_table_def enumerate_append_eq)

text \<open>A slice lists the segments whose minimum fingerprint is its key, in order.\<close>

lemma slice_table_lookup:
  "slice_table segs m =
     (let ids = filter (\<lambda>i. min_key (segs ! i) = m) [0..<length segs]
      in if ids = [] then None else Some (concat (map id_bytes ids)))"
proof (induction segs rule: rev_induct)
  case (snoc seg segs)
  have "filter (\<lambda>i. min_key ((segs @ [seg]) ! i) = m) [0..<length segs] =
    filter (\<lambda>i. min_key (segs ! i) = m) [0..<length segs]"
    by (intro filter_cong) (auto simp: nth_append)
  then have "filter (\<lambda>i. min_key ((segs @ [seg]) ! i) = m) [0..<length (segs @ [seg])] =
    filter (\<lambda>i. min_key (segs ! i) = m) [0..<length segs] @ (if min_key seg = m then [length segs] else [])"
    by simp
  then show ?case using snoc.IH by (auto simp: slice_table_snoc Let_def)
qed (simp add: slice_table_def)

lemma dom_slice_table: "dom (slice_table segs) = min_key ` set segs"
proof (induction segs rule: rev_induct)
  case (snoc seg segs)
  then show ?case unfolding slice_table_snoc dom_fun_upd by simp
qed simp

text \<open>\<open>m0\<close> is what the store of chunk sizes, which the slicing programs share, held before.\<close>

definition pslice_stored :: "('db \<Rightarrow> bytes \<rightharpoonup> bytes) \<Rightarrow> (bytes \<rightharpoonup> bytes) \<Rightarrow> chunk list list \<Rightarrow> 'db pslice \<Rightarrow> bool" where
  "pslice_stored view m0 segs s \<longleftrightarrow>
     view (pseg_db s) = seg_table segs \<and> view (pslice_db s) = slice_table segs \<and>
     view (pchunk_size s) = fold size_upd (concat segs) m0 \<and>
     pseg_count s = word_of_nat (length segs) \<and>
     pslice_count s = word_of_nat (card (min_key ` set segs))"

context leveldb_laws
begin

lemma seg_loop_psl_spec:
  "\<exists>d. seg_loop_psl L sq v s = (v @ seg_value sq, s\<lparr>pchunk_size := d\<rparr>) \<and>
    view d = fold size_upd sq (view (pchunk_size s))"
proof (induction sq arbitrary: v s)
  case Nil
  have "s = s\<lparr>pchunk_size := pchunk_size s\<rparr>" by simp
  then show ?case by (intro exI[of _ "pchunk_size s"]) (simp add: seg_value_def)
next
  case (Cons c sq)
  let ?s1 = "s\<lparr>pchunk_size := snd (ldb_put L (pchunk_size s) (ckey c) (u64_bytes (csize c)))\<rparr>"
  obtain d where "seg_loop_psl L sq (v @ ckey c) ?s1 = ((v @ ckey c) @ seg_value sq, ?s1\<lparr>pchunk_size := d\<rparr>)"
    "view d = fold size_upd sq (view (pchunk_size ?s1))"
    using Cons.IH by blast
  moreover have "size_upd c (view (pchunk_size s)) = view (pchunk_size ?s1)"
    by (simp add: view_put size_upd_def)
  ultimately show ?case by (intro exI[of _ d]) (simp add: seg_value_def)
qed

lemma process_seg_psl_stored:
  assumes st: "pslice_stored view m0 segs s" and ne: "seg \<noteq> []"
  shows "\<exists>s'. process_seg_psl L rnd (fold minhash_insert seg []) seg s = Inr s' \<and>
    pslice_stored view m0 (segs @ [seg]) s'"
proof -
  obtain core where core: "pick_core (rnd (pnrand s)) (fold minhash_insert seg []) = Inr core"
    "ckey core = min_key seg" using pick_core_fold[OF ne] by blast
  let ?s0 = "s\<lparr>pnrand := Suc (pnrand s)\<rparr>"
  obtain d where d: "seg_loop_psl L seg [] ?s0 = (seg_value seg, ?s0\<lparr>pchunk_size := d\<rparr>)"
    "view d = fold size_upd (concat segs @ seg) m0"
    using seg_loop_psl_spec[of seg "[]" ?s0] st by (auto simp: pslice_stored_def)
  have id: "u64_bytes (pseg_count s) = id_bytes (length segs)"
    using st by (simp add: pslice_stored_def id_bytes_def)
  have sl: "view (pslice_db s) = slice_table segs" using st by (simp add: pslice_stored_def)
  show ?thesis
  proof (cases "min_key seg \<in> min_key ` set segs")
    case True
    then have "min_key seg \<in> dom (slice_table segs)" by (simp only: dom_slice_table)
    then obtain v where "slice_table segs (min_key seg) = Some v" by blast
    moreover have "card (min_key ` set (segs @ [seg])) = card (min_key ` set segs)"
      using True by (simp add: insert_absorb)
    ultimately show ?thesis
      using st d core id by (simp add: process_seg_psl_def Let_def get_cases sl pslice_stored_def
          view_put seg_table_snoc slice_table_snoc)
  next
    case False
    then have "min_key seg \<notin> dom (slice_table segs)" by (simp only: dom_slice_table not_False_eq_True)
    then have "slice_table segs (min_key seg) = None" by blast
    moreover have "card (min_key ` set (segs @ [seg])) = Suc (card (min_key ` set segs))"
      using False by simp
    ultimately show ?thesis
      using st d core id by (simp add: process_seg_psl_def Let_def get_cases sl pslice_stored_def
          view_put seg_table_snoc slice_table_snoc)
  qed
qed

end

sublocale leveldb_laws \<subseteq> psl: segment_store
    "\<lambda>seg. process_seg_psl L rnd (fold minhash_insert seg []) seg" "\<lambda>seg. seg \<noteq> []" "pslice_stored view m0"
  for rnd m0
  by unfold_locales (rule process_seg_psl_stored)

context leveldb_laws
begin

lemma psl_run_stored:
  assumes "pslice_stored view m0 [] s" "\<forall>seg \<in> set (segments [] 0 cs). seg \<noteq> []"
  shows "\<exists>s'. seg_run (\<lambda>seg. process_seg_psl L rnd (fold minhash_insert seg []) seg) cs s = Inr s' \<and>
    pslice_stored view m0 (segments [] 0 cs) s'"
  using assms by (rule psl.seg_run_stored)

end

text \<open>The program's loop carries the MinHash queue of the current segment along; it is always the
  one the chunks of the segment give.\<close>

lemma read_chunk_psl_seg_chunk:
  "read_chunk_psl L rnd c (sq, fold minhash_insert sq [], sz, s) =
   bindE (seg_chunk (\<lambda>seg. process_seg_psl L rnd (fold minhash_insert seg []) seg) c (sq, sz, s))
     (\<lambda>(sq, sz, s). Inr (sq, fold minhash_insert sq [], sz, s))"
  by (cases "process_seg_psl L rnd (fold minhash_insert sq []) sq s")
    (auto simp: read_chunk_psl_def seg_chunk_def)

lemma read_chunks_psl:
  "foldE (read_chunk_psl L rnd) cs (sq, fold minhash_insert sq [], sz, s) =
   bindE (foldE (seg_chunk (\<lambda>seg. process_seg_psl L rnd (fold minhash_insert seg []) seg)) cs (sq, sz, s))
     (\<lambda>(sq, sz, s). Inr (sq, fold minhash_insert sq [], sz, s))"
proof (induction cs arbitrary: sq sz s)
  case (Cons c cs)
  show ?case
  proof (cases "seg_chunk (\<lambda>seg. process_seg_psl L rnd (fold minhash_insert seg []) seg) c (sq, sz, s)")
    case (Inl e)
    then show ?thesis by (simp add: read_chunk_psl_seg_chunk)
  next
    case (Inr r)
    obtain sq1 sz1 s1 where r: "r = (sq1, sz1, s1)" by (cases r) auto
    show ?thesis using Inr r Cons.IH by (simp add: read_chunk_psl_seg_chunk)
  qed
qed simp

lemma read_hashes_psl_seg_run:
  assumes "trace_entries file = Inr cs"
  shows "read_hashes_psl L rnd file s =
    seg_run (\<lambda>seg. process_seg_psl L rnd (fold minhash_insert seg []) seg) cs s"
proof -
  let ?p = "\<lambda>seg. process_seg_psl L rnd (fold minhash_insert seg []) seg"
  have "foldE (read_chunk_psl L rnd) cs ([], [], 0, s) =
    bindE (foldE (seg_chunk ?p) cs ([], 0, s)) (\<lambda>(sq, sz, s). Inr (sq, fold minhash_insert sq [], sz, s))"
    using read_chunks_psl[of L rnd cs "[]" 0 s] by simp
  then show ?thesis
    unfolding read_hashes_psl_def seg_run_def foldE_trace_entries[OF assms]
    by (cases "foldE (seg_chunk ?p) cs ([], 0, s)") auto
qed

section \<open>Properties of plaintext slicing\<close>

text \<open>C19. Slicing a trace of chunks no larger than a segment stores its segmentation: the
  segments in order are the chunk sequence, none is empty or larger than the segment size, segment i
  is stored under its number as the concatenation of its fingerprints, a slice lists exactly the
  segments whose minimum fingerprint is its key, the store of sizes has the last size of every
  chunk and keeps its other entries, and the counters are the numbers of segments and of
  distinct minima.\<close>

theorem read_hashes_psl_segments:
  assumes "leveldb_laws L view" "pslice_stored view m0 [] s" "trace_entries file = Inr cs" "cs \<noteq> []"
    "small_chunks cs" "length (segments [] 0 cs) \<le> 2 ^ 64"
  shows "\<exists>s'. read_hashes_psl L rnd file s = Inr s' \<and> concat (segments [] 0 cs) = cs \<and>
    (\<forall>seg \<in> set (segments [] 0 cs). seg \<noteq> [] \<and> seg_bytes seg \<le> unat SEG_SIZE) \<and>
    (\<forall>i < length (segments [] 0 cs).
       view (pseg_db s') (id_bytes i) = Some (seg_value (segments [] 0 cs ! i))) \<and>
    (\<forall>m. view (pslice_db s') m =
       (let ids = filter (\<lambda>i. min_key (segments [] 0 cs ! i) = m) [0..<length (segments [] 0 cs)]
        in if ids = [] then None else Some (concat (map id_bytes ids)))) \<and>
    (\<forall>fp. view (pchunk_size s') fp = (if fp \<in> ckey ` set cs then Some (u64_bytes (last_size cs fp)) else m0 fp)) \<and>
    pseg_count s' = word_of_nat (length (segments [] 0 cs)) \<and>
    pslice_count s' = word_of_nat (card (min_key ` set (segments [] 0 cs)))"
proof -
  have b: "\<forall>seg \<in> set (segments [] 0 cs). seg \<noteq> [] \<and> seg_bytes seg \<le> unat SEG_SIZE"
    using segments_bounds[of cs 0 "[]"] assms(4,5) by (simp add: seg_bytes_def unat_SEG_SIZE)
  then obtain s' where s': "read_hashes_psl L rnd file s = Inr s'" "pslice_stored view m0 (segments [] 0 cs) s'"
    using leveldb_laws.psl_run_stored[OF assms(1,2), of cs rnd]
    unfolding read_hashes_psl_seg_run[OF assms(3)] by blast
  show ?thesis
    using s' b assms(6) seg_table_lookup[of "segments [] 0 cs"] slice_table_lookup[of "segments [] 0 cs"]
    unfolding pslice_stored_def by (simp add: concat_segments fold_size_lookup)
qed

definition demo_pslice :: "mem_db pslice" where
  "demo_pslice = \<lparr>pseg_db = [], pslice_db = [], pchunk_size = [], pseg_count = 0, pslice_count = 0, pnrand = 0\<rparr>"

theorem read_hashes_psl_segments_witness:
  "\<exists>s'. read_hashes_psl (mem_leveldb (\<lambda>_. [])) (\<lambda>_. 0) demo_trace demo_pslice = Inr s' \<and>
    pseg_count s' = 1 \<and> map_of (pseg_db s') (id_bytes 0) = Some ''abcdef''"
proof -
  have s: "segments [] 0 [demo_chunk] = [[demo_chunk]]" by (simp add: demo_chunk_def SEG_SIZE_def)
  have "pslice_stored map_of Map.empty [] demo_pslice"
    by (simp add: pslice_stored_def demo_pslice_def)
  from read_hashes_psl_segments[OF mem.leveldb_laws_axioms this demo_trace_entries, of "\<lambda>_. []" "\<lambda>_. 0"]
  show ?thesis by (auto simp: s small_chunks_def demo_chunk_def SEG_SIZE_def seg_value_def)
qed

text \<open>C24. A trace without chunks, or whose first chunk is larger than a segment, makes the program
  read the top of an empty queue.\<close>

theorem read_hashes_psl_empty_top:
  assumes "trace_entries file = Inr cs" "cs = [] \<or> csize (hd cs) > SEG_SIZE"
  shows "read_hashes_psl L rnd file s = Inl EmptyTop"
proof -
  have "hd (segments [] 0 cs) = []" using assms(2) by (cases cs) auto
  then obtain segs where "segments [] 0 cs = [] # segs"
    using segments_neq_Nil[of "[]" 0 cs] by (cases "segments [] 0 cs") auto
  moreover have "(pq_pop cmp_key ^^ n) [] = []" for n by (induction n) (auto simp: pq_pop_def)
  ultimately show ?thesis
    by (simp add: read_hashes_psl_seg_run[OF assms(1)] seg_run_foldE process_seg_psl_def pick_core_def)
qed

theorem read_hashes_psl_empty_top_witness:
  "read_hashes_psl (mem_leveldb (\<lambda>_. [])) (\<lambda>_. 0) [] demo_pslice = Inl EmptyTop"
  by (rule read_hashes_psl_empty_top[of _ "[]"]) (simp_all add: trace_entries_def trace_lines_def)

end
