(* ===== verification/KMinhash.thy ===== *)
theory KMinhash
  imports Segment LocalityCount
begin

text \<open>
  \<open>single_stream/k_minhash.cc\<close>, which simulates MinHash encryption of a trace, and
  \<open>tran2vm_with_zero.cc\<close> and \<open>tran2vm_without_zero.cc\<close>, which convert a binary fingerprint file to a
  trace. MD5 is a parameter \<open>md5\<close>. Every chunk is processed as a segment of its own, so the
  simulated encryption is deterministic; the theorems show what it prints and stores, and that the
  printed trace has the same frequency pattern whenever no two chunks collide.
\<close>

section \<open>k_minhash\<close>

record 'db kmh =
  krelate :: 'db
  ksq_size :: u64
  knrand :: nat
  kout :: string

definition init_relate_kmh :: "'db leveldb \<Rightarrow> string \<Rightarrow> 'db kmh \<Rightarrow> cpp_error + 'db kmh" where
  "init_relate_kmh L rel s = bindE (open_db L rel) (\<lambda>d. Inr (s\<lparr>krelate := d\<rparr>))"

text \<open>A printed line: the fingerprint, two tabs, the size and a blank, three tabs, the constant
  compression ratio.\<close>

definition kmh_line :: "bytes \<Rightarrow> u64 \<Rightarrow> string" where
  "kmh_line ret sz = fp_text ret @ [TAB, TAB] @ to_string sz @ '' '' @ [TAB, TAB, TAB] @ ''10'' @ [LF]"

fun seg_loop_kmh ::
  "'db leveldb \<Rightarrow> (bytes \<Rightarrow> bytes) \<Rightarrow> bytes \<Rightarrow> chunk list \<Rightarrow> 'db kmh \<Rightarrow> 'db kmh" where
  "seg_loop_kmh L md5 core [] s = s"
| "seg_loop_kmh L md5 core (now # sq) s =
     (let ret = take FP_SIZE (md5 (ckey now @ core))
      in seg_loop_kmh L md5 core sq
           (s\<lparr>krelate := snd (ldb_put L (krelate s) ret (ckey now)),
              kout := kout s @ kmh_line ret (csize now)\<rparr>))"

definition process_seg_kmh ::
  "'db leveldb \<Rightarrow> (bytes \<Rightarrow> bytes) \<Rightarrow> (nat \<Rightarrow> nat) \<Rightarrow> chunk list \<Rightarrow> chunk list \<Rightarrow> 'db kmh \<Rightarrow> cpp_error + 'db kmh" where
  "process_seg_kmh L md5 rnd hq sq s =
     bindE (pick_core (rnd (knrand s)) hq) (\<lambda>core.
       Inr (seg_loop_kmh L md5 (ckey core) sq (s\<lparr>knrand := Suc (knrand s)\<rparr>)))"

text \<open>The body of \<open>read_hashes\<close>: the globals \<open>hq\<close> and \<open>sq\<close> are empty before and after it.\<close>

definition read_chunk_kmh ::
  "'db leveldb \<Rightarrow> (bytes \<Rightarrow> bytes) \<Rightarrow> (nat \<Rightarrow> nat) \<Rightarrow> chunk \<Rightarrow> chunk list \<times> chunk list \<times> 'db kmh \<Rightarrow>
   cpp_error + (chunk list \<times> chunk list \<times> 'db kmh)" where
  "read_chunk_kmh L md5 rnd entry = (\<lambda>(sq, hq, s).
     let s = s\<lparr>ksq_size := ksq_size s + csize entry\<rparr>;
         sq = sq @ [entry];
         hq = minhash_insert entry hq
     in bindE (process_seg_kmh L md5 rnd hq sq s) (\<lambda>s. Inr ([], [], s\<lparr>ksq_size := 0\<rparr>)))"

definition read_hashes_kmh ::
  "'db leveldb \<Rightarrow> (bytes \<Rightarrow> bytes) \<Rightarrow> (nat \<Rightarrow> nat) \<Rightarrow> string \<Rightarrow> 'db kmh \<Rightarrow> cpp_error + 'db kmh" where
  "read_hashes_kmh L md5 rnd file s =
     bindE (foldE (\<lambda>l st. if strpbrk l ''Chunk'' then Inr st
                          else bindE (chunk_of_line l) (\<lambda>c. read_chunk_kmh L md5 rnd c st))
              (fgets_lines file) ([], [], s))
       (\<lambda>(sq, hq, s). Inr s)"

definition kmh_title :: string where
  "kmh_title = ''Chunk Hash'' @ [TAB, TAB, TAB] @ ''Chunk Size (bytes)'' @ [TAB] @ ''Compression Ratio (tenth)'' @ [LF]"

definition main_kmh ::
  "'db leveldb \<Rightarrow> (bytes \<Rightarrow> bytes) \<Rightarrow> (nat \<Rightarrow> nat) \<Rightarrow> (string \<rightharpoonup> string) \<Rightarrow> string list \<Rightarrow> 'db kmh \<Rightarrow>
   cpp_error + 'db kmh" where
  "main_kmh L md5 rnd fs argv s =
     (if length argv < 2 then Inl AssertFail
      else case fs (argv ! 1) of
             None \<Rightarrow> Inl AssertFail
           | Some file \<Rightarrow>
               bindE (init_relate_kmh L ''./ground-truth/'' (s\<lparr>kout := kout s @ kmh_title\<rparr>))
                 (read_hashes_kmh L md5 rnd file))"

section \<open>tran2vm\<close>

text \<open>The twenty bytes of the fingerprint of a zero chunk.\<close>

definition zero_fp :: bytes where
  "zero_fp = map char_of [0x1c :: nat, 0xea, 0xf7, 0x3d, 0xf4, 0x0e, 0x53, 0x1d, 0xf3, 0xbf, 0xb2, 0x6b, 0x4f,
     0xb7, 0xcd, 0x95, 0xfb, 0x7b, 0xff, 0x1d]"

definition Check0 :: "bytes \<Rightarrow> bool" where
  "Check0 s \<longleftrightarrow> (\<forall>i < 20. s ! i = zero_fp ! i)"

definition tran_line :: "(bytes \<Rightarrow> bytes) \<Rightarrow> bytes \<Rightarrow> string" where
  "tran_line md5 tmp = fp_text (take 6 (md5 tmp)) @ [TAB] @ ''4096'' @ [TAB] @ ''0'' @ [LF]"

text \<open>\<open>while (fin.read(tmp, 20))\<close>: a full record of twenty bytes is converted, then twelve bytes are
  skipped; a read past the end fails and ends the loop. \<open>skip\<close> says whether zero chunks are left out.\<close>

function tran_loop :: "bool \<Rightarrow> (bytes \<Rightarrow> bytes) \<Rightarrow> bytes \<Rightarrow> string" where
  "tran_loop skip md5 fin =
     (if length fin < 20 then []
      else (if skip \<and> Check0 (take 20 fin) then [] else tran_line md5 (take 20 fin)) @
           (if length fin < 32 then [] else tran_loop skip md5 (drop 32 fin)))"
  by pat_completeness auto
termination
  by (relation "measure (\<lambda>(_, _, fin). length fin)") auto

declare tran_loop.simps [simp del]

definition tran_title :: string where
  "tran_title = ''Chunk Hash'' @ [TAB, TAB] @ ''Chunk Size (bytes)'' @ [TAB] @ ''Compression Ratio (tenth)'' @ [LF]"

text \<open>\<open>main\<close>: after the twelve bytes of the header, unless the file ends in it.\<close>

definition main_tran2vm_with_zero :: "(bytes \<Rightarrow> bytes) \<Rightarrow> bytes \<Rightarrow> string" where
  "main_tran2vm_with_zero md5 fin =
     tran_title @ (if length fin < 12 then [] else tran_loop False md5 (drop 12 fin))"

definition main_tran2vm_without_zero :: "(bytes \<Rightarrow> bytes) \<Rightarrow> bytes \<Rightarrow> string" where
  "main_tran2vm_without_zero md5 fin =
     tran_title @ (if length fin < 12 then [] else tran_loop True md5 (drop 12 fin))"

section \<open>What k_minhash prints and stores\<close>

text \<open>The ciphertext fingerprint of a chunk: its own fingerprint is the minimum of its segment.\<close>

definition kmh_enc :: "(bytes \<Rightarrow> bytes) \<Rightarrow> bytes \<Rightarrow> bytes" where
  "kmh_enc md5 fp = take FP_SIZE (md5 (fp @ fp))"

lemma read_chunk_kmh_step:
  "read_chunk_kmh L md5 rnd c ([], [], s) =
   Inr ([], [], s\<lparr>ksq_size := 0, knrand := Suc (knrand s),
     krelate := snd (ldb_put L (krelate s) (kmh_enc md5 (ckey c)) (ckey c)),
     kout := kout s @ kmh_line (kmh_enc md5 (ckey c)) (csize c)\<rparr>)"
  by (simp add: read_chunk_kmh_def process_seg_kmh_def minhash_insert_simps pick_core_def K_MINHASH_def
      kmh_enc_def Let_def)

context leveldb_laws
begin

lemma read_chunks_kmh:
  "\<exists>s'. foldE (read_chunk_kmh L md5 rnd) cs ([], [], s) = Inr ([], [], s') \<and>
    kout s' = kout s @ concat (map (\<lambda>c. kmh_line (kmh_enc md5 (ckey c)) (csize c)) cs) \<and>
    view (krelate s') = (view (krelate s)) ++ map_of (rev (map (\<lambda>c. (kmh_enc md5 (ckey c), ckey c)) cs))"
proof (induction cs arbitrary: s)
  case (Cons c cs)
  let ?s1 = "s\<lparr>ksq_size := 0, knrand := Suc (knrand s),
     krelate := snd (ldb_put L (krelate s) (kmh_enc md5 (ckey c)) (ckey c)),
     kout := kout s @ kmh_line (kmh_enc md5 (ckey c)) (csize c)\<rparr>"
  obtain s' where "foldE (read_chunk_kmh L md5 rnd) cs ([], [], ?s1) = Inr ([], [], s')"
    "kout s' = kout ?s1 @ concat (map (\<lambda>c. kmh_line (kmh_enc md5 (ckey c)) (csize c)) cs)"
    "view (krelate s') = (view (krelate ?s1)) ++ map_of (rev (map (\<lambda>c. (kmh_enc md5 (ckey c), ckey c)) cs))"
    using Cons.IH by blast
  then show ?case
    by (intro exI[of _ s']) (simp add: read_chunk_kmh_step view_put map_add_def fun_eq_iff split: option.splits)
qed simp

end

lemma kmh_line_trace_line:
  "kmh_line fp sz = trace_line fp (TAB # to_string sz @ '' '' @ [TAB, TAB, TAB] @ ''10'')"
  by (simp add: kmh_line_def trace_line_def)

lemma kmh_cols_plain: "plain_cols (TAB # to_string sz @ '' '' @ [TAB, TAB, TAB] @ ''10'')"
  using to_string_plain[of sz] by (auto simp: plain_cols_def strpbrk_def)

lemma chunk_of_kmh_line:
  assumes "length fp = FP_SIZE" "unat sz < 2 ^ 31"
  shows "chunk_of_line (kmh_line fp sz) = Inr \<lparr>ckey = fp, csize = sz\<rparr>"
proof -
  have "kmh_line fp sz = fp_text fp @ TAB # [TAB] @ to_string sz @ '' '' @ TAB # [TAB, TAB] @ ''10'' @ [LF]"
    by (simp add: kmh_line_def)
  then show ?thesis
    using chunk_of_size_line[OF assms, of "[TAB]" TAB "'' ''"] by (simp add: digit_of_def)
qed

lemma count_list_map_inj:
  "inj_on f (insert x (set xs)) \<Longrightarrow> count_list (map f xs) (f x) = count_list xs x"
proof (induction xs)
  case (Cons y xs)
  then have "inj_on f (insert x (set xs))" by (auto simp: inj_on_def)
  moreover have "f y = f x \<longleftrightarrow> y = x" using Cons.prems by (auto simp: inj_on_def)
  ultimately show ?case using Cons.IH by simp
qed simp

section \<open>Properties of the simulated encryption\<close>

text \<open>C21. The simulated encryption prints one line per chunk, with the first six bytes of
  \<open>MD5(fp fp)\<close> in place of the fingerprint and the size unchanged, and records in the ground-truth
  store the plaintext of every ciphertext, as long as no two chunks collide.\<close>

theorem read_hashes_kmh_output:
  assumes "leveldb_laws L view" "trace_entries file = Inr cs"
    "inj_on (kmh_enc md5) (ckey ` set cs)"
  shows "\<exists>s'. read_hashes_kmh L md5 rnd file s = Inr s' \<and>
    kout s' = kout s @ concat (map (\<lambda>c. kmh_line (kmh_enc md5 (ckey c)) (csize c)) cs) \<and>
    (\<forall>c \<in> set cs. view (krelate s') (kmh_enc md5 (ckey c)) = Some (ckey c))"
proof -
  obtain s' where s': "foldE (read_chunk_kmh L md5 rnd) cs ([], [], s) = Inr ([], [], s')"
    "kout s' = kout s @ concat (map (\<lambda>c. kmh_line (kmh_enc md5 (ckey c)) (csize c)) cs)"
    "view (krelate s') = (view (krelate s)) ++ map_of (rev (map (\<lambda>c. (kmh_enc md5 (ckey c), ckey c)) cs))"
    using leveldb_laws.read_chunks_kmh[OF assms(1)] by blast
  have "map_of (rev (map (\<lambda>c. (kmh_enc md5 (ckey c), ckey c)) cs)) (kmh_enc md5 (ckey c)) = Some (ckey c)"
    if c: "c \<in> set cs" for c
  proof -
    let ?es = "rev (map (\<lambda>c. (kmh_enc md5 (ckey c), ckey c)) cs)"
    have "kmh_enc md5 (ckey c) \<in> fst ` set ?es" using c by force
    then have "kmh_enc md5 (ckey c) \<in> dom (map_of ?es)" unfolding dom_map_of_conv_image_fst .
    then obtain v where v: "map_of ?es (kmh_enc md5 (ckey c)) = Some v" by blast
    then have "(kmh_enc md5 (ckey c), v) \<in> set ?es" by (rule map_of_SomeD)
    then obtain d where d: "d \<in> set cs" "kmh_enc md5 (ckey d) = kmh_enc md5 (ckey c)" "v = ckey d" by auto
    then have "v = ckey c" using inj_onD[OF assms(3) d(2)] c by simp
    then show ?thesis using v by simp
  qed
  then have "\<forall>c \<in> set cs. view (krelate s') (kmh_enc md5 (ckey c)) = Some (ckey c)"
    unfolding s'(3) by simp
  moreover have "read_hashes_kmh L md5 rnd file s = Inr s'"
    unfolding read_hashes_kmh_def foldE_trace_entries[OF assms(2)] s'(1) by simp
  ultimately show ?thesis using s'(2) by blast
qed

theorem read_hashes_kmh_output_witness:
  "\<exists>s'. read_hashes_kmh (mem_leveldb (\<lambda>_. [])) (\<lambda>x. x) (\<lambda>_. 0) demo_trace
      \<lparr>krelate = [], ksq_size = 0, knrand = 0, kout = []\<rparr> = Inr s' \<and>
    map_of (krelate s') (kmh_enc (\<lambda>x. x) ''abcdef'') = Some ''abcdef''"
  using read_hashes_kmh_output[OF mem.leveldb_laws_axioms demo_trace_entries, of "\<lambda>x. x" "\<lambda>_. []" "\<lambda>_. 0"
      "\<lparr>krelate = [], ksq_size = 0, knrand = 0, kout = []\<rparr>"]
  by (auto simp: demo_chunk_def)

text \<open>C22. The printed trace is a trace: read back, it is the encrypted chunk sequence with its
  sizes, and a chunk that occurs n times is encrypted n times, so the frequencies the attacks count
  survive the encryption.\<close>

theorem kmh_trace_roundtrip:
  assumes "\<forall>x. length (md5 x) = 16" "\<forall>c \<in> set cs. unat (csize c) < 2 ^ 31"
    "inj_on (kmh_enc md5) (insert x (ckey ` set cs))"
  shows "trace_entries (concat (map (\<lambda>c. kmh_line (kmh_enc md5 (ckey c)) (csize c)) cs)) =
      Inr (map (\<lambda>c. c\<lparr>ckey := kmh_enc md5 (ckey c)\<rparr>) cs) \<and>
    count_list (trace_chunks (concat (map (\<lambda>c. kmh_line (kmh_enc md5 (ckey c)) (csize c)) cs))) (kmh_enc md5 x) =
      count_list (map ckey cs) x"
proof -
  let ?cols = "\<lambda>sz. TAB # to_string sz @ '' '' @ [TAB, TAB, TAB] @ ''10''"
  let ?ls = "map (\<lambda>c. (kmh_enc md5 (ckey c), ?cols (csize c))) cs"
  have len: "length (kmh_enc md5 fp) = FP_SIZE" for fp using assms(1) by (simp add: kmh_enc_def)
  have wf: "\<forall>(fp, cols) \<in> set ?ls. length fp = FP_SIZE \<and> plain_cols cols"
    using len kmh_cols_plain by auto
  have lines: "concat (map (\<lambda>c. kmh_line (kmh_enc md5 (ckey c)) (csize c)) cs) =
      concat (map (\<lambda>(fp, cols). trace_line fp cols) ?ls)"
    by (simp add: kmh_line_trace_line comp_def)
  have "trace_lines (concat (map (\<lambda>(fp, cols). trace_line fp cols) ?ls)) =
      map (\<lambda>c. kmh_line (kmh_enc md5 (ckey c)) (csize c)) cs"
    unfolding trace_lines_concat[OF wf] by (simp add: kmh_line_trace_line)
  moreover have "mapE chunk_of_line (map (\<lambda>c. kmh_line (kmh_enc md5 (ckey c)) (csize c)) cs) =
      Inr (map (\<lambda>c. c\<lparr>ckey := kmh_enc md5 (ckey c)\<rparr>) cs)"
    using assms(2) len by (intro mapE_all) (simp add: chunk_of_kmh_line)
  moreover have "trace_chunks (concat (map (\<lambda>(fp, cols). trace_line fp cols) ?ls)) = map (kmh_enc md5) (map ckey cs)"
    unfolding trace_chunks_concat[OF wf] by simp
  moreover have "count_list (map (kmh_enc md5) (map ckey cs)) (kmh_enc md5 x) = count_list (map ckey cs) x"
    using assms(3) by (intro count_list_map_inj) simp
  ultimately show ?thesis unfolding lines trace_entries_def by simp
qed

text \<open>A stand-in for MD5 in the concrete runs: sixteen bytes.\<close>

definition demo_md5 :: "bytes \<Rightarrow> bytes" where
  "demo_md5 x = take 16 (x @ replicate 16 NUL)"

lemma length_demo_md5 [simp]: "length (demo_md5 x) = 16"
  by (simp add: demo_md5_def)

theorem kmh_trace_roundtrip_witness:
  "trace_entries (concat (map (\<lambda>c. kmh_line (kmh_enc demo_md5 (ckey c)) (csize c)) [demo_chunk])) =
      Inr (map (\<lambda>c. c\<lparr>ckey := kmh_enc demo_md5 (ckey c)\<rparr>) [demo_chunk])"
  using kmh_trace_roundtrip[of demo_md5 "[demo_chunk]" "ckey demo_chunk"]
  by (simp add: demo_chunk_def)

section \<open>Properties of the converters\<close>

lemma length_zero_fp: "length zero_fp = 20"
  by (simp add: zero_fp_def)

lemma Check0_iff: "length s = 20 \<Longrightarrow> Check0 s \<longleftrightarrow> s = zero_fp"
  by (simp add: Check0_def list_eq_iff_nth_eq length_zero_fp)

lemma tran_loop_records:
  assumes "\<forall>(fp, pad) \<in> set recs. length fp = 20 \<and> length pad = 12"
  shows "tran_loop skip md5 (concat (map (\<lambda>(fp, pad). fp @ pad) recs)) =
    concat (map (tran_line md5) (filter (\<lambda>fp. \<not> (skip \<and> fp = zero_fp)) (map fst recs)))"
  using assms
proof (induction recs)
  case Nil
  then show ?case by (simp add: tran_loop.simps)
next
  case (Cons r recs)
  obtain fp pad where r: "r = (fp, pad)" by (cases r)
  have len: "length fp = 20" "length pad = 12" using Cons.prems r by auto
  let ?rest = "concat (map (\<lambda>(fp, pad). fp @ pad) recs)"
  have "take 20 (fp @ pad @ ?rest) = fp" "drop 32 (fp @ pad @ ?rest) = ?rest"
    "20 \<le> length (fp @ pad @ ?rest)" "32 \<le> length (fp @ pad @ ?rest)" using len by simp_all
  then show ?case
    using Cons Check0_iff[OF len(1)] r by (subst tran_loop.simps) simp
qed

text \<open>C23. The converters print one trace line for every 32-byte record of the file, after its
  twelve-byte header: \<open>tran2vm_without_zero\<close> leaves out exactly the records with the fingerprint of
  the zero chunk, \<open>tran2vm_with_zero\<close> none.\<close>

theorem tran2vm_records:
  assumes "length header = 12" "\<forall>(fp, pad) \<in> set recs. length fp = 20 \<and> length pad = 12"
  shows "main_tran2vm_with_zero md5 (header @ concat (map (\<lambda>(fp, pad). fp @ pad) recs)) =
      tran_title @ concat (map (tran_line md5) (map fst recs)) \<and>
    main_tran2vm_without_zero md5 (header @ concat (map (\<lambda>(fp, pad). fp @ pad) recs)) =
      tran_title @ concat (map (tran_line md5) (filter (\<lambda>fp. fp \<noteq> zero_fp) (map fst recs)))"
  using assms tran_loop_records[OF assms(2), of False md5] tran_loop_records[OF assms(2), of True md5]
  by (simp add: main_tran2vm_with_zero_def main_tran2vm_without_zero_def)

theorem tran2vm_records_witness:
  "main_tran2vm_without_zero demo_md5 (replicate 12 NUL @ concat (map (\<lambda>(fp, pad). fp @ pad)
      [(zero_fp, replicate 12 NUL), (replicate 20 (CHR ''x''), replicate 12 NUL)])) =
    tran_title @ tran_line demo_md5 (replicate 20 (CHR ''x''))"
proof -
  have "replicate 20 (CHR ''x'') ! 0 \<noteq> zero_fp ! 0" by (simp add: zero_fp_def char_of_def)
  then have "replicate 20 (CHR ''x'') \<noteq> zero_fp" by metis
  then show ?thesis
    using tran2vm_records[of "replicate 12 NUL" "[(zero_fp, replicate 12 NUL), (replicate 20 (CHR ''x''), replicate 12 NUL)]" demo_md5]
    by (simp add: length_zero_fp)
qed

end
