(* ===== verification/Duplicate.thy ===== *)
theory Duplicate
  imports Segment LocalityCount
begin

text \<open>
  \<open>multistream/src/similarity/duplicate.cc\<close>: a first pass counts the chunks of a trace, a second
  pass prints the lines of the chunks that occur more than once. The theorems show that exactly
  those are printed, in order, and that the output is a trace again.
\<close>

section \<open>The program\<close>

record 'db dup =
  ddb :: 'db
  dtotal :: u64
  dduplicate :: u64
  dout :: string

definition init_db_dup :: "'db leveldb \<Rightarrow> string \<Rightarrow> 'db dup \<Rightarrow> cpp_error + 'db dup" where
  "init_db_dup L db_name s = bindE (open_db L db_name) (\<lambda>d. Inr (s\<lparr>ddb := d\<rparr>))"

text \<open>The body of \<open>read_hashes\<close>: any status but ok starts the count at one.\<close>

definition count_chunk_dup :: "'db leveldb \<Rightarrow> bytes \<Rightarrow> 'db dup \<Rightarrow> cpp_error + 'db dup" where
  "count_chunk_dup L hash s0 =
     (let s = s0\<lparr>dtotal := dtotal s0 + 1\<rparr>;
          (status, existing_value) = ldb_get L (ddb s) hash []
      in bindE (if status = StOk
                then bindE (read_u64 existing_value 0) (\<lambda>count.
                       Inr (count + 1, s\<lparr>ddb := snd (ldb_delete L (ddb s) hash)\<rparr>))
                else Inr (1, s)) (\<lambda>(count, s).
           Inr (s\<lparr>ddb := snd (ldb_put L (ddb s) hash (u64_bytes count))\<rparr>)))"

definition read_hashes_dup :: "'db leveldb \<Rightarrow> string \<Rightarrow> 'db dup \<Rightarrow> cpp_error + 'db dup" where
  "read_hashes_dup L file s =
     foldE (\<lambda>l s. if strpbrk l ''Chunk'' then Inr s else count_chunk_dup L (fst (parse_hash l)) s)
       (fgets_lines file) s"

definition dup_line :: "bytes \<Rightarrow> u64 \<Rightarrow> string" where
  "dup_line hash sz = fp_text hash @ TAB # to_string sz @ TAB # ''10'' @ [LF]"

text \<open>The body of \<open>remove_unique\<close>: an uncounted chunk ends the program with \<open>exit(1)\<close>.\<close>

definition remove_unique_chunk :: "'db leveldb \<Rightarrow> chunk \<Rightarrow> 'db dup \<Rightarrow> cpp_error + 'db dup" where
  "remove_unique_chunk L c s =
     (let (status, existing_value) = ldb_get L (ddb s) (ckey c) []
      in if status = StOk
         then bindE (read_u64 existing_value 0) (\<lambda>count.
                Inr (if count > 1
                     then s\<lparr>dduplicate := dduplicate s + 1, dout := dout s @ dup_line (ckey c) (csize c)\<rparr>
                     else s))
         else Inl (ExitCall 1))"

definition remove_unique :: "'db leveldb \<Rightarrow> string \<Rightarrow> 'db dup \<Rightarrow> cpp_error + 'db dup" where
  "remove_unique L file s =
     foldE (\<lambda>l s. if strpbrk l ''Chunk'' then Inr s
                  else bindE (chunk_of_line l) (\<lambda>c. remove_unique_chunk L c s))
       (fgets_lines file) s"

definition dup_summary :: "u64 \<Rightarrow> u64 \<Rightarrow> string" where
  "dup_summary dups tot =
     ''[REMOVE UNIQUE] number of duplicate chunks: '' @ to_string dups @ ''/'' @ to_string tot @ [LF]"

definition main_dup ::
  "'db leveldb \<Rightarrow> (string \<rightharpoonup> string) \<Rightarrow> string list \<Rightarrow> 'db dup \<Rightarrow> cpp_error + 'db dup" where
  "main_dup L fs argv s =
     (if length argv < 3 then Inl AssertFail
      else bindE (init_db_dup L (argv ! 2) s) (\<lambda>s.
           case fs (argv ! 1) of
             None \<Rightarrow> Inl AssertFail
           | Some file \<Rightarrow>
               bindE (read_hashes_dup L file s) (\<lambda>s.
               bindE (remove_unique L file s) (\<lambda>s.
                 Inr (s\<lparr>dout := dout s @ dup_summary (dduplicate s) (dtotal s)\<rparr>)))))"

section \<open>The first pass\<close>

definition dup_follows :: "('db \<Rightarrow> bytes \<rightharpoonup> bytes) \<Rightarrow> 'db dup \<Rightarrow> bytes list \<Rightarrow> 'db dup \<Rightarrow> bool" where
  "dup_follows view s0 xs s \<longleftrightarrow>
     view (ddb s) = freq_spec xs \<and>
     (\<exists>d. s = s0\<lparr>ddb := d, dtotal := dtotal s0 + word_of_nat (length xs)\<rparr>)"

context leveldb_laws
begin

lemma count_chunk_dup_follows:
  assumes "dup_follows view s0 xs s"
  shows "\<exists>s'. count_chunk_dup L x s = Inr s' \<and> dup_follows view s0 (xs @ [x]) s'"
proof -
  obtain d where s: "s = s0\<lparr>ddb := d, dtotal := dtotal s0 + word_of_nat (length xs)\<rparr>"
    and v: "view d = freq_spec xs"
    using assms by (auto simp: dup_follows_def)
  have f: "freq_spec xs x = (if x \<in> set xs then Some (u64_bytes (word_of_nat (count_list xs x))) else None)"
    by (simp add: freq_spec_def)
  let ?d' = "snd (ldb_put L (if x \<in> set xs then snd (ldb_delete L d x) else d) x
    (u64_bytes (word_of_nat (count_list xs x) + 1)))"
  have "count_chunk_dup L x s = Inr (s0\<lparr>ddb := ?d', dtotal := dtotal s0 + word_of_nat (length (xs @ [x]))\<rparr>)"
    unfolding s by (cases "x \<in> set xs") (simp_all add: count_chunk_dup_def get_cases v f Let_def)
  moreover have "view ?d' = freq_spec (xs @ [x])"
    by (simp add: view_put view_delete v freq_spec_snoc)
  ultimately show ?thesis by (auto simp: dup_follows_def)
qed

end

sublocale leveldb_laws \<subseteq> dup_count: sequence_store "count_chunk_dup L" "\<lambda>_. True" "dup_follows view s0" for s0
  by unfold_locales (auto intro: count_chunk_dup_follows)

context leveldb_laws
begin

lemma read_hashes_dup_follows:
  assumes "view (ddb s) = Map.empty"
  shows "\<exists>d. read_hashes_dup L file s =
      Inr (s\<lparr>ddb := d, dtotal := dtotal s + word_of_nat (length (trace_chunks file))\<rparr>) \<and>
    view d = freq_spec (trace_chunks file)"
proof -
  have "dup_follows view s [] s"
    using assms unfolding dup_follows_def
    by (intro conjI exI[of _ "ddb s"]) (auto simp: freq_spec_def fun_eq_iff)
  from dup_count.absorb_all[OF this, of "trace_chunks file"]
  have "\<exists>s'. foldE (count_chunk_dup L) (trace_chunks file) s = Inr s' \<and> dup_follows view s (trace_chunks file) s'"
    by simp
  moreover have "read_hashes_dup L file s = foldE (count_chunk_dup L) (trace_chunks file) s"
    unfolding read_hashes_dup_def trace_chunks_def trace_lines_def by (rule foldE_skip)
  ultimately show ?thesis by (auto simp: dup_follows_def)
qed

end

section \<open>The second pass\<close>

definition duplicated :: "bytes list \<Rightarrow> chunk list \<Rightarrow> chunk list" where
  "duplicated xs cs = filter (\<lambda>c. 1 < count_list xs (ckey c)) cs"

context leveldb_laws
begin

lemma remove_unique_chunks:
  assumes "view (ddb s) = freq_spec xs" "length xs < 2 ^ 64" "ckey ` set cs \<subseteq> set xs"
  shows "foldE (remove_unique_chunk L) cs s = Inr (s\<lparr>
    dduplicate := dduplicate s + word_of_nat (length (duplicated xs cs)),
    dout := dout s @ concat (map (\<lambda>c. dup_line (ckey c) (csize c)) (duplicated xs cs))\<rparr>)"
  using assms(1,3)
proof (induction cs arbitrary: s)
  case Nil
  then show ?case by (simp add: duplicated_def)
next
  case (Cons c cs)
  let ?n = "count_list xs (ckey c)"
  have g: "ldb_get L (ddb s) (ckey c) [] = (StOk, u64_bytes (word_of_nat ?n))"
    using Cons.prems by (simp add: get_cases freq_spec_def)
  have "?n < 2 ^ 64" using assms(2) count_le_length[of xs "ckey c"] by linarith
  then have "1 < (word_of_nat ?n :: u64) \<longleftrightarrow> 1 < ?n"
    by (simp add: word_less_nat_alt unsigned_of_nat take_bit_nat_eq_self)
  then have step: "remove_unique_chunk L c s = Inr (if 1 < ?n
      then s\<lparr>dduplicate := dduplicate s + 1, dout := dout s @ dup_line (ckey c) (csize c)\<rparr> else s)"
    by (simp add: remove_unique_chunk_def g)
  show ?case
  proof (cases "1 < ?n")
    case True
    let ?s1 = "s\<lparr>dduplicate := dduplicate s + 1, dout := dout s @ dup_line (ckey c) (csize c)\<rparr>"
    have "foldE (remove_unique_chunk L) cs ?s1 = Inr (?s1\<lparr>
      dduplicate := dduplicate ?s1 + word_of_nat (length (duplicated xs cs)),
      dout := dout ?s1 @ concat (map (\<lambda>c. dup_line (ckey c) (csize c)) (duplicated xs cs))\<rparr>)"
      using Cons.prems by (intro Cons.IH) auto
    then show ?thesis using True step by (simp add: duplicated_def add.assoc)
  next
    case False
    then show ?thesis using Cons step by (simp add: duplicated_def)
  qed
qed

end

lemma trace_chunks_entries: "trace_entries file = Inr cs \<Longrightarrow> trace_chunks file = map ckey cs"
proof -
  have "mapE chunk_of_line ls = Inr cs \<Longrightarrow> map (\<lambda>l. fst (parse_hash l)) ls = map ckey cs" for ls
  proof (induction ls arbitrary: cs)
    case (Cons l ls)
    then show ?case by (auto simp: chunk_of_line_def case_prod_beta)
  qed simp
  then show "trace_entries file = Inr cs \<Longrightarrow> trace_chunks file = map ckey cs"
    by (simp add: trace_entries_def trace_chunks_def)
qed

lemma chunk_of_dup_line:
  assumes "length fp = FP_SIZE" "unat sz < 2 ^ 31"
  shows "chunk_of_line (dup_line fp sz) = Inr \<lparr>ckey = fp, csize = sz\<rparr>"
  using chunk_of_size_line[OF assms, of "[]" TAB "[]" "''10'' @ [LF]"] by (simp add: dup_line_def)

lemma trace_entries_dup_lines:
  assumes "\<forall>c \<in> set cs. length (ckey c) = FP_SIZE \<and> unat (csize c) < 2 ^ 31"
  shows "trace_entries (concat (map (\<lambda>c. dup_line (ckey c) (csize c)) cs)) = Inr cs"
proof -
  let ?ls = "map (\<lambda>c. (ckey c, to_string (csize c) @ TAB # ''10'')) cs"
  have line: "dup_line fp sz = trace_line fp (to_string sz @ TAB # ''10'')" for fp sz
    by (simp add: dup_line_def trace_line_def)
  have wf: "\<forall>(fp, cols) \<in> set ?ls. length fp = FP_SIZE \<and> plain_cols cols"
  proof -
    have "plain_cols (to_string w @ TAB # ''10'')" for w
      using to_string_plain[of w] by (simp add: plain_cols_def strpbrk_def)
    then show ?thesis using assms by auto
  qed
  have "concat (map (\<lambda>c. dup_line (ckey c) (csize c)) cs) = concat (map (\<lambda>(fp, cols). trace_line fp cols) ?ls)"
    by (simp add: line comp_def)
  then have "trace_lines (concat (map (\<lambda>c. dup_line (ckey c) (csize c)) cs)) =
      map (\<lambda>c. dup_line (ckey c) (csize c)) cs"
    using trace_lines_concat[OF wf] by (simp add: line)
  moreover have "mapE chunk_of_line (map (\<lambda>c. dup_line (ckey c) (csize c)) cs) = Inr (map (\<lambda>c. c) cs)"
    using assms by (intro mapE_all) (simp add: chunk_of_dup_line)
  ultimately show ?thesis by (simp add: trace_entries_def)
qed

lemma duplicate_run:
  assumes "leveldb_laws L view" "view (ddb s) = Map.empty" "trace_entries file = Inr cs" "length cs < 2 ^ 64"
  shows "\<exists>d. bindE (read_hashes_dup L file s) (remove_unique L file) =
    Inr (s\<lparr>ddb := d, dtotal := dtotal s + word_of_nat (length cs),
      dduplicate := dduplicate s + word_of_nat (length (duplicated (map ckey cs) cs)),
      dout := dout s @ concat (map (\<lambda>c. dup_line (ckey c) (csize c)) (duplicated (map ckey cs) cs))\<rparr>)"
proof -
  have xs: "trace_chunks file = map ckey cs" by (rule trace_chunks_entries[OF assms(3)])
  obtain d where r: "read_hashes_dup L file s = Inr (s\<lparr>ddb := d, dtotal := dtotal s + word_of_nat (length cs)\<rparr>)"
    and d: "view d = freq_spec (map ckey cs)"
    using leveldb_laws.read_hashes_dup_follows[OF assms(1,2), of "file"] unfolding xs by auto
  let ?s1 = "s\<lparr>ddb := d, dtotal := dtotal s + word_of_nat (length cs)\<rparr>"
  have "remove_unique L file ?s1 = foldE (remove_unique_chunk L) cs ?s1"
    unfolding remove_unique_def by (rule foldE_trace_entries[OF assms(3)])
  also have "\<dots> = Inr (?s1\<lparr>
    dduplicate := dduplicate ?s1 + word_of_nat (length (duplicated (map ckey cs) cs)),
    dout := dout ?s1 @ concat (map (\<lambda>c. dup_line (ckey c) (csize c)) (duplicated (map ckey cs) cs))\<rparr>)"
    using d assms(4) by (intro leveldb_laws.remove_unique_chunks[OF assms(1)]) auto
  finally show ?thesis unfolding r by (intro exI[of _ d]) simp
qed

section \<open>Properties\<close>

text \<open>C20. The program prints exactly the chunks that occur more than once in the trace, in their
  order, and counts them: the first pass never fails, the second never meets an uncounted chunk.\<close>

theorem duplicate_output:
  assumes "leveldb_laws L view" "view (ddb s) = Map.empty" "trace_entries file = Inr cs" "length cs < 2 ^ 64"
  shows "\<exists>s'. bindE (read_hashes_dup L file s) (remove_unique L file) = Inr s' \<and>
    dout s' = dout s @ concat (map (\<lambda>c. dup_line (ckey c) (csize c))
      (filter (\<lambda>c. 1 < count_list (map ckey cs) (ckey c)) cs)) \<and>
    dtotal s' = dtotal s + word_of_nat (length cs) \<and>
    dduplicate s' = dduplicate s + word_of_nat (length (filter (\<lambda>c. 1 < count_list (map ckey cs) (ckey c)) cs))"
  using duplicate_run[OF assms] unfolding duplicated_def by auto

definition demo_dup :: "mem_db dup" where
  "demo_dup = \<lparr>ddb = [], dtotal = 0, dduplicate = 0, dout = []\<rparr>"

theorem duplicate_output_witness:
  "\<exists>s'. bindE (read_hashes_dup (mem_leveldb (\<lambda>_. [])) demo_trace demo_dup)
      (remove_unique (mem_leveldb (\<lambda>_. [])) demo_trace) = Inr s' \<and> dout s' = [] \<and> dtotal s' = 1"
  using duplicate_output[OF mem.leveldb_laws_axioms _ demo_trace_entries, of demo_dup "\<lambda>_. []"]
  by (auto simp: demo_dup_def)

text \<open>What the program prints before its summary is a trace again: read back, it is the
  sequence of duplicated chunks with their sizes.\<close>

lemma duplicate_roundtrip:
  assumes "leveldb_laws L view" "view (ddb s) = Map.empty" "dout s = []" "trace_entries file = Inr cs"
    "length cs < 2 ^ 64" "\<forall>c \<in> set cs. unat (csize c) < 2 ^ 31"
  shows "\<exists>s'. bindE (read_hashes_dup L file s) (remove_unique L file) = Inr s' \<and>
    trace_entries (dout s') = Inr (filter (\<lambda>c. 1 < count_list (map ckey cs) (ckey c)) cs)"
proof -
  have "trace_entries (concat (map (\<lambda>c. dup_line (ckey c) (csize c)) (duplicated (map ckey cs) cs))) =
      Inr (duplicated (map ckey cs) cs)"
    using assms(6) trace_entries_keys[OF assms(4)]
    by (intro trace_entries_dup_lines) (auto simp: duplicated_def)
  then show ?thesis using duplicate_run[OF assms(1,2,4,5)] assms(3) by (auto simp: duplicated_def)
qed

lemma duplicate_roundtrip_witness:
  "\<exists>s'. bindE (read_hashes_dup (mem_leveldb (\<lambda>_. [])) demo_trace demo_dup)
      (remove_unique (mem_leveldb (\<lambda>_. [])) demo_trace) = Inr s' \<and> trace_entries (dout s') = Inr []"
  using duplicate_roundtrip[OF mem.leveldb_laws_axioms _ _ demo_trace_entries, of demo_dup "\<lambda>_. []"]
  by (simp add: demo_dup_def demo_chunk_def)

end
