(* ===== verification/CppLib.thy ===== *)
theory CppLib
  imports PQueue
begin

text \<open>
  The parts of the C++ library the similarity programs share: \<open>std::map\<close> as an association list
  kept in the order of its comparator, the counting maps \<open>m[k] += 1\<close>, and the loops that step
  through a string in blocks of fixed size with the bound \<open>size() - d + 1\<close>, which is unsigned and
  wraps around for a string shorter than \<open>d - 1\<close>.
\<close>

section \<open>Ordered maps\<close>

text \<open>The entry of \<open>k\<close> is replaced by \<open>f\<close> of its old value; the key that is present stays. The new
  key of a map without an equivalent one goes to its place in the order.\<close>

fun smap_upd :: "('k \<Rightarrow> 'k \<Rightarrow> bool) \<Rightarrow> 'k \<Rightarrow> ('v option \<Rightarrow> 'v) \<Rightarrow> ('k \<times> 'v) list \<Rightarrow> ('k \<times> 'v) list" where
  "smap_upd lt k f [] = [(k, f None)]"
| "smap_upd lt k f ((k', v) # m) =
     (if lt k' k then (k', v) # smap_upd lt k f m
      else if lt k k' then (k, f None) # (k', v) # m
      else (k', f (Some v)) # m)"

text \<open>\<open>m.insert(make_pair(k, v))\<close> leaves a map that has the key as it is.\<close>

definition smap_insert :: "('k \<Rightarrow> 'k \<Rightarrow> bool) \<Rightarrow> 'k \<Rightarrow> 'v \<Rightarrow> ('k \<times> 'v) list \<Rightarrow> ('k \<times> 'v) list" where
  "smap_insert lt k v = smap_upd lt k (\<lambda>old. case old of None \<Rightarrow> v | Some w \<Rightarrow> w)"

text \<open>\<open>m[k] = v\<close> and \<open>m[k] += 1\<close>, which starts from zero.\<close>

definition smap_assign :: "('k :: linorder) \<Rightarrow> 'v \<Rightarrow> ('k \<times> 'v) list \<Rightarrow> ('k \<times> 'v) list" where
  "smap_assign k v = smap_upd (<) k (\<lambda>_. v)"

definition smap_incr :: "('k :: linorder) \<Rightarrow> ('k \<times> u64) list \<Rightarrow> ('k \<times> u64) list" where
  "smap_incr k = smap_upd (<) k (\<lambda>old. (case old of None \<Rightarrow> 0 | Some n \<Rightarrow> n) + 1)"

lemma keys_smap_upd: "set (map fst (smap_upd lt k f m)) \<subseteq> insert k (set (map fst m))"
proof (induction m)
  case (Cons e m)
  then show ?case by (cases e) (simp, blast)
qed simp

lemma sorted_smap_upd:
  assumes "weak_order lt" "sorted_wrt lt (map fst m)"
  shows "sorted_wrt lt (map fst (smap_upd lt k f m))"
  using assms(2)
proof (induction m)
  case (Cons e m)
  obtain k' v where e: "e = (k', v)" by (cases e)
  have "\<forall>x \<in> set (map fst (smap_upd lt k f m)). lt k' x" if "lt k' k"
    using keys_smap_upd[of lt k f m] Cons.prems that unfolding e by fastforce
  moreover have "\<forall>x \<in> set (map fst m). lt k x" if "lt k k'"
    using Cons.prems that weak_order.trans[OF assms(1)] by (auto simp: e)
  ultimately show ?case using Cons by (auto simp: e)
qed simp

lemma weak_order_less: "weak_order ((<) :: 'k :: linorder \<Rightarrow> 'k \<Rightarrow> bool)"
  by unfold_locales auto

lemma map_of_smap_upd:
  fixes m :: "('k :: linorder \<times> 'v) list"
  assumes "sorted_wrt (<) (map fst m)"
  shows "map_of (smap_upd (<) k f m) = (map_of m)(k \<mapsto> f (map_of m k))"
  using assms
proof (induction m)
  case (Cons e m)
  obtain k' v where e: "e = (k', v)" by (cases e)
  have "k < k' \<Longrightarrow> map_of m k = None"
    using Cons.prems by (auto simp: e map_of_eq_None_iff)
  then show ?case using Cons by (auto simp: e fun_eq_iff)
qed simp

lemma smap_fold_sorted:
  fixes m :: "('k :: linorder \<times> 'v) list"
  shows "sorted_wrt (<) (map fst m) \<Longrightarrow> sorted_wrt (<) (map fst (fold (\<lambda>k. smap_upd (<) k f) ks m))"
  by (induction ks arbitrary: m) (auto intro: sorted_smap_upd[OF weak_order_less])

section \<open>Counting\<close>

definition count_map :: "('k :: linorder) list \<Rightarrow> ('k \<times> u64) list" where
  "count_map xs = fold smap_incr xs []"

lemma count_map_snoc: "count_map (xs @ [x]) = smap_incr x (count_map xs)"
  by (simp add: count_map_def)

lemma count_map_sorted: "sorted_wrt (<) (map fst (count_map xs))"
  by (induction xs rule: rev_induct)
    (auto simp: count_map_snoc smap_incr_def count_map_def intro: sorted_smap_upd[OF weak_order_less])

lemma count_map_lookup:
  "map_of (count_map xs) k = (if k \<in> set xs then Some (word_of_nat (count_list xs k)) else None)"
proof (induction xs rule: rev_induct)
  case (snoc x xs)
  have "map_of (count_map (xs @ [x])) = (map_of (count_map xs))(x \<mapsto>
      (case map_of (count_map xs) x of None \<Rightarrow> 0 | Some n \<Rightarrow> n) + 1)"
    unfolding count_map_snoc smap_incr_def by (rule map_of_smap_upd[OF count_map_sorted])
  then show ?case using snoc.IH by (auto simp: count_list_0_iff)
qed (simp add: count_map_def)

lemma count_map_keys: "set (map fst (count_map xs)) = set xs"
proof -
  have "dom (map_of (count_map xs)) = set xs"
    by (auto simp: dom_def count_map_lookup)
  then show ?thesis by (simp add: dom_map_of_conv_image_fst)
qed

lemma count_map_distinct: "distinct (map fst (count_map xs))"
  using count_map_sorted strict_sorted_iff by blast

lemma length_count_map: "length (count_map xs) = card (set xs)"
  using distinct_card[OF count_map_distinct, of xs] count_map_keys[of xs] by simp

section \<open>Loops over blocks\<close>

text \<open>\<open>for (i = start; i < lim; i += d)\<close>.\<close>

function for_step :: "nat \<Rightarrow> nat \<Rightarrow> (nat \<Rightarrow> 's \<Rightarrow> 'e + 's) \<Rightarrow> nat \<Rightarrow> 's \<Rightarrow> 'e + 's" where
  "for_step d lim body i s =
     (if i < lim \<and> 0 < d then bindE (body i s) (for_step d lim body (i + d)) else Inr s)"
  by pat_completeness auto
termination
  by (relation "measure (\<lambda>(d, lim, _, i, _). lim - i)") auto

declare for_step.simps [simp del]

text \<open>The bound \<open>size() - d + 1\<close> on \<open>size_t\<close>.\<close>

definition block_lim :: "nat \<Rightarrow> nat \<Rightarrow> nat" where
  "block_lim len d = unat (word_of_nat len - word_of_nat d + 1 :: u64)"

lemma block_lim_value:
  assumes "d \<le> len" "len < 2 ^ 63" "0 < d"
  shows "block_lim len d = len - d + 1"
proof -
  have "(word_of_nat len - word_of_nat d + 1 :: u64) = word_of_nat (len - d + 1)"
    using assms(1) by (simp add: of_nat_diff)
  moreover have "len - d + 1 < 2 ^ 64" using assms by simp
  ultimately show ?thesis
    unfolding block_lim_def by (simp add: unsigned_of_nat take_bit_nat_eq_self del: of_nat_add of_nat_Suc)
qed

lemma block_lim_empty:
  assumes "2 \<le> d" "d < 2 ^ 63"
  shows "0 < block_lim 0 d"
proof -
  have "(0 - word_of_nat d + 1 :: u64) \<noteq> 0"
  proof
    assume "(0 - word_of_nat d + 1 :: u64) = 0"
    then have "(word_of_nat d :: u64) = 1" by (simp add: algebra_simps)
    moreover have "unat (word_of_nat d :: u64) = d"
      using assms by (simp add: unsigned_of_nat take_bit_nat_eq_self)
    ultimately show False using assms by simp
  qed
  then show ?thesis by (simp add: block_lim_def unat_gt_0)
qed

lemma for_step_shift:
  assumes "0 < d" "\<And>k. d * k < lim \<longleftrightarrow> k < n" "k \<le> n"
  shows "for_step d lim body (d * k) s = foldE (\<lambda>i. body (d * i)) [k..<n] s"
  using assms(3)
proof (induction "n - k" arbitrary: k s)
  case 0
  then show ?case using assms(2)[of k] by (simp add: for_step.simps)
next
  case (Suc j)
  then have k: "k < n" by simp
  moreover have "for_step d lim body (d * k + d) = foldE (\<lambda>i. body (d * i)) [Suc k..<n]"
    using Suc.hyps(1)[of "Suc k"] Suc.hyps(2) k by (auto simp: fun_eq_iff algebra_simps)
  ultimately show ?case
    using assms(1) assms(2)[of k] by (subst for_step.simps) (simp add: upt_conv_Cons)
qed

lemma drop_concat_blocks:
  assumes "\<forall>b \<in> set bs. length b = d" "i < length bs"
  shows "take d (drop (d * i) (concat bs)) = bs ! i"
  using assms
proof (induction bs arbitrary: i)
  case (Cons b bs)
  then show ?case by (cases i) auto
qed simp

lemma length_concat_blocks: "\<forall>b \<in> set bs. length b = d \<Longrightarrow> length (concat bs) = d * length bs"
  by (induction bs) auto

lemma read_block:
  assumes "\<forall>b \<in> set bs. length b = d" "i < length bs"
  shows "read_bytes (concat bs) (d * i) d = Inr (bs ! i)"
proof -
  have "d * i + d \<le> length (concat bs)"
    using assms(2) mult_le_mono2[of "Suc i" "length bs" d] by (simp add: length_concat_blocks[OF assms(1)])
  then show ?thesis by (simp add: read_bytes_inside drop_concat_blocks[OF assms])
qed

text \<open>A loop that reads a block and works on it is a loop over the blocks.\<close>

lemma foldE_upt_nth: "foldE (\<lambda>i. f (xs ! i)) [0..<length xs] s = foldE f xs s"
  using foldE_map[of f "\<lambda>i. xs ! i" "[0..<length xs]" s] by (simp add: map_nth)

lemma for_step_read:
  assumes "\<forall>b \<in> set bs. length b = d" "0 < d" "\<And>k. d * k < lim \<longleftrightarrow> k < length bs"
  shows "for_step d lim (\<lambda>i s. bindE (read_bytes (concat bs) i d) (\<lambda>b. g b s)) 0 s = foldE g bs s"
proof -
  let ?body = "\<lambda>i s. bindE (read_bytes (concat bs) i d) (\<lambda>b. g b s)"
  have "for_step d lim ?body 0 s = foldE (\<lambda>i. ?body (d * i)) [0..<length bs] s"
    using for_step_shift[OF assms(2,3), of 0 ?body s] by simp
  also have "\<dots> = foldE (\<lambda>i. g (bs ! i)) [0..<length bs] s"
    by (rule foldE_cong_set) (simp add: read_block[OF assms(1)])
  also have "\<dots> = foldE g bs s" by (rule foldE_upt_nth)
  finally show ?thesis .
qed

text \<open>Both bounds the programs use, \<open>size()\<close> and \<open>size() - d + 1\<close>, run over all the blocks; the second one
  not of an empty string.\<close>

lemma for_step_size:
  assumes "\<forall>b \<in> set bs. length b = d" "0 < d"
  shows "for_step d (length (concat bs)) (\<lambda>i s. bindE (read_bytes (concat bs) i d) (\<lambda>b. g b s)) 0 s = foldE g bs s"
  using assms by (intro for_step_read) (simp_all add: length_concat_blocks[OF assms(1)])

lemma for_step_blocks:
  assumes "\<forall>b \<in> set bs. length b = d" "0 < d" "bs \<noteq> []" "d * length bs < 2 ^ 63"
  shows "for_step d (block_lim (length (concat bs)) d) (\<lambda>i s. bindE (read_bytes (concat bs) i d) (\<lambda>b. g b s)) 0 s =
    foldE g bs s"
proof (rule for_step_read[OF assms(1,2)])
  fix k
  have n: "0 < length bs" using assms(3) by simp
  have "block_lim (length (concat bs)) d = d * length bs - d + 1"
    unfolding length_concat_blocks[OF assms(1)] using assms(2,4) n by (intro block_lim_value) (auto simp: Suc_le_eq)
  then have "block_lim (length (concat bs)) d = Suc (d * (length bs - 1))"
    by (simp add: diff_mult_distrib2)
  then have "d * k < block_lim (length (concat bs)) d \<longleftrightarrow> k \<le> length bs - 1"
    using assms(2) by (simp add: less_Suc_eq_le)
  then show "d * k < block_lim (length (concat bs)) d \<longleftrightarrow> k < length bs" using n by linarith
qed

text \<open>On the empty string the second bound wraps around, and the first read is out of bounds.\<close>

lemma for_step_empty:
  assumes "2 \<le> d" "d < 2 ^ 63"
  shows "for_step d (block_lim 0 d) (\<lambda>i s. bindE (read_bytes [] i d) (\<lambda>b. g b s)) 0 s = Inl OutOfBounds"
  using block_lim_empty[OF assms] assms(1) by (subst for_step.simps) (simp add: read_bytes_def)

end
