(* ===== verification/Dendrogram.thy ===== *)
theory Dendrogram
  imports Main Complex_Main "HOL-Library.Disjoint_Sets"
begin

text \<open>
  What a hierarchical clustering promises, without the arrays that compute it: a sequence of merges of
  clusters, the clusters that are present after each merge, and the rule of complete linkage, by which
  two closest clusters are merged next. The distance of two clusters is the largest distance of their
  points. The lemmas give the partition at every level, the monotony of the merge distances, and the
  diameter of the clusters.
\<close>

section \<open>Merges\<close>

text \<open>The points are \<open>0, ..., n - 1\<close>, and their labels; merge \<open>m\<close> makes the cluster with label \<open>n + m\<close>.\<close>

type_synonym merges = "(nat \<times> nat) list"

definition clusters :: "nat \<Rightarrow> merges \<Rightarrow> nat set list" where
  "clusters n zs = foldl (\<lambda>cs (a, b). cs @ [cs ! a \<union> cs ! b]) (map (\<lambda>i. {i}) [0..<n]) zs"

text \<open>The labels of the clusters that are present after \<open>m\<close> merges.\<close>

primrec tops :: "nat \<Rightarrow> merges \<Rightarrow> nat \<Rightarrow> nat set" where
  "tops n zs 0 = {..<n}"
| "tops n zs (Suc m) = insert (n + m) (tops n zs m - {fst (zs ! m), snd (zs ! m)})"

definition wf_merges :: "nat \<Rightarrow> merges \<Rightarrow> bool" where
  "wf_merges n zs \<longleftrightarrow> (\<forall>m < length zs. fst (zs ! m) \<in> tops n zs m \<and> snd (zs ! m) \<in> tops n zs m \<and> fst (zs ! m) < snd (zs ! m))"

lemma clusters_snoc: "clusters n (zs @ [(a, b)]) = clusters n zs @ [clusters n zs ! a \<union> clusters n zs ! b]"
  by (simp add: clusters_def)

lemma length_clusters [simp]: "length (clusters n zs) = n + length zs"
  by (induction zs rule: rev_induct) (auto simp: clusters_snoc clusters_def)

lemma clusters_append: "l < n + length zs \<Longrightarrow> clusters n (zs @ ys) ! l = clusters n zs ! l"
proof (induction ys rule: rev_induct)
  case (snoc y ys)
  obtain a b where "y = (a, b)" by (cases y)
  then show ?case using snoc by (simp add: clusters_snoc nth_append flip: append_assoc)
qed simp

lemma clusters_leaf: "i < n \<Longrightarrow> clusters n zs ! i = {i}"
  using clusters_append[of i n "[]" zs] by (simp add: clusters_def)

lemma tops_append: "m \<le> length zs \<Longrightarrow> tops n (zs @ ys) m = tops n zs m"
  by (induction m) (auto simp: nth_append)

lemma tops_less: "l \<in> tops n zs m \<Longrightarrow> l < n + m"
  by (induction m) (auto simp: less_SucI)

lemma finite_tops [simp]: "finite (tops n zs m)"
  by (induction m) auto

lemma wf_merges_append: "wf_merges n (zs @ ys) \<Longrightarrow> wf_merges n zs"
  unfolding wf_merges_def by (metis length_append nth_append order_less_imp_le tops_append trans_less_add1)

lemma wf_merges_snoc: "wf_merges n (zs @ [(a, b)]) \<longleftrightarrow> wf_merges n zs \<and> a \<in> tops n zs (length zs) \<and> b \<in> tops n zs (length zs) \<and> a < b"
  by (auto simp: wf_merges_def less_Suc_eq nth_append tops_append)

lemma wf_mergesD:
  assumes "wf_merges n zs" "m < length zs" "zs ! m = (a, b)"
  shows "a \<in> tops n zs m" "b \<in> tops n zs m" "a < b" "b < n + m"
  using assms tops_less[of b n zs m] by (auto simp: wf_merges_def)

text \<open>The cluster a merge makes.\<close>

lemma clusters_merge:
  assumes "wf_merges n zs" "m < length zs" "zs ! m = (a, b)"
  shows "clusters n zs ! (n + m) = clusters n zs ! a \<union> clusters n zs ! b"
proof -
  have ab: "a < n + m" "b < n + m" using wf_mergesD[OF assms] by simp_all
  let ?pre = "take m zs"
  have zs: "zs = (?pre @ [(a, b)]) @ drop (Suc m) zs" using assms(2,3) by (simp add: id_take_nth_drop flip: assms(3))
  have pre: "length ?pre = m" using assms(2) by simp
  have "clusters n zs ! (n + m) = clusters n (?pre @ [(a, b)]) ! (n + m)"
    using zs clusters_append[of "n + m" n "?pre @ [(a, b)]" "drop (Suc m) zs"] pre by simp
  also have "\<dots> = clusters n ?pre ! a \<union> clusters n ?pre ! b" using pre by (simp add: clusters_snoc nth_append)
  also have "clusters n ?pre ! l = clusters n zs ! l" if "l < n + m" for l
    using clusters_append[of l n ?pre "drop m zs"] that pre by simp
  ultimately show ?thesis using ab \<open>\<And>l. l < n + m \<Longrightarrow> clusters n ?pre ! l = clusters n zs ! l\<close> by simp
qed

lemma card_tops: "wf_merges n zs \<Longrightarrow> m \<le> length zs \<Longrightarrow> card (tops n zs m) + m = n"
proof (induction m)
  case (Suc m)
  obtain a b where ab: "zs ! m = (a, b)" by (cases "zs ! m")
  note wf = wf_mergesD[OF Suc.prems(1) _ ab]
  have "card (tops n zs m - {a, b}) = card (tops n zs m) - 2"
    using wf Suc.prems(2) by (subst card_Diff_subset) auto
  moreover have "2 \<le> card (tops n zs m)"
    using card_mono[of "tops n zs m" "{a, b}"] wf Suc.prems(2) by simp
  moreover have "n + m \<notin> tops n zs m - {a, b}" using tops_less by blast
  ultimately show ?case using Suc ab by simp
qed simp

text \<open>At every level the clusters are a partition of the points.\<close>

lemma tops_cover:
  assumes "wf_merges n zs" "m \<le> length zs"
  shows "(\<Union>l \<in> tops n zs m. clusters n zs ! l) = {..<n}"
  using assms(2)
proof (induction m)
  case 0
  then show ?case by (auto simp: clusters_leaf)
next
  case (Suc m)
  obtain a b where ab: "zs ! m = (a, b)" by (cases "zs ! m")
  have m: "m < length zs" using Suc.prems by simp
  note wf = wf_mergesD[OF assms(1) m ab]
  have "(\<Union>l \<in> tops n zs (Suc m). clusters n zs ! l) = clusters n zs ! a \<union> clusters n zs ! b \<union> (\<Union>l \<in> tops n zs m - {a, b}. clusters n zs ! l)"
    using clusters_merge[OF assms(1) m ab] ab by simp
  also have "\<dots> = (\<Union>l \<in> tops n zs m. clusters n zs ! l)" using wf by blast
  finally show ?case using Suc m by simp
qed

lemma tops_disjoint:
  assumes "wf_merges n zs" "m \<le> length zs"
  shows "disjoint_family_on (\<lambda>l. clusters n zs ! l) (tops n zs m)"
  using assms(2)
proof (induction m)
  case 0
  then show ?case by (auto simp: disjoint_family_on_def clusters_leaf)
next
  case (Suc m)
  obtain a b where ab: "zs ! m = (a, b)" by (cases "zs ! m")
  have m: "m < length zs" using Suc.prems by simp
  note wf = wf_mergesD[OF assms(1) m ab]
  have d: "disjoint_family_on (\<lambda>l. clusters n zs ! l) (tops n zs m)" using Suc m by simp
  have "clusters n zs ! x \<inter> (clusters n zs ! a \<union> clusters n zs ! b) = {}" if "x \<in> tops n zs m - {a, b}" for x
    using d that wf by (fastforce simp: disjoint_family_on_def)
  then show ?case
    using d ab clusters_merge[OF assms(1) m ab] by (auto simp: disjoint_family_on_def)
qed

lemma clusters_nonempty:
  assumes "wf_merges n zs" "l < n + length zs"
  shows "clusters n zs ! l \<noteq> {} \<and> clusters n zs ! l \<subseteq> {..<n}"
  using assms(2)
proof (induction l rule: less_induct)
  case (less l)
  show ?case
  proof (cases "l < n")
    case False
    then obtain m where m: "l = n + m" "m < length zs" using less.prems by (metis add_diff_inverse_nat add_less_cancel_left)
    obtain a b where ab: "zs ! m = (a, b)" by (cases "zs ! m")
    note wf = wf_mergesD[OF assms(1) m(2) ab]
    then show ?thesis using less.IH[of a] less.IH[of b] less.prems m clusters_merge[OF assms(1) m(2) ab] by auto
  qed (auto simp: clusters_leaf)
qed

lemma finite_cluster: "wf_merges n zs \<Longrightarrow> l < n + length zs \<Longrightarrow> finite (clusters n zs ! l)"
  using clusters_nonempty[of n zs l] finite_subset[of _ "{..<n}"] by simp

text \<open>A label is merged once.\<close>

lemma merged_once:
  assumes "wf_merges n zs" "m < m'" "m' < length zs" "x \<in> {fst (zs ! m), snd (zs ! m)}"
  shows "x \<notin> tops n zs m'"
proof -
  have "x < n + m" using assms wf_mergesD[OF assms(1), of m] by (cases "zs ! m") auto
  have "x \<notin> tops n zs (Suc m + j)" for j
    using assms(4) \<open>x < n + m\<close> by (induction j) auto
  from this[of "m' - Suc m"] assms(2) show ?thesis by simp
qed

lemma card_merge:
  assumes "wf_merges n zs" "m < length zs" "zs ! m = (a, b)"
  shows "card (clusters n zs ! (n + m)) = card (clusters n zs ! a) + card (clusters n zs ! b)"
proof -
  note wf = wf_mergesD[OF assms]
  have "clusters n zs ! a \<inter> clusters n zs ! b = {}"
    using tops_disjoint[OF assms(1), of m] assms(2) wf by (auto simp: disjoint_family_on_def)
  then show ?thesis
    using wf assms(2) by (simp add: clusters_merge[OF assms] card_Un_disjoint finite_cluster[OF assms(1)])
qed

section \<open>Complete linkage\<close>

definition link :: "(nat \<Rightarrow> nat \<Rightarrow> real) \<Rightarrow> nat set \<Rightarrow> nat set \<Rightarrow> real" where
  "link D A B = Max ((\<lambda>(a, b). D a b) ` (A \<times> B))"

definition dissimilarity :: "nat \<Rightarrow> (nat \<Rightarrow> nat \<Rightarrow> real) \<Rightarrow> bool" where
  "dissimilarity n D \<longleftrightarrow> (\<forall>i < n. \<forall>j < n. D i j = D j i)"

text \<open>Every merge joins two present clusters at the smallest distance of any two.\<close>

definition complete_linkage :: "(nat \<Rightarrow> nat \<Rightarrow> real) \<Rightarrow> nat \<Rightarrow> merges \<Rightarrow> real list \<Rightarrow> bool" where
  "complete_linkage D n zs md \<longleftrightarrow> wf_merges n zs \<and> length md = length zs \<and>
     (\<forall>m < length zs. md ! m = link D (clusters n zs ! fst (zs ! m)) (clusters n zs ! snd (zs ! m)) \<and>
        (\<forall>x \<in> tops n zs m. \<forall>y \<in> tops n zs m. x \<noteq> y \<longrightarrow> md ! m \<le> link D (clusters n zs ! x) (clusters n zs ! y)))"

lemma link_le_iff:
  assumes "finite A" "finite B" "A \<noteq> {}" "B \<noteq> {}"
  shows "link D A B \<le> r \<longleftrightarrow> (\<forall>a \<in> A. \<forall>b \<in> B. D a b \<le> r)"
  using assms by (auto simp: link_def)

lemma link_ge: "finite A \<Longrightarrow> finite B \<Longrightarrow> a \<in> A \<Longrightarrow> b \<in> B \<Longrightarrow> D a b \<le> link D A B"
  unfolding link_def by (rule Max_ge) (auto intro: image_eqI[of _ _ "(a, b)"])

lemma link_attained:
  assumes "finite A" "finite B" "A \<noteq> {}" "B \<noteq> {}"
  shows "\<exists>a \<in> A. \<exists>b \<in> B. link D A B = D a b"
proof -
  have "link D A B \<in> (\<lambda>(a, b). D a b) ` (A \<times> B)" unfolding link_def using assms by (intro Max_in) auto
  then show ?thesis by auto
qed

lemma link_union:
  assumes "finite A" "finite A'" "finite B" "A \<noteq> {}" "A' \<noteq> {}" "B \<noteq> {}"
  shows "link D (A \<union> A') B = max (link D A B) (link D A' B)"
proof -
  have "(\<lambda>(a, b). D a b) ` ((A \<union> A') \<times> B) = (\<lambda>(a, b). D a b) ` (A \<times> B) \<union> (\<lambda>(a, b). D a b) ` (A' \<times> B)" by auto
  then show ?thesis using assms by (simp add: link_def Max_Un)
qed

lemma link_sym:
  assumes "dissimilarity n D" "A \<subseteq> {..<n}" "B \<subseteq> {..<n}"
  shows "link D A B = link D B A"
proof -
  have sym: "D a b = D b a" if "a \<in> A" "b \<in> B" for a b using that assms by (auto simp: dissimilarity_def subset_iff)
  have "(\<lambda>(a, b). D a b) ` (A \<times> B) = (\<lambda>(a, b). D a b) ` prod.swap ` (A \<times> B)"
    unfolding image_image by (rule image_cong) (auto intro: sym)
  then show ?thesis by (simp add: link_def product_swap)
qed

lemma complete_linkage_Nil: "complete_linkage D n [] []"
  by (simp add: complete_linkage_def wf_merges_def)

lemma complete_linkage_snoc:
  assumes "complete_linkage D n zs md" "a \<in> tops n zs (length zs)" "b \<in> tops n zs (length zs)" "a < b"
    "v = link D (clusters n zs ! a) (clusters n zs ! b)"
    "\<And>x y. x \<in> tops n zs (length zs) \<Longrightarrow> y \<in> tops n zs (length zs) \<Longrightarrow> x \<noteq> y \<Longrightarrow> v \<le> link D (clusters n zs ! x) (clusters n zs ! y)"
  shows "complete_linkage D n (zs @ [(a, b)]) (md @ [v])"
proof -
  have wf: "wf_merges n (zs @ [(a, b)])" "length md = length zs" using assms(1-4) by (simp_all add: complete_linkage_def wf_merges_snoc)
  have same: "clusters n (zs @ [(a, b)]) ! l = clusters n zs ! l" if "l \<in> tops n zs m" "m \<le> length zs" for l m
    using clusters_append[of l n zs "[(a, b)]"] tops_less[OF that(1)] that(2) by simp
  have part: "fst (zs ! m) \<in> tops n zs m" "snd (zs ! m) \<in> tops n zs m" if "m < length zs" for m
    using assms(1) that by (auto simp: complete_linkage_def wf_merges_def)
  have same_part: "clusters n (zs @ [(a, b)]) ! fst (zs ! m) = clusters n zs ! fst (zs ! m)"
    "clusters n (zs @ [(a, b)]) ! snd (zs ! m) = clusters n zs ! snd (zs ! m)" if "m < length zs" for m
    using same[OF part(1)[OF that]] same[OF part(2)[OF that]] that by simp_all
  show ?thesis
    unfolding complete_linkage_def
  proof (intro conjI allI impI ballI)
    fix m assume m: "m < length (zs @ [(a, b)])"
    show "(md @ [v]) ! m = link D (clusters n (zs @ [(a, b)]) ! fst ((zs @ [(a, b)]) ! m)) (clusters n (zs @ [(a, b)]) ! snd ((zs @ [(a, b)]) ! m))"
      using assms m wf(2) same[OF assms(2)] same[OF assms(3)] same_part[of m] by (cases "m < length zs") (auto simp: nth_append complete_linkage_def)
    fix x y assume "x \<in> tops n (zs @ [(a, b)]) m" "y \<in> tops n (zs @ [(a, b)]) m" "x \<noteq> y"
    moreover have "tops n (zs @ [(a, b)]) m = tops n zs m" using m by (simp add: tops_append)
    ultimately show "(md @ [v]) ! m \<le> link D (clusters n (zs @ [(a, b)]) ! x) (clusters n (zs @ [(a, b)]) ! y)"
      using assms(1,6) m wf(2) same[of _ m] by (cases "m < length zs") (auto simp: nth_append complete_linkage_def less_Suc_eq)
  qed (use wf in auto)
qed

lemma complete_linkageD:
  assumes "complete_linkage D n zs md"
  shows "wf_merges n zs" "length md = length zs"
    "\<And>m a b. m < length zs \<Longrightarrow> zs ! m = (a, b) \<Longrightarrow> md ! m = link D (clusters n zs ! a) (clusters n zs ! b)"
    "\<And>m x y. m < length zs \<Longrightarrow> x \<in> tops n zs m \<Longrightarrow> y \<in> tops n zs m \<Longrightarrow> x \<noteq> y \<Longrightarrow> md ! m \<le> link D (clusters n zs ! x) (clusters n zs ! y)"
  using assms by (auto simp: complete_linkage_def)

lemma link_cluster_union:
  assumes "wf_merges n zs" "m < length zs" "zs ! m = (a, b)" "y < n + length zs"
  shows "link D (clusters n zs ! (n + m)) (clusters n zs ! y) = max (link D (clusters n zs ! a) (clusters n zs ! y)) (link D (clusters n zs ! b) (clusters n zs ! y))"
proof -
  note wf = wf_mergesD[OF assms(1-3)]
  have "a < n + length zs" "b < n + length zs" using wf assms(2) by auto
  then show ?thesis
    using clusters_nonempty[OF assms(1)] finite_cluster[OF assms(1)] assms(4)
    by (simp add: clusters_merge[OF assms(1-3)] link_union)
qed

lemma link_clusters_sym:
  assumes "wf_merges n zs" "dissimilarity n D" "x < n + length zs" "y < n + length zs"
  shows "link D (clusters n zs ! x) (clusters n zs ! y) = link D (clusters n zs ! y) (clusters n zs ! x)"
  using clusters_nonempty[OF assms(1)] assms(3,4) by (intro link_sym[OF assms(2)]) auto

text \<open>A merge never makes two clusters closer than the clusters it merged: the distances of the merges grow.\<close>

lemma merge_distances_mono:
  assumes "complete_linkage D n zs md" "dissimilarity n D" "Suc m < length zs"
  shows "md ! m \<le> md ! Suc m"
proof -
  note cl = complete_linkageD[OF assms(1)]
  obtain a b where ab: "zs ! m = (a, b)" by (cases "zs ! m")
  obtain x y where xy: "zs ! Suc m = (x, y)" by (cases "zs ! Suc m")
  note wf = wf_mergesD[OF cl(1) _ ab] and wf' = wf_mergesD[OF cl(1) assms(3) xy]
  have m: "m < length zs" using assms(3) by simp
  have far: "md ! m \<le> link D (clusters n zs ! (n + m)) (clusters n zs ! v)" if "v \<in> tops n zs m - {a, b}" for v
  proof -
    have "v < n + length zs" using that tops_less[of v n zs m] assms(3) by auto
    then show ?thesis
      using cl(4)[OF m, of a v] that wf m by (simp add: link_cluster_union[OF cl(1) m ab] le_max_iff_disj)
  qed
  have "md ! Suc m = link D (clusters n zs ! x) (clusters n zs ! y)" by (rule cl(3)[OF assms(3) xy])
  moreover have "y = n + m \<or> y \<in> tops n zs m - {a, b}" "x \<noteq> n + m \<longrightarrow> x \<in> tops n zs m - {a, b}" "x \<noteq> y"
    using wf' ab by auto
  moreover have "x \<noteq> n + m" if "y \<in> tops n zs m - {a, b}" using wf'(3) that tops_less[of y n zs m] by auto
  moreover have "link D (clusters n zs ! x) (clusters n zs ! (n + m)) = link D (clusters n zs ! (n + m)) (clusters n zs ! x)"
    using wf' assms(3) by (intro link_clusters_sym[OF cl(1) assms(2)]) auto
  ultimately show ?thesis using far[of x] cl(4)[OF m, of x y] by auto
qed

lemma merge_distances_sorted:
  assumes "complete_linkage D n zs md" "dissimilarity n D" "i \<le> j" "j < length zs"
  shows "md ! i \<le> md ! j"
  using assms(3,4)
proof (induction j)
  case (Suc j)
  then show ?case using merge_distances_mono[OF assms(1,2), of j] by (cases "i = Suc j") auto
qed simp

text \<open>Points of a cluster are no further apart than its last merge.\<close>

lemma cluster_diameter:
  assumes "complete_linkage D n zs md" "dissimilarity n D" "l < n + m" "m \<le> length zs" "i \<in> clusters n zs ! l" "j \<in> clusters n zs ! l" "i \<noteq> j"
  shows "0 < m \<and> D i j \<le> md ! (m - 1)"
  using assms(3-7)
proof (induction l arbitrary: m i j rule: less_induct)
  case (less l)
  note cl = complete_linkageD[OF assms(1)]
  have "\<not> l < n" using less.prems clusters_leaf by auto
  then obtain k where k: "l = n + k" "k < m" using less.prems(1) by (metis add_diff_inverse_nat add_less_cancel_left)
  have kl: "k < length zs" using k(2) less.prems(2) by simp
  obtain a b where ab: "zs ! k = (a, b)" by (cases "zs ! k")
  note wf = wf_mergesD[OF cl(1) kl ab]
  have "D i j \<le> md ! k"
  proof -
    let ?A = "clusters n zs ! a" and ?B = "clusters n zs ! b"
    have fin: "finite ?A" "finite ?B" using finite_cluster[OF cl(1)] wf kl by auto
    have sub: "?A \<subseteq> {..<n}" "?B \<subseteq> {..<n}" using clusters_nonempty[OF cl(1)] wf kl by auto
    have inside: "D i j \<le> md ! k" if "x \<in> {a, b}" "i \<in> clusters n zs ! x" "j \<in> clusters n zs ! x" for x
    proof -
      have "x < n + k" "x < l" using that(1) wf k by auto
      from less.IH[OF this(2,1) _ that(2,3) less.prems(5)] kl have "0 < k" "D i j \<le> md ! (k - 1)" by auto
      then show ?thesis using merge_distances_sorted[OF assms(1,2), of "k - 1" k] kl by simp
    qed
    have across: "D u v \<le> md ! k" if "u \<in> ?A" "v \<in> ?B" for u v
      using link_ge[OF fin that] cl(3)[OF kl ab] by simp
    have "D i j = D j i" if "i \<in> ?B" "j \<in> ?A" using that sub assms(2) by (auto simp: dissimilarity_def subset_iff)
    then show ?thesis
      using less.prems(3,4) inside across unfolding k(1) clusters_merge[OF cl(1) kl ab] by force
  qed
  also have "\<dots> \<le> md ! (m - 1)" using k(2) less.prems(2) by (intro merge_distances_sorted[OF assms(1,2)]) auto
  finally show ?case using k(2) by simp
qed

end
