(* ===== verification/Clusterizer.thy ===== *)
theory Clusterizer
  imports CppLib Segment Dendrogram
begin

text \<open>
  The clusterizer of ALGLIB (\<open>multistream/src/alglib/dataanalysis.cpp\<close>), as far as \<open>cslice.cc\<close> uses it: a
  matrix of distances is set, an agglomerative clustering is run on it, and the resulting tree is cut at
  a distance. A failed \<open>ae_assert\<close> is an exception of the library that nobody catches. Sizes and loop
  counters of type \<open>ae_int_t\<close> are natural numbers, values that may be negative are integers. A distance is
  a real number; with complete linkage it is only copied and compared.
\<close>

section \<open>Arrays\<close>

text \<open>\<open>ptr.p_int[i]\<close> and \<open>ptr.pp_double[i][j]\<close> are not checked: an index outside of the array has no defined result.\<close>

definition vec_at :: "'a list \<Rightarrow> int \<Rightarrow> cpp_error + 'a" where
  "vec_at xs i = (if 0 \<le> i \<and> i < int (length xs) then Inr (xs ! nat i) else Inl OutOfBounds)"

definition vec_put :: "int \<Rightarrow> 'a \<Rightarrow> 'a list \<Rightarrow> cpp_error + 'a list" where
  "vec_put i v xs = (if 0 \<le> i \<and> i < int (length xs) then Inr (xs[nat i := v]) else Inl OutOfBounds)"

type_synonym matrix = "real list list"

definition mat_at :: "'a list list \<Rightarrow> int \<Rightarrow> int \<Rightarrow> cpp_error + 'a" where
  "mat_at m i j = bindE (vec_at m i) (\<lambda>row. vec_at row j)"

definition mat_put :: "int \<Rightarrow> int \<Rightarrow> 'a \<Rightarrow> 'a list list \<Rightarrow> cpp_error + 'a list list" where
  "mat_put i j v m = bindE (vec_at m i) (\<lambda>row. bindE (vec_put j v row) (\<lambda>row. vec_put i row m))"

text \<open>A cell of a \<open>double\<close> array that comes from outside: never written, the result of 0/0, or a number.\<close>

datatype cell = Junk | NotANumber | Val real

definition read_cell :: "cell \<Rightarrow> cpp_error + cell" where
  "read_cell c = (if c = Junk then Inl Uninitialised else Inr c)"

definition ae_assert :: "bool \<Rightarrow> 'a \<Rightarrow> cpp_error + 'a" where
  "ae_assert cond x = (if cond then Inr x else Inl ApError)"

definition ae_maxrealnumber :: real where
  "ae_maxrealnumber = 10 ^ 300"

definition ae_maxreal :: "real \<Rightarrow> real \<Rightarrow> real" where
  "ae_maxreal m1 m2 = (if m1 > m2 then m1 else m2)"

definition ae_minreal :: "real \<Rightarrow> real \<Rightarrow> real" where
  "ae_minreal m1 m2 = (if m1 > m2 then m2 else m1)"

text \<open>\<open>real_2d_array::setcontent\<close>: the rows of an array that is stored row by row.\<close>

definition setcontent :: "nat \<Rightarrow> nat \<Rightarrow> cell list \<Rightarrow> cpp_error + cell list list" where
  "setcontent irows icols pContent =
     mapE (\<lambda>i. mapE (\<lambda>j. bindE (vec_at pContent (int (i * icols + j))) read_cell) [0..<icols]) [0..<irows]"

section \<open>The state and the report\<close>

record clusterizerstate =
  cl_npoints :: nat
  cl_nfeatures :: nat
  cl_disttype :: int
  cl_ahcalgo :: int
  cl_d :: matrix

record ahcreport =
  rp_terminationtype :: int
  rp_npoints :: nat
  rp_p :: "int list"
  rp_z :: "(int \<times> int) list"
  rp_pz :: "(int \<times> int) list"
  rp_pm :: "(int \<times> int \<times> int \<times> int \<times> int \<times> int) list"
  rp_mergedist :: "real list"

definition clusterizercreate :: clusterizerstate where
  "clusterizercreate = \<lparr>cl_npoints = 0, cl_nfeatures = 0, cl_disttype = 2, cl_ahcalgo = 0, cl_d = []\<rparr>"

text \<open>The distances of one triangle are checked and copied to both. A cell outside of the two triangles and the
  diagonal keeps what the fresh matrix holds, but there is none.\<close>

definition check_dist :: "cell \<Rightarrow> cpp_error + real" where
  "check_dist c = (case c of Val v \<Rightarrow> ae_assert (v \<ge> 0) v | NotANumber \<Rightarrow> Inl ApError | Junk \<Rightarrow> Inl Uninitialised)"

definition copy_row :: "cell list list \<Rightarrow> nat \<Rightarrow> bool \<Rightarrow> nat \<Rightarrow> matrix \<Rightarrow> cpp_error + matrix" where
  "copy_row d npoints isupper i m =
     bindE (foldE (\<lambda>j m.
              bindE (mat_at d (int i) (int j)) (\<lambda>c. bindE (check_dist c) (\<lambda>v.
              bindE (mat_put (int i) (int j) v m) (mat_put (int j) (int i) v))))
              (if isupper then [i + 1..<npoints] else [0..<i]) m)
       (mat_put (int i) (int i) 0)"

definition clusterizersetdistances :: "cell list list \<Rightarrow> nat \<Rightarrow> nat \<Rightarrow> bool \<Rightarrow> clusterizerstate \<Rightarrow> cpp_error + clusterizerstate" where
  "clusterizersetdistances d rows cols isupper s =
     (if rows \<noteq> cols then Inl ApError
      else bindE (foldE (copy_row d rows isupper) [0..<rows] (replicate rows (replicate rows 0))) (\<lambda>m.
             Inr (s\<lparr>cl_npoints := rows, cl_nfeatures := 0, cl_disttype := -1, cl_d := m\<rparr>)))"

definition clusterizersetahcalgo :: "int \<Rightarrow> clusterizerstate \<Rightarrow> cpp_error + clusterizerstate" where
  "clusterizersetahcalgo algo s = ae_assert (algo \<in> {0, 1, 2, 3, 4}) (s\<lparr>cl_ahcalgo := algo\<rparr>)"

section \<open>The merges\<close>

text \<open>The nearest other row among those that are in use: the first of the smallest distances below the limit.\<close>

definition nn_scan :: "nat \<Rightarrow> matrix \<Rightarrow> (nat \<Rightarrow> bool) \<Rightarrow> int \<Rightarrow> cpp_error + (int \<times> real)" where
  "nn_scan npoints d live i =
     foldE (\<lambda>j (k, v).
       if live j \<and> int j \<noteq> i
       then bindE (mat_at d i (int j)) (\<lambda>x. Inr (if x < v then (int j, x) else (k, v)))
       else Inr (k, v)) [0..<npoints] (-1, ae_maxrealnumber)"

record merging =
  mg_d :: matrix
  mg_cidx :: "int list"
  mg_csizes :: "int list"
  mg_nnidx :: "int list"
  mg_z :: "(int \<times> int) list"
  mg_dist :: "real list"

text \<open>The pair of clusters to merge: over the rows in use, the first of the smallest distances to the nearest
  neighbour.\<close>

definition select_pair :: "nat \<Rightarrow> merging \<Rightarrow> cpp_error + (int \<times> int \<times> real)" where
  "select_pair npoints s =
     foldE (\<lambda>i (c0, c1, d01).
       if mg_cidx s ! i \<ge> 0
       then bindE (vec_at (mg_nnidx s) (int i)) (\<lambda>nn. bindE (mat_at (mg_d s) (int i) nn) (\<lambda>x.
              Inr (if x < d01 then (int i, nn, x) else (c0, c1, d01))))
       else Inr (c0, c1, d01)) [0..<npoints] (-1, -1, ae_maxrealnumber)"

text \<open>The distance of cluster \<open>i\<close> to the union of \<open>c0\<close> and \<open>c1\<close>, by the algorithm: complete linkage, single linkage,
  unweighted average, weighted average, Ward's method.\<close>

definition linkage :: "int \<Rightarrow> int \<Rightarrow> int \<Rightarrow> int \<Rightarrow> real \<Rightarrow> real \<Rightarrow> real \<Rightarrow> real" where
  "linkage ahcalgo n0 n1 ni d01 x0 x1 =
     (if ahcalgo = 0 then ae_maxreal x0 x1
      else if ahcalgo = 1 then ae_minreal x0 x1
      else if ahcalgo = 2 then (of_int n0 * x0 + of_int n1 * x1) / of_int (n0 + n1)
      else if ahcalgo = 3 then (x0 + x1) / 2
      else (of_int (n0 + ni) * x0 + of_int (n1 + ni) * x1 - of_int ni * d01) / of_int (n0 + n1 + ni))"

definition update_dist :: "int \<Rightarrow> int list \<Rightarrow> int \<Rightarrow> int \<Rightarrow> real \<Rightarrow> nat \<Rightarrow> matrix \<Rightarrow> cpp_error + matrix" where
  "update_dist ahcalgo csizes c0 c1 d01 i d =
     (if int i \<noteq> c0 \<and> int i \<noteq> c1
      then bindE (vec_at csizes c0) (\<lambda>n0. bindE (vec_at csizes c1) (\<lambda>n1. bindE (vec_at csizes (int i)) (\<lambda>ni.
           bindE (mat_at d (int i) c0) (\<lambda>x0. bindE (mat_at d (int i) c1) (\<lambda>x1.
             let v = linkage ahcalgo n0 n1 ni d01 x0 x1
             in bindE (mat_put (int i) c0 v d) (mat_put c0 (int i) v))))))
      else Inr d)"

definition update_nn :: "nat \<Rightarrow> int \<Rightarrow> nat \<Rightarrow> matrix \<Rightarrow> int list \<Rightarrow> int \<Rightarrow> int \<Rightarrow> nat \<Rightarrow> int list \<Rightarrow> cpp_error + int list" where
  "update_nn npoints ahcalgo mergeidx d cidx c0 c1 i nnidx =
     (if cidx ! i \<ge> 0 \<and> int i \<noteq> c0 \<and> (nnidx ! i = c0 \<or> nnidx ! i = c1)
      then if ahcalgo = 1 then vec_put (int i) c0 nnidx
           else bindE (nn_scan npoints d (\<lambda>j. cidx ! j \<ge> 0) (int i)) (\<lambda>(k, v).
                bindE (ae_assert (v < ae_maxrealnumber \<or> mergeidx = npoints - 2) k) (\<lambda>k. vec_put (int i) k nnidx))
      else Inr nnidx)"

text \<open>The merge of the rows \<open>c0\<close> and \<open>c1\<close> with the labels \<open>l0\<close> and \<open>l1\<close>: row \<open>c0\<close> becomes the new cluster.\<close>

definition merge_rows :: "nat \<Rightarrow> int \<Rightarrow> nat \<Rightarrow> merging \<Rightarrow> int \<Rightarrow> int \<Rightarrow> int \<Rightarrow> int \<Rightarrow> real \<Rightarrow> cpp_error + merging" where
  "merge_rows npoints ahcalgo mergeidx s c0 c1 l0 l1 d01 =
     bindE (ae_assert (ahcalgo \<in> {0, 1, 2, 3, 4}) ()) (\<lambda>_.
     bindE (foldE (update_dist ahcalgo (mg_csizes s) c0 c1 d01) [0..<npoints] (mg_d s)) (\<lambda>d.
     bindE (bindE (vec_put c0 (int (npoints + mergeidx)) (mg_cidx s)) (vec_put c1 (-1))) (\<lambda>cidx.
     bindE (vec_at (mg_csizes s) c0) (\<lambda>n0. bindE (vec_at (mg_csizes s) c1) (\<lambda>n1.
     bindE (bindE (vec_put c0 (n0 + n1) (mg_csizes s)) (vec_put c1 0)) (\<lambda>csizes.
     bindE (foldE (update_nn npoints ahcalgo mergeidx d cidx c0 c1) [0..<npoints] (mg_nnidx s)) (\<lambda>nnidx.
     bindE (nn_scan npoints d (\<lambda>j. cidx ! j \<ge> 0) c0) (\<lambda>(k, v).
     bindE (ae_assert (v < ae_maxrealnumber \<or> mergeidx = npoints - 2) ()) (\<lambda>_.
     bindE (vec_put c0 k nnidx) (\<lambda>nnidx.
       Inr \<lparr>mg_d = d, mg_cidx = cidx, mg_csizes = csizes, mg_nnidx = nnidx,
            mg_z = mg_z s @ [(l0, l1)], mg_dist = mg_dist s @ [d01]\<rparr>))))))))))"

definition merge_step :: "nat \<Rightarrow> int \<Rightarrow> nat \<Rightarrow> merging \<Rightarrow> cpp_error + merging" where
  "merge_step npoints ahcalgo mergeidx s =
     bindE (select_pair npoints s) (\<lambda>(c0, c1, d01).
     bindE (ae_assert (d01 < ae_maxrealnumber) ()) (\<lambda>_.
     bindE (vec_at (mg_cidx s) c0) (\<lambda>l0. bindE (vec_at (mg_cidx s) c1) (\<lambda>l1.
       if l0 > l1 then merge_rows npoints ahcalgo mergeidx s c1 c0 l1 l0 d01
       else merge_rows npoints ahcalgo mergeidx s c0 c1 l0 l1 d01))))"

definition ward_squares :: "int \<Rightarrow> matrix \<Rightarrow> matrix" where
  "ward_squares ahcalgo d = (if ahcalgo = 4 then map (map (\<lambda>x. 1 / 2 * x * x)) d else d)"

definition run_merges :: "nat \<Rightarrow> int \<Rightarrow> matrix \<Rightarrow> cpp_error + merging" where
  "run_merges npoints ahcalgo d =
     bindE (mapE (\<lambda>i. bindE (nn_scan npoints d (\<lambda>_. True) (int i)) (\<lambda>(k, v). ae_assert (v < ae_maxrealnumber) k)) [0..<npoints]) (\<lambda>nnidx.
       foldE (merge_step npoints ahcalgo) [0..<npoints - 1]
         \<lparr>mg_d = ward_squares ahcalgo d, mg_cidx = map int [0..<npoints], mg_csizes = replicate npoints 1,
          mg_nnidx = nnidx, mg_z = [], mg_dist = []\<rparr>)"

section \<open>The layout of the tree\<close>

text \<open>The sizes and heights of all clusters, from the first merge to the last.\<close>

definition cluster_sizes :: "nat \<Rightarrow> (int \<times> int) list \<Rightarrow> cpp_error + (int list \<times> int list)" where
  "cluster_sizes npoints z =
     foldE (\<lambda>(a, b) (sizes, heights).
       bindE (vec_at sizes a) (\<lambda>s0. bindE (vec_at sizes b) (\<lambda>s1.
       bindE (vec_at heights a) (\<lambda>h0. bindE (vec_at heights b) (\<lambda>h1.
         Inr (sizes @ [s0 + s1], heights @ [max h0 h1 + 1])))))) z (replicate npoints 1, replicate npoints 0)"

text \<open>The places of the clusters, from the last merge to the first: the columns 1 and 2 of \<open>cinfo\<close>, which are not
  initialised.\<close>

definition place_at :: "int option list \<Rightarrow> int \<Rightarrow> cpp_error + int" where
  "place_at xs i = bindE (vec_at xs i) (\<lambda>v. case v of None \<Rightarrow> Inl Uninitialised | Some x \<Rightarrow> Inr x)"

type_synonym pm_row = "int \<times> int \<times> int \<times> int \<times> int \<times> int"

definition place_merge ::
  "nat \<Rightarrow> (int \<times> int) list \<Rightarrow> int list \<Rightarrow> int list \<Rightarrow> nat \<Rightarrow> int option list \<times> int option list \<times> pm_row list \<Rightarrow>
   cpp_error + (int option list \<times> int option list \<times> pm_row list)" where
  "place_merge npoints z sizes heights i = (\<lambda>(begs, ends, pm).
     let (c0, c1) = z ! i
     in bindE (vec_at sizes c0) (\<lambda>s0. bindE (vec_at sizes c1) (\<lambda>s1.
        bindE (place_at begs (int (npoints + i))) (\<lambda>ar. bindE (place_at ends (int (npoints + i))) (\<lambda>br.
        bindE (bindE (vec_put c0 (Some ar) begs) (vec_put c1 (Some (br - (s1 - 1))))) (\<lambda>begs.
        bindE (bindE (vec_put c0 (Some (ar + s0 - 1)) ends) (vec_put c1 (Some br))) (\<lambda>ends.
        bindE (place_at begs c0) (\<lambda>b0. bindE (place_at ends c0) (\<lambda>e0.
        bindE (place_at begs c1) (\<lambda>b1. bindE (place_at ends c1) (\<lambda>e1.
        bindE (vec_at heights c0) (\<lambda>h0. bindE (vec_at heights c1) (\<lambda>h1.
          Inr (begs, ends, (b0, e0, b1, e1, h0, h1) # pm))))))))))))))"

definition layout :: "nat \<Rightarrow> (int \<times> int) list \<Rightarrow> cpp_error + (int list \<times> pm_row list)" where
  "layout npoints z =
     bindE (cluster_sizes npoints z) (\<lambda>(sizes, heights).
     bindE (foldE (place_merge npoints z sizes heights) (rev [0..<npoints - 1])
              ((replicate (2 * npoints - 1) None)[2 * npoints - 2 := Some 0],
               (replicate (2 * npoints - 1) None)[2 * npoints - 2 := Some (int npoints - 1)], [])) (\<lambda>(begs, ends, pm).
     bindE (mapE (\<lambda>i. bindE (place_at begs (int i)) (\<lambda>b. bindE (place_at ends (int i)) (\<lambda>e. ae_assert (b = e) b))) [0..<npoints]) (\<lambda>p.
       Inr (p, pm))))"

definition permute_label :: "nat \<Rightarrow> int list \<Rightarrow> int \<Rightarrow> cpp_error + int" where
  "permute_label npoints p c = (if c < int npoints then vec_at p c else Inr c)"

definition empty_report :: "nat \<Rightarrow> ahcreport" where
  "empty_report npoints = \<lparr>rp_terminationtype = 1, rp_npoints = npoints, rp_p = replicate npoints 0, rp_z = [], rp_pz = [], rp_pm = [], rp_mergedist = []\<rparr>"

text \<open>The merges change the matrix \<open>d\<close> of the caller.\<close>

definition clusterizerrunahcinternal :: "clusterizerstate \<Rightarrow> matrix \<Rightarrow> cpp_error + (ahcreport \<times> matrix)" where
  "clusterizerrunahcinternal s d =
     (let npoints = cl_npoints s
      in if npoints \<le> 1 then Inr (empty_report npoints, d)
         else bindE (run_merges npoints (cl_ahcalgo s) d) (\<lambda>mg.
              bindE (layout npoints (mg_z mg)) (\<lambda>(p, pm).
              bindE (mapE (\<lambda>(a, b). bindE (permute_label npoints p a) (\<lambda>a. bindE (permute_label npoints p b) (\<lambda>b. Inr (a, b)))) (mg_z mg)) (\<lambda>pz.
                Inr ((empty_report npoints)\<lparr>rp_p := p, rp_z := mg_z mg, rp_pz := pz, rp_pm := pm, rp_mergedist := mg_dist mg\<rparr>, mg_d mg)))))"

text \<open>The run on a matrix of distances, \<open>disttype = -1\<close>, which is the only way the model sets points: the matrix of
  the state is the one that is changed. The distances of points with features are not modelled.\<close>

definition clusterizerrunahc :: "clusterizerstate \<Rightarrow> cpp_error + (ahcreport \<times> clusterizerstate)" where
  "clusterizerrunahc s =
     (if cl_npoints s \<le> 1 then Inr (empty_report (cl_npoints s), s)
      else bindE (clusterizerrunahcinternal s (cl_d s)) (\<lambda>(rep, d). Inr (rep, s\<lparr>cl_d := d\<rparr>)))"

section \<open>Cutting the tree\<close>

definition fill_range :: "int \<Rightarrow> int \<Rightarrow> int \<Rightarrow> int list \<Rightarrow> cpp_error + int list" where
  "fill_range i0 i1 t tmpidx = foldE (\<lambda>i. vec_put i t) [i0..i1] tmpidx"

definition split_cluster :: "nat \<Rightarrow> ahcreport \<Rightarrow> nat \<Rightarrow> bool list \<times> int list \<Rightarrow> cpp_error + (bool list \<times> int list)" where
  "split_cluster npoints rep mergeidx = (\<lambda>(present, tmpidx).
     bindE (vec_at (rp_z rep) (int mergeidx)) (\<lambda>(z0, z1).
     bindE (vec_put (int (npoints + mergeidx)) False present) (\<lambda>present.
     bindE (bindE (vec_put z0 True present) (vec_put z1 True)) (\<lambda>present.
     bindE (vec_at (rp_pm rep) (int mergeidx)) (\<lambda>(b0, e0, b1, e1, h0, h1).
     bindE (bindE (fill_range b0 e0 z0 tmpidx) (fill_range b1 e1 z1)) (\<lambda>tmpidx.
       Inr (present, tmpidx)))))))"

text \<open>The array \<open>cz\<close> has \<open>k\<close> elements; \<open>clusterindexes\<close> is not initialised.\<close>

definition number_cluster :: "nat \<Rightarrow> bool list \<Rightarrow> nat \<Rightarrow> int list \<times> int option list \<Rightarrow> cpp_error + (int list \<times> int option list)" where
  "number_cluster k present i = (\<lambda>(cz, clusterindexes).
     if present ! i
     then if length cz < k then Inr (cz @ [int i], clusterindexes[i := Some (int (length cz))]) else Inl OutOfBounds
     else Inr (cz, clusterindexes))"

definition clusterizergetkclusters :: "ahcreport \<Rightarrow> nat \<Rightarrow> cpp_error + (int list \<times> int list)" where
  "clusterizergetkclusters rep k =
     (let npoints = rp_npoints rep
      in bindE (ae_assert (k \<le> npoints \<and> (k > 0 \<or> npoints = 0)) ()) (\<lambda>_.
         if npoints = 0 then Inr ([], [])
         else if npoints = 1 then Inr ([0], [0])
         else bindE (foldE (split_cluster npoints rep) (rev [npoints - k..<npoints - 1])
                       ((replicate (2 * npoints - 1) False)[2 * npoints - 2 := True],
                        replicate npoints (int (2 * npoints - 2)))) (\<lambda>(present, tmpidx).
              bindE (foldE (number_cluster k present) [0..<2 * npoints - 1] ([], replicate (2 * npoints - 1) None)) (\<lambda>(cz, clusterindexes).
              bindE (ae_assert (length cz = k) ()) (\<lambda>_.
              bindE (mapE (\<lambda>i. bindE (vec_at (rp_p rep) (int i)) (\<lambda>q. bindE (vec_at tmpidx q) (\<lambda>c. place_at clusterindexes c))) [0..<npoints]) (\<lambda>cidx.
                Inr (cidx, cz)))))))"

text \<open>The loop that finds the number of clusters.\<close>

function separated_k :: "nat \<Rightarrow> real list \<Rightarrow> real \<Rightarrow> nat \<Rightarrow> cpp_error + nat" where
  "separated_k npoints mergedist r k =
     (if k < npoints
      then bindE (vec_at mergedist (int npoints - 1 - int k)) (\<lambda>x.
             if x \<ge> r then separated_k npoints mergedist r (k + 1) else Inr k)
      else Inr k)"
  by pat_completeness auto
termination
  by (relation "measure (\<lambda>(npoints, _, _, k). npoints - k)") auto

declare separated_k.simps [simp del]

definition clusterizerseparatedbydist :: "ahcreport \<Rightarrow> real \<Rightarrow> cpp_error + (nat \<times> int list \<times> int list)" where
  "clusterizerseparatedbydist rep r =
     bindE (ae_assert (r \<ge> 0) ()) (\<lambda>_.
     bindE (separated_k (rp_npoints rep) (rp_mergedist rep) r 1) (\<lambda>k.
     bindE (clusterizergetkclusters rep k) (\<lambda>(cidx, cz).
       Inr (k, cidx, cz))))"

text \<open>The cut at a correlation; its loop is the same with the limit \<open>1 - r\<close>.\<close>

definition clusterizerseparatedbycorr :: "ahcreport \<Rightarrow> real \<Rightarrow> cpp_error + (nat \<times> int list \<times> int list)" where
  "clusterizerseparatedbycorr rep r =
     bindE (ae_assert (r \<ge> -1 \<and> r \<le> 1) ()) (\<lambda>_.
     bindE (separated_k (rp_npoints rep) (rp_mergedist rep) (1 - r) 1) (\<lambda>k.
     bindE (clusterizergetkclusters rep k) (\<lambda>(cidx, cz).
       Inr (k, cidx, cz))))"

end
