(* ===== verification/CSlice.thy ===== *)
theory CSlice
  imports Segment CppLib Clusterizer
begin

text \<open>
  \<open>multistream/src/similarity/cslice.cc\<close>: the ciphertext chunks are cut into segments like the
  plaintext ones; the segments are compared by the Jaccard distance of their fingerprint sets, a
  hierarchical clustering groups them, and each cluster is stored as a slice. The clustering is
  ALGLIB's (\<open>Clusterizer\<close>). The theorems relate the stores to the segmentation, the
  matrix to the distances, the slices to the clusters, and say what the printed ratio measures.
\<close>

section \<open>The program\<close>

type_synonym seg_counts = "(u64 \<times> (bytes \<times> u64) list) list"

record 'db cslice =
  cseg_db :: 'db
  cslice_db :: 'db
  cchunksize :: 'db
  cseg_count :: u64
  ccount_map :: seg_counts
  cdist :: "cell list"
  cnrand :: nat

definition init_dbs_csl ::
  "'db leveldb \<Rightarrow> string \<Rightarrow> string \<Rightarrow> string \<Rightarrow> 'db cslice \<Rightarrow> cpp_error + 'db cslice" where
  "init_dbs_csl L seg_name slice_name chunk_size_name s =
     bindE (open_db L seg_name) (\<lambda>d1.
     bindE (open_db L slice_name) (\<lambda>d2.
     bindE (open_db L chunk_size_name) (\<lambda>d3.
       Inr (s\<lparr>cseg_db := d1, cslice_db := d2, cchunksize := d3\<rparr>))))"

text \<open>The chunks of the segment: the size is stored, the fingerprint appended and counted.\<close>

fun seg_loop_csl ::
  "'db leveldb \<Rightarrow> chunk list \<Rightarrow> bytes \<times> (bytes \<times> u64) list \<Rightarrow> 'db cslice \<Rightarrow>
   (bytes \<times> (bytes \<times> u64) list) \<times> 'db cslice" where
  "seg_loop_csl L [] acc s = (acc, s)"
| "seg_loop_csl L (now # sq) (segmentValue, p_map) s =
     seg_loop_csl L sq (segmentValue @ ckey now, smap_incr (ckey now) p_map)
       (s\<lparr>cchunksize := snd (ldb_put L (cchunksize s) (ckey now) (u64_bytes (csize now)))\<rparr>)"

definition process_seg_csl :: "'db leveldb \<Rightarrow> chunk list \<Rightarrow> 'db cslice \<Rightarrow> 'db cslice" where
  "process_seg_csl L sq s =
     (let ((segmentValue, p_map), s) = seg_loop_csl L sq ([], []) s;
          s = s\<lparr>cseg_db := snd (ldb_put L (cseg_db s) (u64_bytes (cseg_count s)) segmentValue)\<rparr>;
          s = s\<lparr>ccount_map := smap_insert (<) (cseg_count s) p_map (ccount_map s)\<rparr>
      in s\<lparr>cseg_count := cseg_count s + 1\<rparr>)"

definition read_chunk_csl ::
  "'db leveldb \<Rightarrow> chunk \<Rightarrow> chunk list \<times> u64 \<times> 'db cslice \<Rightarrow> chunk list \<times> u64 \<times> 'db cslice" where
  "read_chunk_csl L entry = (\<lambda>(sq, sq_size, s).
     let (sq, sq_size, s) = (if sq_size + csize entry > SEG_SIZE then ([], 0, process_seg_csl L sq s)
                             else (sq, sq_size, s))
     in (sq @ [entry], sq_size + csize entry, s))"

definition read_hashes_csl :: "'db leveldb \<Rightarrow> string \<Rightarrow> 'db cslice \<Rightarrow> cpp_error + 'db cslice" where
  "read_hashes_csl L file s =
     bindE (foldE (\<lambda>l st. if strpbrk l ''Chunk'' then Inr st
                          else bindE (chunk_of_line l) (\<lambda>c. Inr (read_chunk_csl L c st)))
              (fgets_lines file) ([], 0, s))
       (\<lambda>(sq, sq_size, s). Inr (process_seg_csl L sq s))"

subsection \<open>The distances\<close>

definition seg_dist :: "(bytes \<times> u64) list \<Rightarrow> (bytes \<times> u64) list \<Rightarrow> cell" where
  "seg_dist dist_i dist_j =
     (let merge = fold (\<lambda>mit. smap_assign (fst mit) 1) dist_j dist_i
      in if merge = [] then NotANumber
         else Val (1 - real (length dist_i + length dist_j - length merge) / real (length merge)))"

definition write_cell :: "u64 \<Rightarrow> cell \<Rightarrow> cell list \<Rightarrow> cpp_error + cell list" where
  "write_cell i v mat = (if unat i < length mat then Inr (mat[unat i := v]) else Inl OutOfBounds)"

definition dist_pair ::
  "u64 \<Rightarrow> u64 \<times> (bytes \<times> u64) list \<Rightarrow> u64 \<times> (bytes \<times> u64) list \<Rightarrow> cell list \<Rightarrow> cpp_error + cell list" where
  "dist_pair n seg_i seg_j mat =
     bindE (write_cell (fst seg_i * n + fst seg_j) (seg_dist (snd seg_i) (snd seg_j)) mat) (\<lambda>mat.
       write_cell (fst seg_j * n + fst seg_i) (mat ! unat (fst seg_i * n + fst seg_j)) mat)"

text \<open>\<open>seg_j\<close> starts at \<open>count_map.find(seg_i->first)\<close>, that is at \<open>seg_i\<close>.\<close>

fun dist_loop :: "u64 \<Rightarrow> seg_counts \<Rightarrow> cell list \<Rightarrow> cpp_error + cell list" where
  "dist_loop n [] mat = Inr mat"
| "dist_loop n (seg_i # segs) mat = bindE (foldE (dist_pair n seg_i) (seg_i # segs) mat) (dist_loop n segs)"

definition port2cluster :: "'db cslice \<Rightarrow> cpp_error + 'db cslice" where
  "port2cluster s =
     bindE (dist_loop (cseg_count s) (ccount_map s) (replicate (unat (cseg_count s * cseg_count s)) Junk))
       (\<lambda>mat. Inr (s\<lparr>cdist := mat\<rparr>))"

definition clustering :: "'db cslice \<Rightarrow> cpp_error + ahcreport" where
  "clustering s =
     (let n = unat (cseg_count s)
      in bindE (setcontent n n (cdist s)) (\<lambda>d.
         bindE (clusterizersetdistances d n n True clusterizercreate) (\<lambda>s.
         bindE (clusterizerrunahc s) (\<lambda>(rep, s). Inr rep))))"

subsection \<open>The slices\<close>

text \<open>\<open>Slice key((char *)&cidx[i], sizeof(int))\<close>: the low four bytes of a 64-bit cluster index.\<close>

definition slice_key :: "int \<Rightarrow> bytes" where
  "slice_key c = take 4 (u64_bytes (word_of_int c))"

definition put_slice :: "'db leveldb \<Rightarrow> u64 \<times> int \<Rightarrow> 'db cslice \<Rightarrow> 'db cslice" where
  "put_slice L e s =
     (let (cst, v) = ldb_get L (cslice_db s) (slice_key (snd e)) [];
          seg_id = u64_bytes (fst e);
          existing_value = (if cst = StOk then v @ seg_id else seg_id)
      in s\<lparr>cslice_db := snd (ldb_put L (cslice_db s) (slice_key (snd e)) existing_value)\<rparr>)"

definition port2slice :: "'db leveldb \<Rightarrow> ahcreport \<Rightarrow> real \<Rightarrow> 'db cslice \<Rightarrow> cpp_error + (nat \<times> 'db cslice)" where
  "port2slice L rep r s =
     bindE (clusterizerseparatedbydist rep r) (\<lambda>(k, cidx, cz).
       Inr (k, fold (put_slice L) (zip (map fst (ccount_map s)) cidx) s))"

subsection \<open>The test of the clustering\<close>

text \<open>The local state of \<open>test_cluster\<close>: the numbers of segments per MinHash in the current slice and
  overall, the number of segments in the slice, the largest number that share a MinHash.\<close>

record tcluster =
  minhash_count :: "(bytes \<times> u64) list"
  minhash_slice :: "(bytes \<times> u64) list"
  tseg :: u64
  max_count :: u64
  ratio_sum :: real
  tnrand :: nat

definition seg_minhash :: "bytes \<Rightarrow> cpp_error + chunk list" where
  "seg_minhash str =
     for_step FP_SIZE (block_lim (length str) FP_SIZE) (\<lambda>j pq.
       bindE (read_bytes str j FP_SIZE) (\<lambda>b. Inr (minhash_insert \<lparr>ckey = b, csize = 0\<rparr> pq))) 0 []"

definition test_seg :: "'db leveldb \<Rightarrow> (nat \<Rightarrow> nat) \<Rightarrow> 'db \<Rightarrow> bytes \<Rightarrow> tcluster \<Rightarrow> cpp_error + tcluster" where
  "test_seg L rnd db seg_id t =
     (let t = t\<lparr>tseg := tseg t + 1\<rparr>;
          (status, str) = ldb_get L db seg_id []
      in if status \<noteq> StOk then Inr t
         else bindE (seg_minhash str) (\<lambda>pq.
              bindE (pick_core (rnd (tnrand t)) pq) (\<lambda>core.
                let t = t\<lparr>tnrand := Suc (tnrand t),
                          minhash_count := smap_incr (ckey core) (minhash_count t),
                          minhash_slice := smap_incr (ckey core) (minhash_slice t)\<rparr>;
                    n = the (map_of (minhash_count t) (ckey core))
                in Inr (if n > max_count t then t\<lparr>max_count := n\<rparr> else t))))"

definition test_slice :: "'db leveldb \<Rightarrow> (nat \<Rightarrow> nat) \<Rightarrow> 'db \<Rightarrow> bytes \<times> bytes \<Rightarrow> tcluster \<Rightarrow> cpp_error + tcluster" where
  "test_slice L rnd db e t =
     bindE (for_step 8 (block_lim (length (snd e)) 8)
              (\<lambda>i t. bindE (read_bytes (snd e) i 8) (\<lambda>b. test_seg L rnd db b t)) 0
              (t\<lparr>minhash_count := [], tseg := 0, max_count := 0\<rparr>)) (\<lambda>t.
       Inr (t\<lparr>ratio_sum := ratio_sum t + real (unat (max_count t div tseg t))\<rparr>))"

text \<open>The last line printed shows \<open>ratio_sum\<close> and the size of \<open>minhash_slice\<close>, each divided by \<open>k\<close>.\<close>

definition test_cluster :: "'db leveldb \<Rightarrow> (nat \<Rightarrow> nat) \<Rightarrow> 'db cslice \<Rightarrow> cpp_error + tcluster" where
  "test_cluster L rnd s =
     foldE (test_slice L rnd (cseg_db s)) (fst (ldb_iter L (cslice_db s)))
       \<lparr>minhash_count = [], minhash_slice = [], tseg = 0, max_count = 0, ratio_sum = 0, tnrand = cnrand s\<rparr>"

definition main_csl ::
  "'db leveldb \<Rightarrow> (nat \<Rightarrow> nat) \<Rightarrow> (string \<rightharpoonup> string) \<Rightarrow> string list \<Rightarrow>
   'db cslice \<Rightarrow> cpp_error + (nat \<times> tcluster \<times> 'db cslice)" where
  "main_csl L rnd fs argv s =
     (if length argv \<noteq> 3 then Inl AssertFail
      else case fs (argv ! 1) of
             None \<Rightarrow> Inl AssertFail
           | Some file \<Rightarrow>
               bindE (init_dbs_csl L ''./output/cipher/seg'' ''./output/cipher/slice'' ''./output/chunksize'' s) (\<lambda>s.
               bindE (read_hashes_csl L file s) (\<lambda>s.
               bindE (port2cluster s) (\<lambda>s.
               bindE (clustering s) (\<lambda>rep.
               bindE (port2slice L rep (atof (argv ! 2)) s) (\<lambda>(k, s).
               bindE (test_cluster L rnd s) (\<lambda>t. Inr (k, t, s))))))))"

section \<open>The stores hold the segmentation\<close>

definition count_entries :: "chunk list list \<Rightarrow> seg_counts" where
  "count_entries segs = map (\<lambda>(i, seg). (word_of_nat i, count_map (map ckey seg))) (enumerate 0 segs)"

text \<open>\<open>m0\<close> is what the store of chunk sizes, which the slicing programs share, held before.\<close>

definition cslice_stored :: "('db \<Rightarrow> bytes \<rightharpoonup> bytes) \<Rightarrow> (bytes \<rightharpoonup> bytes) \<Rightarrow> chunk list list \<Rightarrow> 'db cslice \<Rightarrow> bool" where
  "cslice_stored view m0 segs s \<longleftrightarrow>
     view (cseg_db s) = seg_table segs \<and> view (cchunksize s) = fold size_upd (concat segs) m0 \<and>
     view (cslice_db s) = Map.empty \<and> cseg_count s = word_of_nat (length segs) \<and>
     (length segs \<le> 2 ^ 64 \<longrightarrow> ccount_map s = count_entries segs)"

lemma smap_upd_last: "\<forall>e \<in> set m. lt (fst e) k \<Longrightarrow> smap_upd lt k f m = m @ [(k, f None)]"
  by (induction m) auto

lemma word_of_nat_less: "i < n \<Longrightarrow> n < 2 ^ 64 \<Longrightarrow> (word_of_nat i :: u64) < word_of_nat n"
  by (simp add: word_less_nat_alt unsigned_of_nat take_bit_nat_eq_self)

lemma count_entries_snoc:
  assumes "length segs < 2 ^ 64"
  shows "smap_insert (<) (word_of_nat (length segs)) (count_map (map ckey seg)) (count_entries segs) =
    count_entries (segs @ [seg])"
proof -
  have "fst e < word_of_nat (length segs)" if "e \<in> set (count_entries segs)" for e
    using that word_of_nat_less[OF _ assms] by (auto simp: count_entries_def in_set_enumerate_eq)
  then show ?thesis
    by (simp add: smap_insert_def smap_upd_last) (simp add: count_entries_def enumerate_append_eq)
qed

context leveldb_laws
begin

lemma seg_loop_csl_spec:
  "\<exists>d. seg_loop_csl L sq (v, m) s = ((v @ seg_value sq, fold smap_incr (map ckey sq) m), s\<lparr>cchunksize := d\<rparr>) \<and>
    view d = fold size_upd sq (view (cchunksize s))"
proof (induction sq arbitrary: v m s)
  case Nil
  have "s = s\<lparr>cchunksize := cchunksize s\<rparr>" by simp
  then show ?case by (intro exI[of _ "cchunksize s"]) (simp add: seg_value_def)
next
  case (Cons c sq)
  let ?s1 = "s\<lparr>cchunksize := snd (ldb_put L (cchunksize s) (ckey c) (u64_bytes (csize c)))\<rparr>"
  obtain d where "seg_loop_csl L sq (v @ ckey c, smap_incr (ckey c) m) ?s1 =
      (((v @ ckey c) @ seg_value sq, fold smap_incr (map ckey sq) (smap_incr (ckey c) m)), ?s1\<lparr>cchunksize := d\<rparr>)"
    "view d = fold size_upd sq (view (cchunksize ?s1))"
    using Cons.IH by blast
  moreover have "size_upd c (view (cchunksize s)) = view (cchunksize ?s1)"
    by (simp add: view_put size_upd_def)
  ultimately show ?case by (intro exI[of _ d]) (simp add: seg_value_def)
qed

lemma process_seg_csl_stored:
  assumes "cslice_stored view m0 segs s"
  shows "cslice_stored view m0 (segs @ [seg]) (process_seg_csl L seg s)"
proof -
  obtain d where d: "seg_loop_csl L seg ([], []) s = ((seg_value seg, count_map (map ckey seg)), s\<lparr>cchunksize := d\<rparr>)"
    "view d = fold size_upd (concat segs @ seg) m0"
    using seg_loop_csl_spec[of seg "[]" "[]" s] assms
    by (auto simp: cslice_stored_def count_map_def)
  have id: "u64_bytes (cseg_count s) = id_bytes (length segs)"
    using assms by (simp add: cslice_stored_def id_bytes_def)
  show ?thesis
    using assms d id count_entries_snoc[of segs seg]
    by (simp add: process_seg_csl_def Let_def cslice_stored_def view_put seg_table_snoc)
qed

end

sublocale leveldb_laws \<subseteq> csl: segment_store
    "\<lambda>seg s. Inr (process_seg_csl L seg s)" "\<lambda>_. True" "cslice_stored view m0"
  for m0
  by unfold_locales (simp add: process_seg_csl_stored)

context leveldb_laws
begin

lemma csl_run_stored:
  assumes "cslice_stored view m0 [] s"
  shows "\<exists>s'. seg_run (\<lambda>seg s. Inr (process_seg_csl L seg s)) cs s = Inr s' \<and>
    cslice_stored view m0 (segments [] 0 cs) s'"
  using assms by (rule csl.seg_run_stored) simp

end

lemma read_hashes_csl_seg_run:
  assumes "trace_entries file = Inr cs"
  shows "read_hashes_csl L file s = seg_run (\<lambda>seg s. Inr (process_seg_csl L seg s)) cs s"
proof -
  have "(\<lambda>c st. Inr (read_chunk_csl L c st)) = seg_chunk (\<lambda>seg s. Inr (process_seg_csl L seg s))"
    by (auto simp: fun_eq_iff read_chunk_csl_def seg_chunk_def)
  then show ?thesis
    unfolding read_hashes_csl_def foldE_trace_entries[OF assms] seg_run_def by simp
qed

lemma read_hashes_csl_stored:
  assumes "leveldb_laws L view" "cslice_stored view m0 [] s" "trace_entries file = Inr cs"
  shows "\<exists>s'. read_hashes_csl L file s = Inr s' \<and> cslice_stored view m0 (segments [] 0 cs) s'"
  unfolding read_hashes_csl_seg_run[OF assms(3)] by (rule leveldb_laws.csl_run_stored[OF assms(1,2)])

section \<open>The distance of two segments\<close>

definition fps :: "chunk list \<Rightarrow> bytes set" where
  "fps seg = ckey ` set seg"

definition jaccard :: "'a set \<Rightarrow> 'a set \<Rightarrow> real" where
  "jaccard A B = real (card (A \<inter> B)) / real (card (A \<union> B))"

lemma jaccard_bounds: "finite A \<Longrightarrow> 0 \<le> jaccard A B \<and> jaccard A B \<le> 1"
proof -
  assume "finite A"
  show ?thesis
  proof (cases "finite B")
    case True
    then have "card (A \<inter> B) \<le> card (A \<union> B)"
      using \<open>finite A\<close> by (intro card_mono) auto
    then show ?thesis by (cases "card (A \<union> B) = 0") (simp_all add: jaccard_def divide_le_eq_1)
  qed (simp add: jaccard_def)
qed

lemma jaccard_sym: "jaccard A B = jaccard B A"
  by (simp add: jaccard_def Int_commute Un_commute)

lemma jaccard_self: "finite A \<Longrightarrow> A \<noteq> {} \<Longrightarrow> jaccard A A = 1"
  by (simp add: jaccard_def card_gt_0_iff)

lemma fold_assign:
  "sorted_wrt (<) (map fst m) \<Longrightarrow>
   sorted_wrt (<) (map fst (fold (\<lambda>e. smap_assign (fst e) v) es m)) \<and>
   dom (map_of (fold (\<lambda>e. smap_assign (fst e) v) es m)) = set (map fst es) \<union> set (map fst m)"
proof (induction es arbitrary: m)
  case Nil
  then show ?case by (simp add: dom_map_of_conv_image_fst)
next
  case (Cons e es)
  let ?m = "smap_assign (fst e) v m"
  have s: "sorted_wrt (<) (map fst ?m)"
    unfolding smap_assign_def by (rule sorted_smap_upd[OF weak_order_less Cons.prems])
  have "dom (map_of ?m) = insert (fst e) (dom (map_of m))"
    unfolding smap_assign_def map_of_smap_upd[OF Cons.prems] dom_fun_upd by simp
  then have "set (map fst ?m) = insert (fst e) (set (map fst m))"
    by (simp add: dom_map_of_conv_image_fst)
  then show ?case using Cons.IH[OF s] by simp
qed

lemma seg_dist_count_map:
  "seg_dist (count_map xs) (count_map ys) =
     (if set xs \<union> set ys = {} then NotANumber else Val (1 - jaccard (set xs) (set ys)))"
proof -
  define merge where "merge = fold (\<lambda>mit. smap_assign (fst mit) (1 :: u64)) (count_map ys) (count_map xs)"
  have srt: "sorted_wrt (<) (map fst merge)" and keys: "set (map fst merge) = set xs \<union> set ys"
    using fold_assign[OF count_map_sorted, of 1 "count_map ys" xs] count_map_keys[of xs] count_map_keys[of ys]
    by (auto simp: merge_def dom_map_of_conv_image_fst)
  have len: "length merge = card (set xs \<union> set ys)"
    using distinct_card[of "map fst merge"] srt strict_sorted_iff[of "map fst merge"] keys by simp
  have "merge = [] \<longleftrightarrow> set xs \<union> set ys = {}" using keys by (cases merge) auto
  moreover have "card (set xs) + card (set ys) - card (set xs \<union> set ys) = card (set xs \<inter> set ys)"
    using card_Un_Int[of "set xs" "set ys"] by simp
  ultimately show ?thesis
    unfolding seg_dist_def merge_def[symmetric] Let_def by (simp add: len length_count_map jaccard_def)
qed

section \<open>The matrix\<close>

fun upper :: "'a list \<Rightarrow> ('a \<times> 'a) list" where
  "upper [] = []"
| "upper (x # xs) = map (Pair x) (x # xs) @ upper xs"

lemma dist_loop_upper: "dist_loop n segs mat = foldE (\<lambda>(a, b). dist_pair n a b) (upper segs) mat"
proof (induction segs arbitrary: mat)
  case (Cons x xs)
  have "foldE (\<lambda>(a, b). dist_pair n a b) (map (Pair x) (x # xs)) mat = foldE (dist_pair n x) (x # xs) mat"
    unfolding foldE_map by simp
  moreover have "dist_loop n xs = foldE (\<lambda>(a, b). dist_pair n a b) (upper xs)"
    using Cons.IH by (simp add: fun_eq_iff)
  ultimately show ?case by (simp only: dist_loop.simps upper.simps foldE_append)
qed simp

lemma upper_mem: "(a, b) \<in> set (upper xs) \<Longrightarrow> a \<in> set xs \<and> b \<in> set xs"
  by (induction xs) auto

lemma upper_nth: "i \<le> j \<Longrightarrow> j < length xs \<Longrightarrow> (xs ! i, xs ! j) \<in> set (upper xs)"
proof (induction xs arbitrary: i j)
  case (Cons x xs)
  show ?case
  proof (cases i)
    case 0
    have "(x # xs) ! j \<in> set (x # xs)" using Cons.prems(2) by (rule nth_mem)
    then show ?thesis using 0 by auto
  next
    case (Suc k)
    then obtain l where "j = Suc l" using Cons.prems by (cases j) auto
    then show ?thesis using Suc Cons.IH[of k l] Cons.prems by simp
  qed
qed simp

text \<open>The position of the cell of two segments, and what the matrix holds once a list of pairs is done.\<close>

definition pos :: "nat \<Rightarrow> u64 \<times> 'a \<Rightarrow> u64 \<times> 'a \<Rightarrow> nat" where
  "pos n a b = unat (fst a) * n + unat (fst b)"

definition filled :: "nat \<Rightarrow> ((u64 \<times> (bytes \<times> u64) list) \<times> (u64 \<times> (bytes \<times> u64) list)) list \<Rightarrow> cell list \<Rightarrow> bool" where
  "filled n ps mat \<longleftrightarrow> length mat = n * n \<and>
     (\<forall>(a, b) \<in> set ps. mat ! pos n a b = seg_dist (snd a) (snd b) \<and> mat ! pos n b a = seg_dist (snd a) (snd b))"

lemma pos_less: "unat (fst a) < n \<Longrightarrow> unat (fst b) < n \<Longrightarrow> pos n a b < n * n"
proof -
  assume a: "unat (fst a) < n" and b: "unat (fst b) < n"
  have "pos n a b < Suc (unat (fst a)) * n" using b by (simp add: pos_def)
  also have "\<dots> \<le> n * n" using a by (intro mult_le_mono1) simp
  finally show ?thesis .
qed

lemma pos_inject:
  assumes "unat (fst b) < n" "unat (fst d) < n" "pos n a b = pos n c d"
  shows "fst a = fst c \<and> fst b = fst d"
proof -
  have "(unat (fst a) * n + unat (fst b)) div n = unat (fst a)" "(unat (fst c) * n + unat (fst d)) div n = unat (fst c)"
    "(unat (fst a) * n + unat (fst b)) mod n = unat (fst b)" "(unat (fst c) * n + unat (fst d)) mod n = unat (fst d)"
    using assms(1,2) by simp_all
  then show ?thesis using assms(3) unfolding pos_def by (metis word_unat_eq_iff)
qed

lemma word_pos:
  assumes "unat (fst a) < n" "unat (fst b) < n" "n * n < 2 ^ 64"
  shows "unat (fst a * word_of_nat n + fst b) = pos n a b"
proof -
  have n: "fst a * word_of_nat n + fst b = word_of_nat (pos n a b)" by (simp add: pos_def)
  have "pos n a b < 2 ^ 64" using pos_less[OF assms(1,2)] assms(3) by simp
  then show ?thesis unfolding n by (simp add: unsigned_of_nat take_bit_nat_eq_self)
qed

lemma seg_dist_sym: "seg_dist (count_map xs) (count_map ys) = seg_dist (count_map ys) (count_map xs)"
  unfolding seg_dist_count_map by (simp add: jaccard_sym Un_commute conj_commute)

lemma count_entries_nth: "i < length segs \<Longrightarrow> count_entries segs ! i = (word_of_nat i, count_map (map ckey (segs ! i)))"
  by (simp add: count_entries_def nth_enumerate_eq)

lemma length_count_entries [simp]: "length (count_entries segs) = length segs"
  by (simp add: count_entries_def)

text \<open>Entries of the same matrix: their numbers are in range and identify them.\<close>

lemma count_entries_mem:
  assumes "e \<in> set (count_entries segs)" "length segs \<le> 2 ^ 64"
  shows "unat (fst e) < length segs \<and> e = count_entries segs ! unat (fst e)"
proof -
  obtain i where i: "i < length segs" "e = count_entries segs ! i"
    using assms(1) by (metis in_set_conv_nth length_count_entries)
  then have "unat (fst e) = i" using assms(2) by (simp add: count_entries_nth unsigned_of_nat take_bit_nat_eq_self)
  then show ?thesis using i by simp
qed

lemma dist_pair_filled:
  assumes "filled n ps mat" "n = length segs" "n * n < 2 ^ 64"
    "\<forall>(a, b) \<in> set (ps @ [p]). a \<in> set (count_entries segs) \<and> b \<in> set (count_entries segs)"
  shows "\<exists>mat'. (\<lambda>(a, b). dist_pair (word_of_nat n) a b) p mat = Inr mat' \<and> filled n (ps @ [p]) mat'"
proof -
  obtain a b where p: "p = (a, b)" by (cases p)
  have n64: "length segs \<le> 2 ^ 64" using assms(2,3) le_square[of n] by linarith
  note mem = count_entries_mem[OF _ n64]
  have ab: "unat (fst a) < n" "unat (fst b) < n" using assms(2,4) p mem by auto
  let ?v = "seg_dist (snd a) (snd b)"
  let ?mat = "mat[pos n a b := ?v, pos n b a := ?v]"
  have sym: "seg_dist (snd c) (snd d) = seg_dist (snd d) (snd c)"
    if "c \<in> set (count_entries segs)" "d \<in> set (count_entries segs)" for c d
    using that seg_dist_sym by (auto simp: count_entries_def)
  have step: "dist_pair (word_of_nat n) a b mat = Inr ?mat"
    using assms(1) pos_less[OF ab] pos_less[OF ab(2,1)] word_pos[OF ab assms(3)] word_pos[OF ab(2,1) assms(3)]
    by (simp add: dist_pair_def write_cell_def filled_def)
  have cell: "?mat ! pos n c d = seg_dist (snd c) (snd d)"
    if cd: "c \<in> set (count_entries segs)" "d \<in> set (count_entries segs)"
      "mat ! pos n c d = seg_dist (snd c) (snd d) \<or> pos n c d \<in> {pos n a b, pos n b a}" for c d
  proof (cases "pos n c d \<in> {pos n a b, pos n b a}")
    case True
    have "unat (fst c) < n" "unat (fst d) < n" using cd(1,2) mem assms(2) by auto
    then have "fst c = fst a \<and> fst d = fst b \<or> fst c = fst b \<and> fst d = fst a"
      using True pos_inject ab by blast
    moreover have same: "x = y" if "fst x = fst y" "x \<in> set (count_entries segs)" "y \<in> set (count_entries segs)" for x y
      using that mem by metis
    moreover have "a \<in> set (count_entries segs)" "b \<in> set (count_entries segs)" using assms(4) p by auto
    ultimately have "c = a \<and> d = b \<or> c = b \<and> d = a" using cd(1,2) by metis
    then have "seg_dist (snd c) (snd d) = ?v" using sym[OF cd(1,2)] by auto
    then show ?thesis
      using True assms(1) pos_less[OF ab] pos_less[OF ab(2,1)] by (auto simp: filled_def nth_list_update)
  next
    case False
    then show ?thesis using cd(3) by simp
  qed
  have "filled n (ps @ [p]) ?mat"
    unfolding filled_def
  proof (intro conjI ballI)
    show "length ?mat = n * n" using assms(1) by (simp add: filled_def)
    fix q assume q: "q \<in> set (ps @ [p])"
    obtain c d where cd: "q = (c, d)" by (cases q)
    have m: "c \<in> set (count_entries segs)" "d \<in> set (count_entries segs)" using q cd assms(4) by auto
    have "?mat ! pos n c d = seg_dist (snd c) (snd d)" "?mat ! pos n d c = seg_dist (snd d) (snd c)"
      using cell[OF m] cell[OF m(2,1)] q cd p assms(1) sym[OF m] by (auto simp: filled_def)
    then show "case q of (a, b) \<Rightarrow> ?mat ! pos n a b = seg_dist (snd a) (snd b) \<and> ?mat ! pos n b a = seg_dist (snd a) (snd b)"
      using cd sym[OF m] by simp
  qed
  then show ?thesis using step p by simp
qed

lemma dist_store:
  assumes "n = length segs" "n * n < 2 ^ 64"
  shows "sequence_store (\<lambda>(a, b). dist_pair (word_of_nat n) a b)
    (\<lambda>ps. \<forall>(a, b) \<in> set ps. a \<in> set (count_entries segs) \<and> b \<in> set (count_entries segs)) (filled n)"
  using dist_pair_filled[OF _ assms] by unfold_locales auto

definition cell_of :: "chunk list \<Rightarrow> chunk list \<Rightarrow> cell" where
  "cell_of seg seg' = (if fps seg \<union> fps seg' = {} then NotANumber else Val (1 - jaccard (fps seg) (fps seg')))"

lemma port2cluster_cells:
  assumes "cseg_count s = word_of_nat n" "ccount_map s = count_entries segs" "n = length segs" "n * n < 2 ^ 64"
  shows "\<exists>mat. port2cluster s = Inr (s\<lparr>cdist := mat\<rparr>) \<and> length mat = n * n \<and>
    (\<forall>i < n. \<forall>j < n. mat ! (i * n + j) = cell_of (segs ! i) (segs ! j))"
proof -
  let ?cm = "count_entries segs"
  have n: "unat (word_of_nat n * word_of_nat n :: u64) = n * n"
    using assms(4) by (simp add: unsigned_of_nat take_bit_nat_eq_self flip: of_nat_mult)
  have "\<exists>mat. foldE (\<lambda>(a, b). dist_pair (word_of_nat n) a b) (upper ?cm) (replicate (n * n) Junk) = Inr mat \<and>
      filled n ([] @ upper ?cm) mat"
    by (rule sequence_store.absorb_all[OF dist_store[OF assms(3,4)]]) (auto simp: filled_def dest: upper_mem)
  then obtain mat where mat: "dist_loop (word_of_nat n) ?cm (replicate (n * n) Junk) = Inr mat" "filled n (upper ?cm) mat"
    unfolding dist_loop_upper by auto
  have n64: "n \<le> 2 ^ 64" using le_square[of n] assms(4) by linarith
  have sd: "seg_dist (snd (?cm ! i)) (snd (?cm ! j)) = cell_of (segs ! i) (segs ! j)" if "i < n" "j < n" for i j
    using that assms(3) by (simp add: count_entries_nth seg_dist_count_map cell_of_def fps_def)
  have ps: "pos n (?cm ! i) (?cm ! j) = i * n + j" if "i < n" "j < n" for i j
    using that assms(3) n64 by (simp add: count_entries_nth pos_def unsigned_of_nat take_bit_nat_eq_self)
  have "mat ! (i * n + j) = cell_of (segs ! i) (segs ! j)" if ij: "i < n" "j < n" for i j
  proof (cases "i \<le> j")
    case True
    then have "(?cm ! i, ?cm ! j) \<in> set (upper ?cm)" using ij assms(3) by (intro upper_nth) auto
    then show ?thesis using mat(2) ps[OF ij] sd[OF ij] by (auto simp: filled_def)
  next
    case False
    then have "(?cm ! j, ?cm ! i) \<in> set (upper ?cm)" using ij assms(3) by (intro upper_nth) auto
    then have "mat ! (i * n + j) = cell_of (segs ! j) (segs ! i)"
      using mat(2) ps[OF ij] sd[OF ij(2,1)] by (auto simp: filled_def)
    then show ?thesis by (simp add: cell_of_def jaccard_sym Un_commute conj_commute)
  qed
  then show ?thesis
    using mat assms(1,2) n by (intro exI[of _ mat]) (simp add: port2cluster_def filled_def)
qed

section \<open>The slices\<close>

text \<open>The segments of a cluster, in order.\<close>

definition members :: "bytes \<Rightarrow> int list \<Rightarrow> nat list" where
  "members key cidx = filter (\<lambda>i. slice_key (cidx ! i) = key) [0..<length cidx]"

definition cluster_table :: "int list \<Rightarrow> bytes \<rightharpoonup> bytes" where
  "cluster_table cidx key = (if members key cidx = [] then None else Some (concat (map id_bytes (members key cidx))))"

lemma members_snoc: "members key (cidx @ [c]) = members key cidx @ (if slice_key c = key then [length cidx] else [])"
proof -
  have "filter (\<lambda>i. slice_key ((cidx @ [c]) ! i) = key) [0..<length cidx] = members key cidx"
    unfolding members_def by (intro filter_cong) (auto simp: nth_append)
  then show ?thesis by (simp add: members_def)
qed

lemma cluster_table_snoc:
  "cluster_table (cidx @ [c]) = (cluster_table cidx)(slice_key c \<mapsto>
     (case cluster_table cidx (slice_key c) of None \<Rightarrow> [] | Some v \<Rightarrow> v) @ id_bytes (length cidx))"
  by (auto simp: fun_eq_iff cluster_table_def members_snoc)

context leveldb_laws
begin

lemma put_slices:
  assumes "view (cslice_db s) = Map.empty"
  shows "\<exists>d. fold (put_slice L) (map (\<lambda>(i, c). (word_of_nat i, c)) (enumerate 0 cidx)) s = s\<lparr>cslice_db := d\<rparr> \<and>
    view d = cluster_table cidx"
proof (induction cidx rule: rev_induct)
  case Nil
  have "s = s\<lparr>cslice_db := cslice_db s\<rparr>" by simp
  moreover have "Map.empty = cluster_table []" by (auto simp: fun_eq_iff cluster_table_def members_def)
  ultimately show ?case using assms by (intro exI[of _ "cslice_db s"]) simp
next
  case (snoc c cidx)
  then obtain d where d: "fold (put_slice L) (map (\<lambda>(i, c). (word_of_nat i, c)) (enumerate 0 cidx)) s = s\<lparr>cslice_db := d\<rparr>"
    "view d = cluster_table cidx" by blast
  have "put_slice L (word_of_nat (length cidx), c) (s\<lparr>cslice_db := d\<rparr>) = s\<lparr>cslice_db :=
      snd (ldb_put L d (slice_key c) ((case cluster_table cidx (slice_key c) of None \<Rightarrow> [] | Some v \<Rightarrow> v) @ id_bytes (length cidx)))\<rparr>"
    using d(2) by (cases "cluster_table cidx (slice_key c)") (simp_all add: put_slice_def get_cases id_bytes_def)
  then show ?case using d by (auto simp: enumerate_append_eq view_put cluster_table_snoc)
qed

end

lemma zip_count_entries:
  "length cidx = length segs \<Longrightarrow>
   zip (map fst (count_entries segs)) cidx = map (\<lambda>(i, c). (word_of_nat i, c)) (enumerate 0 cidx)"
  by (rule nth_equalityI) (auto simp: count_entries_nth nth_enumerate_eq)

lemma take_le_bytes: "take k (le_bytes m n) = le_bytes (min k m) n"
proof (induction m arbitrary: k n)
  case (Suc m)
  then show ?case by (cases k) auto
qed simp

lemma slice_key_inject:
  assumes "0 \<le> c" "c < 2 ^ 32" "0 \<le> d" "d < 2 ^ 32"
  shows "slice_key c = slice_key d \<longleftrightarrow> c = d"
proof -
  have key: "slice_key c = le_bytes 4 (nat c)" if "0 \<le> c" "c < 2 ^ 32" for c
  proof -
    have u: "unat (word_of_int c :: u64) = nat c"
      using that by (simp add: unat_eq_nat_uint uint_word_of_int)
    show ?thesis by (simp add: slice_key_def u64_bytes_def u take_le_bytes)
  qed
  have "le_nat (le_bytes 4 (nat c)) = nat c" if "0 \<le> c" "c < 2 ^ 32" for c
    using that by (simp add: le_nat_le_bytes nat_less_iff)
  then show ?thesis using assms key by (metis nat_eq_iff nat_0_le)
qed

section \<open>The test of the clustering\<close>

definition wf_seg :: "chunk list \<Rightarrow> bool" where
  "wf_seg seg \<longleftrightarrow> seg \<noteq> [] \<and> (\<forall>c \<in> set seg. length (ckey c) = FP_SIZE) \<and> FP_SIZE * length seg < 2 ^ 63"

lemma seg_minhash_core:
  assumes "wf_seg seg"
  shows "\<exists>pq core. seg_minhash (seg_value seg) = Inr pq \<and> pick_core r pq = Inr core \<and> ckey core = min_key seg"
proof -
  let ?f = "\<lambda>b. minhash_insert \<lparr>ckey = b, csize = 0\<rparr>" and ?seg = "map (\<lambda>c. \<lparr>ckey = ckey c, csize = 0\<rparr>) seg"
  have "seg_minhash (seg_value seg) = foldE (\<lambda>b pq. Inr (?f b pq)) (map ckey seg) []"
    unfolding seg_minhash_def seg_value_def using assms by (intro for_step_blocks) (auto simp: wf_seg_def)
  also have "\<dots> = Inr (fold ?f (map ckey seg) [])" by (rule foldE_Inr_eq_fold) simp
  also have "fold ?f (map ckey seg) [] = fold minhash_insert ?seg []" by (simp add: fold_map comp_def)
  finally have "seg_minhash (seg_value seg) = Inr (fold minhash_insert ?seg [])" .
  moreover have "min_key ?seg = min_key seg" by (simp add: min_key_def image_image)
  ultimately show ?thesis using pick_core_fold[of ?seg r] assms by (auto simp: wf_seg_def)
qed

text \<open>What \<open>test_seg\<close> does with the MinHash of a segment it finds.\<close>

definition absorb_min :: "bytes \<Rightarrow> tcluster \<Rightarrow> tcluster" where
  "absorb_min m t =
     (let t = t\<lparr>tseg := tseg t + 1, tnrand := Suc (tnrand t), minhash_count := smap_incr m (minhash_count t),
                minhash_slice := smap_incr m (minhash_slice t)\<rparr>;
          n = the (map_of (minhash_count t) m)
      in if n > max_count t then t\<lparr>max_count := n\<rparr> else t)"

context leveldb_laws
begin

lemma test_seg_found:
  assumes "view db seg_id = Some (seg_value seg)" "wf_seg seg"
  shows "test_seg L rnd db seg_id t = Inr (absorb_min (min_key seg) t)"
proof -
  obtain pq core where "seg_minhash (seg_value seg) = Inr pq" "pick_core (rnd (tnrand t)) pq = Inr core"
    "ckey core = min_key seg" using seg_minhash_core[OF assms(2)] by blast
  then show ?thesis using assms(1) by (simp add: test_seg_def get_cases absorb_min_def Let_def)
qed

end

definition is_max :: "bytes list \<Rightarrow> nat \<Rightarrow> bool" where
  "is_max xs m \<longleftrightarrow> (\<forall>x. count_list xs x \<le> m) \<and> (\<exists>x. count_list xs x = m)"

lemma is_max_snoc:
  assumes "is_max xs m"
  shows "is_max (xs @ [x]) (max m (Suc (count_list xs x)))"
  unfolding is_max_def
proof (intro conjI allI)
  fix y
  show "count_list (xs @ [x]) y \<le> max m (Suc (count_list xs x))"
    using assms by (auto simp: is_max_def le_max_iff_disj)
next
  obtain y where y: "count_list xs y = m" using assms by (auto simp: is_max_def)
  show "\<exists>y. count_list (xs @ [x]) y = max m (Suc (count_list xs x))"
  proof (cases "m \<le> count_list xs x")
    case True
    then show ?thesis by (intro exI[of _ x]) auto
  next
    case False
    then show ?thesis using y by (intro exI[of _ y]) auto
  qed
qed

lemma count_list_all: "count_list xs x = length xs \<longleftrightarrow> (\<forall>y \<in> set xs. y = x)"
proof (induction xs)
  case (Cons y xs)
  then show ?case using count_le_length[of xs x] by auto
qed simp

lemma is_max_unanimous:
  assumes "is_max xs m" "xs \<noteq> []"
  shows "m div length xs = (if \<exists>x. \<forall>y \<in> set xs. y = x then 1 else 0)"
proof -
  obtain x where x: "count_list xs x = m" using assms(1) by (auto simp: is_max_def)
  then have le: "m \<le> length xs" using count_le_length[of xs x] by simp
  have "m = length xs \<longleftrightarrow> (\<exists>x. \<forall>y \<in> set xs. y = x)"
  proof
    assume "m = length xs"
    then show "\<exists>x. \<forall>y \<in> set xs. y = x" using x count_list_all by metis
  next
    assume "\<exists>x. \<forall>y \<in> set xs. y = x"
    then obtain z where "count_list xs z = length xs" using count_list_all by metis
    then have "length xs \<le> m" using assms(1) by (metis is_max_def)
    then show "m = length xs" using le by simp
  qed
  then show ?thesis using le assms(2) by auto
qed

text \<open>The state after the segments of a slice whose MinHashes are \<open>xs\<close>.\<close>

definition slice_seen :: "tcluster \<Rightarrow> bytes list \<Rightarrow> tcluster \<Rightarrow> bool" where
  "slice_seen t0 xs t \<longleftrightarrow> minhash_count t = count_map xs \<and> tseg t = word_of_nat (length xs) \<and>
     minhash_slice t = fold smap_incr xs (minhash_slice t0) \<and> ratio_sum t = ratio_sum t0 \<and>
     (\<exists>m. is_max xs m \<and> max_count t = word_of_nat m)"

interpretation tc: sequence_store "\<lambda>m t. Inr (absorb_min m t) :: cpp_error + tcluster" "\<lambda>xs. length xs < 2 ^ 64" "slice_seen t0" for t0
proof unfold_locales
  fix xs t x assume seen: "slice_seen t0 xs t" and len: "length (xs @ [x]) < 2 ^ 64"
  obtain m where m: "is_max xs m" "max_count t = word_of_nat m" using seen by (auto simp: slice_seen_def)
  have c: "the (map_of (count_map (xs @ [x])) x) = word_of_nat (Suc (count_list xs x))"
    by (simp add: count_map_lookup)
  have "m \<le> length xs" using m(1) count_le_length by (auto simp: is_max_def)
  moreover have "count_list xs x \<le> length xs" by (rule count_le_length)
  ultimately have "(word_of_nat m :: u64) < word_of_nat (Suc (count_list xs x)) \<longleftrightarrow> m < Suc (count_list xs x)"
    using len by (simp add: word_less_nat_alt unsigned_of_nat take_bit_nat_eq_self del: of_nat_Suc)
  moreover have "word_of_nat (length xs) + 1 = (word_of_nat (Suc (length xs)) :: u64)" by simp
  ultimately have "slice_seen t0 (xs @ [x]) (absorb_min x t)"
    using seen m(2) c is_max_snoc[OF m(1), of x]
    by (auto simp: slice_seen_def absorb_min_def Let_def count_map_snoc[symmetric] max_def simp del: of_nat_Suc)
  then show "\<exists>t'. Inr (absorb_min x t) = Inr t' \<and> slice_seen t0 (xs @ [x]) t'" by blast
qed simp

definition unanimous :: "chunk list list \<Rightarrow> nat list \<Rightarrow> bool" where
  "unanimous segs ids \<longleftrightarrow> (\<exists>m. \<forall>i \<in> set ids. min_key (segs ! i) = m)"

context leveldb_laws
begin

lemma test_slice_value:
  assumes db: "view db = seg_table segs" and wf: "\<forall>seg \<in> set segs. wf_seg seg" and len: "length segs < 2 ^ 60"
    and ids: "ids \<noteq> []" "set ids \<subseteq> {..<length segs}" "length ids \<le> length segs"
  shows "\<exists>t'. test_slice L rnd db (key, concat (map id_bytes ids)) t = Inr t' \<and>
    ratio_sum t' = ratio_sum t + (if unanimous segs ids then 1 else 0) \<and>
    minhash_slice t' = fold smap_incr (map (\<lambda>i. min_key (segs ! i)) ids) (minhash_slice t)"
proof -
  let ?t0 = "t\<lparr>minhash_count := [], tseg := 0, max_count := 0\<rparr>" and ?xs = "map (\<lambda>i. min_key (segs ! i)) ids"
  have seg: "test_seg L rnd db (id_bytes i) t1 = Inr (absorb_min (min_key (segs ! i)) t1)" if "i \<in> set ids" for i t1
    using that ids(2) wf len by (intro test_seg_found) (auto simp: db seg_table_lookup)
  have "for_step 8 (block_lim (length (concat (map id_bytes ids))) 8)
      (\<lambda>i t. bindE (read_bytes (concat (map id_bytes ids)) i 8) (\<lambda>b. test_seg L rnd db b t)) 0 ?t0 =
    foldE (test_seg L rnd db) (map id_bytes ids) ?t0"
    using ids(1,3) len by (intro for_step_blocks) (auto simp: id_bytes_def)
  also have "\<dots> = foldE (\<lambda>i. test_seg L rnd db (id_bytes i)) ids ?t0" by (rule foldE_map)
  also have "\<dots> = foldE (\<lambda>i t. Inr (absorb_min (min_key (segs ! i)) t)) ids ?t0"
    by (rule foldE_cong_set) (simp add: seg)
  also have "\<dots> = foldE (\<lambda>m t. Inr (absorb_min m t)) ?xs ?t0" by (simp add: foldE_map)
  finally have loop: "for_step 8 (block_lim (length (concat (map id_bytes ids))) 8)
      (\<lambda>i t. bindE (read_bytes (concat (map id_bytes ids)) i 8) (\<lambda>b. test_seg L rnd db b t)) 0 ?t0 =
    foldE (\<lambda>m t. Inr (absorb_min m t)) ?xs ?t0" .
  have "slice_seen ?t0 [] ?t0" by (auto simp: slice_seen_def count_map_def is_max_def)
  from tc.absorb_all[OF this, of ?xs] obtain t1 where t1: "foldE (\<lambda>m t. Inr (absorb_min m t)) ?xs ?t0 = (Inr t1 :: cpp_error + tcluster)"
    "slice_seen ?t0 ?xs t1" using ids(3) len by auto
  then obtain m where m: "is_max ?xs m" "max_count t1 = word_of_nat m" "tseg t1 = word_of_nat (length ids)"
    by (auto simp: slice_seen_def)
  have "m \<le> length ids" using m(1) count_le_length[of ?xs] by (auto simp: is_max_def)
  then have "unat (max_count t1) = m" "unat (tseg t1) = length ids"
    using m(2,3) ids(3) len by (simp_all add: unsigned_of_nat take_bit_nat_eq_self)
  then have q: "unat (max_count t1 div tseg t1) = (if unanimous segs ids then 1 else 0)"
    using is_max_unanimous[OF m(1)] ids(1) by (simp add: unat_div_distrib unanimous_def)
  have "real (unat (max_count t1 div tseg t1)) = (if unanimous segs ids then 1 else 0)"
    unfolding q by simp
  then show ?thesis using loop t1 by (simp add: test_slice_def slice_seen_def)
qed

end

text \<open>The slices of a store, each with the segments it lists.\<close>

lemma members_mem: "i \<in> set (members key cidx) \<longleftrightarrow> i < length cidx \<and> slice_key (cidx ! i) = key"
  by (auto simp: members_def)

lemma length_members: "length (members key cidx) \<le> length cidx"
  unfolding members_def by (metis length_filter_le length_upt minus_nat.diff_0)

context leveldb_laws
begin

lemma test_slices:
  assumes db: "view db = seg_table segs" and wf: "\<forall>seg \<in> set segs. wf_seg seg" and len: "length segs < 2 ^ 60"
    and cidx: "length cidx = length segs" and es: "\<forall>e \<in> set es. cluster_table cidx (fst e) = Some (snd e)"
  shows "\<exists>t'. foldE (test_slice L rnd db) es t = Inr t' \<and>
    ratio_sum t' = ratio_sum t + real (length (filter (\<lambda>e. unanimous segs (members (fst e) cidx)) es)) \<and>
    minhash_slice t' = fold smap_incr (concat (map (\<lambda>e. map (\<lambda>i. min_key (segs ! i)) (members (fst e) cidx)) es)) (minhash_slice t)"
  using es
proof (induction es arbitrary: t)
  case (Cons e es)
  let ?ids = "members (fst e) cidx"
  have e: "?ids \<noteq> []" "e = (fst e, concat (map id_bytes ?ids))"
    using Cons.prems by (auto simp: cluster_table_def prod_eq_iff split: if_splits)
  have "set ?ids \<subseteq> {..<length segs}" "length ?ids \<le> length segs"
    using cidx length_members[of "fst e" cidx] by (auto simp: members_mem)
  then obtain t1 where t1: "test_slice L rnd db e t = Inr t1"
    "ratio_sum t1 = ratio_sum t + (if unanimous segs ?ids then 1 else 0)"
    "minhash_slice t1 = fold smap_incr (map (\<lambda>i. min_key (segs ! i)) ?ids) (minhash_slice t)"
    using test_slice_value[OF db wf len e(1), of rnd "fst e" t] e(2) by metis
  obtain t2 where "foldE (test_slice L rnd db) es t1 = Inr t2"
    "ratio_sum t2 = ratio_sum t1 + real (length (filter (\<lambda>e. unanimous segs (members (fst e) cidx)) es))"
    "minhash_slice t2 = fold smap_incr (concat (map (\<lambda>e. map (\<lambda>i. min_key (segs ! i)) (members (fst e) cidx)) es)) (minhash_slice t1)"
    using Cons.IH[of t1] Cons.prems by auto
  then show ?case using t1 by simp
qed simp

end

section \<open>The distances and the slices of a segmentation\<close>

definition seg_distance :: "chunk list list \<Rightarrow> nat \<Rightarrow> nat \<Rightarrow> real" where
  "seg_distance segs i j = 1 - jaccard (fps (segs ! i)) (fps (segs ! j))"

lemma seg_distance_props:
  "seg_distance segs i j = seg_distance segs j i" "0 \<le> seg_distance segs i j" "seg_distance segs i j \<le> 1"
  "segs ! i \<noteq> [] \<Longrightarrow> seg_distance segs i i = 0"
proof -
  have f: "finite (fps seg)" for seg by (simp add: fps_def)
  show "seg_distance segs i j = seg_distance segs j i" "0 \<le> seg_distance segs i j" "seg_distance segs i j \<le> 1"
    using jaccard_bounds[OF f, of "segs ! i" "fps (segs ! j)"] by (simp_all add: seg_distance_def jaccard_sym)
  show "seg_distance segs i i = 0" if "segs ! i \<noteq> []"
    using jaccard_self[OF f, of "segs ! i"] that by (simp add: seg_distance_def fps_def)
qed

lemma port2cluster_distances:
  assumes "cslice_stored view m0 segs s" "\<forall>seg \<in> set segs. seg \<noteq> []" "n = length segs" "n * n < 2 ^ 64"
  shows "\<exists>mat. port2cluster s = Inr (s\<lparr>cdist := mat\<rparr>) \<and> length mat = n * n \<and>
    (\<forall>i < n. \<forall>j < n. mat ! (i * n + j) = Val (seg_distance segs i j))"
proof -
  have "n \<le> 2 ^ 64" using assms(4) le_square[of n] by linarith
  then obtain mat where mat: "port2cluster s = Inr (s\<lparr>cdist := mat\<rparr>)" "length mat = n * n"
    "\<forall>i < n. \<forall>j < n. mat ! (i * n + j) = cell_of (segs ! i) (segs ! j)"
    using port2cluster_cells[of s n segs] assms by (auto simp: cslice_stored_def)
  have "fps (segs ! i) \<noteq> {}" if "i < n" for i using that assms(2,3) by (simp add: fps_def)
  then show ?thesis using mat by (auto simp: cell_of_def seg_distance_def)
qed

lemma port2slice_table:
  assumes "leveldb_laws L view" "cslice_stored view m0 segs s" "length segs \<le> 2 ^ 64"
    "clusterizerseparatedbydist rep r = Inr (k, cidx, cz)" "length cidx = length segs"
  shows "\<exists>d. port2slice L rep r s = Inr (k, s\<lparr>cslice_db := d\<rparr>) \<and> view d = cluster_table cidx"
proof -
  have "fold (put_slice L) (zip (map fst (ccount_map s)) cidx) s =
      fold (put_slice L) (map (\<lambda>(i, c). (word_of_nat i, c)) (enumerate 0 cidx)) s"
    using assms(2,3) zip_count_entries[OF assms(5)] by (simp add: cslice_stored_def)
  then show ?thesis
    using leveldb_laws.put_slices[OF assms(1), of s cidx] assms(2,4) by (auto simp: port2slice_def cslice_stored_def)
qed

section \<open>Properties of ciphertext slicing\<close>

text \<open>C25. Reading a ciphertext trace stores its segmentation: the segments in order are the chunk
  sequence, segment i is stored under its number as the concatenation of its fingerprints, the map of
  counts has one entry per segment, in order, with the frequency of every fingerprint of the segment,
  the store of sizes has the last size of every chunk and keeps its other entries, and the segment counter is their number.\<close>

theorem read_hashes_csl_segments:
  assumes "leveldb_laws L view" "cslice_stored view m0 [] s" "trace_entries file = Inr cs"
    "length (segments [] 0 cs) \<le> 2 ^ 64"
  shows "\<exists>s'. read_hashes_csl L file s = Inr s' \<and> concat (segments [] 0 cs) = cs \<and>
    cseg_count s' = word_of_nat (length (segments [] 0 cs)) \<and>
    (\<forall>fp. view (cchunksize s') fp = (if fp \<in> ckey ` set cs then Some (u64_bytes (last_size cs fp)) else m0 fp)) \<and>
    length (ccount_map s') = length (segments [] 0 cs) \<and>
    (\<forall>i < length (segments [] 0 cs). let seg = segments [] 0 cs ! i; (n, counts) = ccount_map s' ! i in
       view (cseg_db s') (id_bytes i) = Some (seg_value seg) \<and> n = word_of_nat i \<and>
       (\<forall>fp. map_of counts fp = (if fp \<in> fps seg then Some (word_of_nat (count_list (map ckey seg) fp)) else None)))"
proof -
  obtain s' where s': "read_hashes_csl L file s = Inr s'" "cslice_stored view m0 (segments [] 0 cs) s'"
    using read_hashes_csl_stored[OF assms(1-3)] by blast
  then show ?thesis
    using assms(4) seg_table_lookup[of "segments [] 0 cs"]
    by (simp add: cslice_stored_def concat_segments fold_size_lookup count_entries_nth count_map_lookup fps_def)
qed

definition demo_cslice :: "mem_db cslice" where
  "demo_cslice = \<lparr>cseg_db = [], cslice_db = [], cchunksize = [], cseg_count = 0, ccount_map = [], cdist = [], cnrand = 0\<rparr>"

lemma demo_cslice_stored: "cslice_stored map_of Map.empty [] demo_cslice"
  by (simp add: cslice_stored_def demo_cslice_def count_entries_def)

lemma demo_segments: "segments [] 0 [demo_chunk] = [[demo_chunk]]"
  by (simp add: demo_chunk_def SEG_SIZE_def)

theorem read_hashes_csl_segments_witness:
  "\<exists>s'. read_hashes_csl (mem_leveldb (\<lambda>_. [])) demo_trace demo_cslice = Inr s' \<and> cseg_count s' = 1 \<and>
    map_of (cseg_db s') (id_bytes 0) = Some ''abcdef''"
  using read_hashes_csl_segments[OF mem.leveldb_laws_axioms demo_cslice_stored demo_trace_entries, of "\<lambda>_. []"]
  unfolding demo_segments by (auto simp: demo_chunk_def seg_value_def Let_def case_prod_beta)

text \<open>The distance matrix of a segmentation into non-empty segments is filled completely, without
  a write outside of it: the cell of two segments is one minus the Jaccard index of their fingerprint
  sets. So it is symmetric, within zero and one, and zero on the diagonal.\<close>

lemma port2cluster_jaccard:
  assumes "cslice_stored view m0 segs s" "\<forall>seg \<in> set segs. seg \<noteq> []" "n = length segs" "n * n < 2 ^ 64"
  shows "\<exists>s' d. port2cluster s = Inr s' \<and> length (cdist s') = n * n \<and>
    (\<forall>i < n. \<forall>j < n. cdist s' ! (i * n + j) = Val (d i j) \<and>
       d i j = 1 - jaccard (fps (segs ! i)) (fps (segs ! j)) \<and> d i j = d j i \<and> 0 \<le> d i j \<and> d i j \<le> 1 \<and> d i i = 0)"
proof -
  obtain mat where mat: "port2cluster s = Inr (s\<lparr>cdist := mat\<rparr>)" "length mat = n * n"
    "\<forall>i < n. \<forall>j < n. mat ! (i * n + j) = Val (seg_distance segs i j)" using port2cluster_distances[OF assms] by blast
  have "segs ! i \<noteq> []" if "i < n" for i using that assms(2,3) by simp
  with mat show ?thesis
    by (intro exI[of _ "s\<lparr>cdist := mat\<rparr>"] exI[of _ "seg_distance segs"]) (simp add: seg_distance_props seg_distance_def[symmetric] seg_distance_props(1)[symmetric])
qed

lemma port2cluster_jaccard_witness:
  "\<exists>s' d. port2cluster (process_seg_csl (mem_leveldb (\<lambda>_. [])) [demo_chunk] demo_cslice) = Inr s' \<and>
    length (cdist s') = 1 \<and> cdist s' ! 0 = Val (d 0 0) \<and> d 0 0 = (0 :: real)"
proof -
  have "cslice_stored map_of Map.empty [[demo_chunk]] (process_seg_csl (mem_leveldb (\<lambda>_. [])) [demo_chunk] demo_cslice)"
    using mem.process_seg_csl_stored[OF demo_cslice_stored, of "[demo_chunk]" "\<lambda>_. []"] by simp
  from port2cluster_jaccard[OF this, of 1] show ?thesis by fastforce
qed

lemma id_bytes_neq_Nil [simp]: "id_bytes i \<noteq> []"
  using length_u64_bytes[of "word_of_nat i"] unfolding id_bytes_def by (metis list.size(3) zero_neq_numeral)

lemma concat_id_bytes_inject:
  assumes "concat (map id_bytes ids) = concat (map id_bytes ids')" "set ids \<subseteq> {..<n}" "set ids' \<subseteq> {..<n}" "n \<le> 2 ^ 64"
  shows "ids = ids'"
  using assms
proof (induction ids arbitrary: ids')
  case Nil
  then show ?case by (cases ids') auto
next
  case (Cons i ids)
  obtain j js where j: "ids' = j # js" using Cons.prems(1) by (cases ids') auto
  have "length (id_bytes i) = length (id_bytes j)" by (simp add: id_bytes_def)
  then have eq: "id_bytes i = id_bytes j" "concat (map id_bytes ids) = concat (map id_bytes js)"
    using Cons.prems(1) j by simp_all
  have "i = j" using id_bytes_inject[of i j] eq(1) Cons.prems(2-4) j by auto
  then show ?case using Cons.IH[OF eq(2)] Cons.prems(2-4) j by auto
qed

text \<open>The slices partition the segments. When the cut assigns each segment one of at
  most \<open>2 ^ 32\<close> clusters, every segment is listed in the slice of its cluster and in no other, a slice
  lists exactly the segments of its cluster, in order, and the number of clusters is returned. The
  other stores are not touched.\<close>

lemma port2slice_partition:
  assumes "leveldb_laws L view" "cslice_stored view m0 segs s" "length segs \<le> 2 ^ 64"
    "clusterizerseparatedbydist rep r = Inr (k, cidx, cz)" "length cidx = length segs" "\<forall>c \<in> set cidx. 0 \<le> c \<and> c < int k" "k \<le> 2 ^ 32"
  shows "\<exists>s'. port2slice L rep r s = Inr (k, s') \<and> cseg_db s' = cseg_db s \<and> cchunksize s' = cchunksize s \<and>
    (\<forall>i < length segs. \<exists>!key. \<exists>ids. view (cslice_db s') key = Some (concat (map id_bytes ids)) \<and> i \<in> set ids \<and> set ids \<subseteq> {..<length segs}) \<and>
    (\<forall>c. 0 \<le> c \<and> c < int k \<longrightarrow> (let ids = filter (\<lambda>i. cidx ! i = c) [0..<length segs] in
       view (cslice_db s') (slice_key c) = (if ids = [] then None else Some (concat (map id_bytes ids)))))"
proof -
  obtain d where d: "port2slice L rep r s = Inr (k, s\<lparr>cslice_db := d\<rparr>)" "view d = cluster_table cidx"
    using port2slice_table[OF assms(1-5)] by blast
  have inj: "ids = ids'" if "concat (map id_bytes ids) = concat (map id_bytes ids')"
    "set ids \<subseteq> {..<length segs}" "set ids' \<subseteq> {..<length segs}" for ids ids'
    using that assms(3) by (rule concat_id_bytes_inject)
  have mem: "set (members key cidx) \<subseteq> {..<length segs}" for key using assms(5) by (auto simp: members_mem)
  have uniq: "\<exists>!key. \<exists>ids. view d key = Some (concat (map id_bytes ids)) \<and> i \<in> set ids \<and> set ids \<subseteq> {..<length segs}"
    if i: "i < length segs" for i
  proof (rule ex1I[of _ "slice_key (cidx ! i)"])
    have "i \<in> set (members (slice_key (cidx ! i)) cidx)" using i assms(5) by (simp add: members_mem)
    then show "\<exists>ids. view d (slice_key (cidx ! i)) = Some (concat (map id_bytes ids)) \<and> i \<in> set ids \<and> set ids \<subseteq> {..<length segs}"
      using d(2) mem by (intro exI[of _ "members (slice_key (cidx ! i)) cidx"]) (auto simp: cluster_table_def)
  next
    fix key assume "\<exists>ids. view d key = Some (concat (map id_bytes ids)) \<and> i \<in> set ids \<and> set ids \<subseteq> {..<length segs}"
    then obtain ids where "cluster_table cidx key = Some (concat (map id_bytes ids))" "i \<in> set ids" "set ids \<subseteq> {..<length segs}"
      using d(2) by auto
    then have "i \<in> set (members key cidx)"
      using inj[OF _ _ mem[of key], of ids] by (auto simp: cluster_table_def split: if_splits)
    then show "key = slice_key (cidx ! i)" by (simp add: members_mem)
  qed
  have "members (slice_key c) cidx = filter (\<lambda>i. cidx ! i = c) [0..<length segs]" if "0 \<le> c" "c < int k" for c
    unfolding members_def assms(5)
  proof (rule filter_cong[OF refl])
    fix i assume "i \<in> set [0..<length segs]"
    then have "cidx ! i \<in> set cidx" using assms(5) by simp
    then show "(slice_key (cidx ! i) = slice_key c) = (cidx ! i = c)"
      using that assms(6,7) by (intro slice_key_inject) auto
  qed
  then show ?thesis using d uniq by (auto simp: cluster_table_def Let_def)
qed

definition demo_cslice_read :: "mem_db cslice" where
  "demo_cslice_read = process_seg_csl (mem_leveldb (\<lambda>_. [])) [demo_chunk] demo_cslice"

lemma demo_cslice_read_stored: "cslice_stored map_of Map.empty [[demo_chunk]] demo_cslice_read"
  using mem.process_seg_csl_stored[OF demo_cslice_stored, of "[demo_chunk]" "\<lambda>_. []"]
  by (simp add: demo_cslice_read_def)

text \<open>What the last line of the program measures: over slices of non-empty segments, the sum of
  the ratios is the number of slices whose segments all have the same minimum fingerprint (the ratio of
  a slice is an integer division, so one or zero), and the support is the number of distinct minimum
  fingerprints of all the segments.\<close>

lemma test_cluster_unanimous:
  assumes "leveldb_laws L view" "view (cseg_db s) = seg_table segs" "view (cslice_db s) = cluster_table cidx"
    "length cidx = length segs" "\<forall>seg \<in> set segs. wf_seg seg" "length segs < 2 ^ 60"
  shows "\<exists>t. test_cluster L rnd s = Inr t \<and>
    ratio_sum t = real (card {key \<in> dom (cluster_table cidx). unanimous segs (members key cidx)}) \<and>
    length (minhash_slice t) = card (min_key ` set segs)"
proof -
  let ?es = "fst (ldb_iter L (cslice_db s))" and ?mins = "\<lambda>e. map (\<lambda>i. min_key (segs ! i)) (members (fst e) cidx)"
  have es: "\<forall>e \<in> set ?es. cluster_table cidx (fst e) = Some (snd e)"
    using leveldb_laws.iter_mem[OF assms(1)] assms(3) by (metis prod.collapse)
  have keys: "fst ` set ?es = dom (cluster_table cidx)" "distinct (map fst ?es)"
    using leveldb_laws.iter_keys[OF assms(1)] leveldb_laws.iter_distinct[OF assms(1)] assms(3) by metis+
  obtain t where t: "test_cluster L rnd s = Inr t"
    "ratio_sum t = real (length (filter (\<lambda>e. unanimous segs (members (fst e) cidx)) ?es))"
    "minhash_slice t = count_map (concat (map ?mins ?es))"
    using leveldb_laws.test_slices[OF assms(1,2,5,6,4) es, of rnd
        "\<lparr>minhash_count = [], minhash_slice = [], tseg = 0, max_count = 0, ratio_sum = 0, tnrand = cnrand s\<rparr>"]
    by (auto simp: test_cluster_def count_map_def)
  have "length (filter (\<lambda>e. unanimous segs (members (fst e) cidx)) ?es) =
      length (filter (\<lambda>key. unanimous segs (members key cidx)) (map fst ?es))"
    by (simp add: filter_map comp_def)
  also have "\<dots> = card {key \<in> dom (cluster_table cidx). unanimous segs (members key cidx)}"
    unfolding keys(1)[symmetric] using distinct_card[OF distinct_filter[OF keys(2)]] by (simp add: set_filter)
  finally have r: "length (filter (\<lambda>e. unanimous segs (members (fst e) cidx)) ?es) =
      card {key \<in> dom (cluster_table cidx). unanimous segs (members key cidx)}" .
  have "set (concat (map ?mins ?es)) = (\<lambda>i. min_key (segs ! i)) ` (\<Union>key \<in> dom (cluster_table cidx). set (members key cidx))"
    unfolding keys(1)[symmetric] by auto
  also have "(\<Union>key \<in> dom (cluster_table cidx). set (members key cidx)) = {..<length segs}"
  proof (intro set_eqI iffI)
    fix i assume "i \<in> {..<length segs}"
    then have "i \<in> set (members (slice_key (cidx ! i)) cidx)" using assms(4) by (simp add: members_mem)
    moreover from this have "slice_key (cidx ! i) \<in> dom (cluster_table cidx)" by (auto simp: cluster_table_def)
    ultimately show "i \<in> (\<Union>key \<in> dom (cluster_table cidx). set (members key cidx))" by blast
  qed (auto simp: members_mem assms(4))
  also have "(\<lambda>i. min_key (segs ! i)) ` {..<length segs} = min_key ` set segs"
    by (auto simp: set_conv_nth image_iff)
  finally show ?thesis using t r by (simp add: length_count_map)
qed

lemma test_cluster_unanimous_witness:
  "\<exists>t. test_cluster (mem_leveldb (\<lambda>_. [])) (\<lambda>_. 0)
      (demo_cslice_read\<lparr>cslice_db := [(slice_key 0, id_bytes 0)]\<rparr>) = Inr t \<and> length (minhash_slice t) = 1"
proof -
  have "cluster_table [0] = map_of [(slice_key 0, id_bytes 0)]"
    by (auto simp: fun_eq_iff cluster_table_def members_def)
  moreover have "wf_seg [demo_chunk]" by (simp add: wf_seg_def demo_chunk_def)
  ultimately show ?thesis
    using test_cluster_unanimous[OF mem.leveldb_laws_axioms, of "demo_cslice_read\<lparr>cslice_db := [(slice_key 0, id_bytes 0)]\<rparr>"
        "[[demo_chunk]]" "[0]" "\<lambda>_. []" "\<lambda>_. 0"] demo_cslice_read_stored
    by (auto simp: cslice_stored_def)
qed

end
