(* ===== verification/Pair.thy ===== *)
theory Pair
  imports CSlice Entropy
begin

text \<open>
  \<open>multistream/src/similarity/pair.cc\<close>: the attack on the slices. Ciphertext and plaintext slices are
  sorted by size and paired by the entropy of their chunk frequencies within a window of ranks; the
  chunks of paired slices are then paired by frequency, and for slices that agree in every figure the
  segments are compared. The frequency analysis may not return, so it is a partial function to an
  option type. The console messages are not modelled; \<open>int\<close> counters are unbounded.
\<close>

section \<open>The program\<close>

record sliceNode =
  skey :: bytes
  ssize :: int
  svalue :: bytes
  sliceEntropy :: real
  sliceChunkCount :: "(bytes \<times> u64) list"
  ssum_size :: u64

definition slice_lt :: "sliceNode \<Rightarrow> sliceNode \<Rightarrow> bool" where
  "slice_lt n1 n2 \<longleftrightarrow> ssize n1 < ssize n2 \<or> (ssize n1 = ssize n2 \<and> skey n1 < skey n2)"

record chunkNode =
  kkey :: bytes
  kcount :: u64

definition chunk_lt :: "chunkNode \<Rightarrow> chunkNode \<Rightarrow> bool" where
  "chunk_lt n1 n2 \<longleftrightarrow> kcount n1 < kcount n2"

record segmentNode =
  gsum_size :: u64
  gID :: bytes
  gsize :: int
  segmentEntropy :: real
  segmentChunkCount :: "(bytes \<times> u64) list"

definition segment_lt :: "segmentNode \<Rightarrow> segmentNode \<Rightarrow> bool" where
  "segment_lt n1 n2 \<longleftrightarrow> gsize n1 < gsize n2"

text \<open>The macros: the entropy that marks a used slice, the two switches.\<close>

definition MAXIMUM_ENTROPY :: real where "MAXIMUM_ENTROPY = 9999999"
definition USE_CHUNK_SIZE :: bool where "USE_CHUNK_SIZE = True"
definition E_ATTACK_pair :: bool where "E_ATTACK_pair = False"
definition MIN_ENTROPY_pair :: bool where "MIN_ENTROPY_pair = False"

record 'db pairing =
  p_seg_db :: 'db
  p_slice_db :: 'db
  c_seg_db :: 'db
  c_slice_db :: 'db
  infer_db :: 'db
  size_db :: 'db
  testdb :: 'db
  relate_db :: 'db
  slice_pairing :: "(sliceNode \<times> sliceNode) list"
  segment_pairing :: "(sliceNode \<times> sliceNode) list"
  n_infer :: u64
  n_correct :: u64
  segmentInferChunk :: nat
  segmentcount :: nat
  infersegment :: nat

definition init_dbs_pair ::
  "'db leveldb \<Rightarrow> string \<Rightarrow> string \<Rightarrow> string \<Rightarrow> string \<Rightarrow> string \<Rightarrow> string \<Rightarrow> 'db pairing \<Rightarrow> cpp_error + 'db pairing" where
  "init_dbs_pair L p_seg_name p_slice_name c_seg_name c_slice_name refer_name chunksize_name s =
     bindE (open_db L p_seg_name) (\<lambda>d1.
     bindE (open_db L p_slice_name) (\<lambda>d2.
     bindE (open_db L c_seg_name) (\<lambda>d3.
     bindE (open_db L c_slice_name) (\<lambda>d4.
     bindE (open_db L refer_name) (\<lambda>d5.
     bindE (open_db L chunksize_name) (\<lambda>d6.
       Inr (s\<lparr>p_seg_db := d1, p_slice_db := d2, c_seg_db := d3, c_slice_db := d4, infer_db := d5, size_db := d6\<rparr>)))))))"

text \<open>\<open>test_ini\<close> asserts the handle of another store, which is open by then.\<close>

definition test_ini :: "'db leveldb \<Rightarrow> string \<Rightarrow> 'db pairing \<Rightarrow> cpp_error + 'db pairing" where
  "test_ini L path s =
     (case ldb_open L path of
        (StOk, db) \<Rightarrow> Inr (case db of None \<Rightarrow> s | Some d \<Rightarrow> s\<lparr>testdb := d\<rparr>)
      | _ \<Rightarrow> Inl AssertFail)"

definition init_relate_pair :: "'db leveldb \<Rightarrow> string \<Rightarrow> 'db pairing \<Rightarrow> cpp_error + 'db pairing" where
  "init_relate_pair L rel s = bindE (open_db L rel) (\<lambda>db. Inr (s\<lparr>relate_db := db\<rparr>))"

definition entropy_pair :: "(bytes \<times> u64) list \<Rightarrow> bool \<Rightarrow> real" where
  "entropy_pair tp flg = counts_entropy flg (map snd tp)"

text \<open>\<open>memcmp\<close> of two fingerprints; in the other mode the plaintext is compared with the recorded
  one, as far as the recorded value goes.\<close>

definition equal_pair :: "'db leveldb \<Rightarrow> 'db pairing \<Rightarrow> bytes \<Rightarrow> bytes \<Rightarrow> cpp_error + bool" where
  "equal_pair L s ptext ctext =
     (if \<not> E_ATTACK_pair then Inr (take FP_SIZE ptext = take FP_SIZE ctext)
      else bindE (read_bytes (snd (ldb_get L (relate_db s) (take FP_SIZE ctext) [])) 0 FP_SIZE) (\<lambda>v.
             Inr (take FP_SIZE ptext = v)))"

text \<open>\<open>operator==\<close> on segments compares the keys of the two maps pairwise, up to the end of the shorter.\<close>

fun segment_eq :: "'db leveldb \<Rightarrow> 'db pairing \<Rightarrow> (bytes \<times> u64) list \<Rightarrow> (bytes \<times> u64) list \<Rightarrow> cpp_error + bool" where
  "segment_eq L s (e1 # m1) (e2 # m2) =
     bindE (equal_pair L s (fst e2) (fst e1)) (\<lambda>b. if \<not> b then Inr False else segment_eq L s m1 m2)"
| "segment_eq L s m1 m2 = Inr True"

subsection \<open>Loading the slices\<close>

text \<open>The results of \<open>count_chunk\<close>: the counts, the sum of the chunk sizes, the number of chunks.\<close>

type_synonym counted = "(bytes \<times> u64) list \<times> u64 \<times> int"

definition count_one :: "'db leveldb \<Rightarrow> 'db \<Rightarrow> bytes \<Rightarrow> counted \<Rightarrow> cpp_error + counted" where
  "count_one L sizes hash = (\<lambda>(count_result, sum_size, chunks).
     (let (status, exv) = ldb_get L sizes hash []
      in if status \<noteq> StOk then Inl AssertFail
         else bindE (read_u64 exv 0) (\<lambda>uio. Inr (smap_incr hash count_result, sum_size + uio, chunks + 1))))"

definition count_seg :: "'db leveldb \<Rightarrow> 'db \<Rightarrow> 'db \<Rightarrow> bytes \<Rightarrow> counted \<Rightarrow> cpp_error + counted" where
  "count_seg L seg_db sizes seg_key acc =
     (let existing_value = snd (ldb_get L seg_db seg_key [])
      in for_step FP_SIZE (length existing_value) (\<lambda>j acc.
           bindE (read_bytes existing_value j FP_SIZE) (\<lambda>hash. count_one L sizes hash acc)) 0 acc)"

definition count_chunk_pair :: "'db leveldb \<Rightarrow> bytes \<Rightarrow> bool \<Rightarrow> 'db pairing \<Rightarrow> cpp_error + counted" where
  "count_chunk_pair L slice_value flg s =
     (let seg_db = (if flg then p_seg_db s else c_seg_db s)
      in bindE (for_step 8 (block_lim (length slice_value) 8) (\<lambda>i acc.
             bindE (read_bytes slice_value i 8) (\<lambda>seg_key. count_seg L seg_db (size_db s) seg_key acc)) 0 ([], 0, 0))
         (\<lambda>(count_result, sum_size, chunks).
            Inr (count_result, if USE_CHUNK_SIZE then sum_size else word_of_nat (length count_result), chunks)))"

definition slice_node :: "'db leveldb \<Rightarrow> bool \<Rightarrow> 'db pairing \<Rightarrow> bytes \<times> bytes \<Rightarrow> cpp_error + sliceNode" where
  "slice_node L flg s it =
     bindE (count_chunk_pair L (snd it) flg s) (\<lambda>(count_result, sum_size, chunks).
       Inr \<lparr>skey = fst it, ssize = chunks, svalue = snd it, sliceEntropy = entropy_pair count_result MIN_ENTROPY_pair,
            sliceChunkCount = count_result, ssum_size = sum_size\<rparr>)"

definition load_slice :: "'db leveldb \<Rightarrow> bool \<Rightarrow> 'db pairing \<Rightarrow> sliceNode list \<Rightarrow> cpp_error + sliceNode list" where
  "load_slice L flg s que =
     foldE (\<lambda>it que. bindE (slice_node L flg s it) (\<lambda>slice. Inr (pq_push slice_lt slice que)))
       (fst (ldb_iter L (if flg then p_slice_db s else c_slice_db s))) que"

subsection \<open>Pairing the slices\<close>

text \<open>The share of common fingerprints; 0/0 is no number.\<close>

definition test_overlap :: "sliceNode \<Rightarrow> sliceNode \<Rightarrow> real option" where
  "test_overlap tar ori =
     (let overlap = length (filter (\<lambda>e. map_of (sliceChunkCount ori) (fst e) \<noteq> None) (sliceChunkCount tar));
          d = length (sliceChunkCount tar) + length (sliceChunkCount ori) - overlap
      in if d = 0 then None else Some (real overlap / real d))"

text \<open>\<open>for (int i = 0; i < (int)(pair_counter - r) && ...)\<close>: the difference wraps around on 64 bits and is
  cut to a signed 32 bit number.\<close>

definition window_start :: "u64 \<Rightarrow> u64 \<Rightarrow> nat \<Rightarrow> nat" where
  "window_start pair_counter r len = min (nat (sint (ucast (pair_counter - r) :: 32 word))) len"

definition window_range :: "u64 \<Rightarrow> u64 \<Rightarrow> u64" where
  "window_range pair_counter r = (if pair_counter < r then pair_counter + r else 2 * r)"

definition window :: "u64 \<Rightarrow> u64 \<Rightarrow> nat \<Rightarrow> nat list" where
  "window pair_counter r len =
     (let a = window_start pair_counter r len in [a ..< min len (a + unat (window_range pair_counter r))])"

definition closer :: "real \<Rightarrow> sliceNode \<Rightarrow> sliceNode list \<Rightarrow> nat \<Rightarrow> real \<times> nat option \<Rightarrow> real \<times> nat option" where
  "closer t tar ori_vec j best =
     (let diff = \<bar>sliceEntropy (ori_vec ! j) - sliceEntropy tar\<bar>
      in if diff < t \<and> fst best > diff then (diff, Some j) else best)"

definition nearest :: "real \<Rightarrow> sliceNode \<Rightarrow> sliceNode list \<Rightarrow> nat list \<Rightarrow> real \<times> nat option" where
  "nearest t tar ori_vec js = fold (closer t tar ori_vec) js (MAXIMUM_ENTROPY, None)"

text \<open>The figures \<open>pair\<close> prints at the end; \<open>None\<close> is not a number.\<close>

record pair_stats =
  overall_minhash :: "real option"
  overall_chunks :: u64
  overall_pairs :: u64

definition record_pair :: "real \<Rightarrow> sliceNode \<Rightarrow> sliceNode \<Rightarrow> 'db pairing \<Rightarrow> 'db pairing" where
  "record_pair min_diff tar mn s =
     (if min_diff < 1 / 10 ^ 6 \<and> ssize mn = ssize tar \<and> ssum_size tar = ssum_size mn
      then s\<lparr>segment_pairing := smap_insert slice_lt tar mn (segment_pairing s)\<rparr>
      else s\<lparr>slice_pairing := smap_insert slice_lt tar mn (slice_pairing s)\<rparr>)"

definition record_stats :: "sliceNode \<Rightarrow> sliceNode \<Rightarrow> pair_stats \<Rightarrow> pair_stats" where
  "record_stats tar mn st =
     \<lparr>overall_minhash = (case (overall_minhash st, test_overlap tar mn) of (Some a, Some b) \<Rightarrow> Some (a + b) | _ \<Rightarrow> None),
      overall_chunks = overall_chunks st + word_of_nat (length (sliceChunkCount tar)),
      overall_pairs = overall_pairs st + 1\<rparr>"

text \<open>A distance below the threshold without a chosen slice is only possible for a threshold above
  \<open>MAXIMUM_ENTROPY\<close>; the iterator \<open>min_it\<close> is not set then.\<close>

fun pair_loop ::
  "u64 \<Rightarrow> u64 \<Rightarrow> real \<Rightarrow> u64 \<Rightarrow> u64 \<Rightarrow> sliceNode list \<Rightarrow> sliceNode list \<Rightarrow> 'db pairing \<times> pair_stats \<Rightarrow>
   cpp_error + ('db pairing \<times> pair_stats)" where
  "pair_loop u r t min_size pair_counter [] ori_vec st = Inr st"
| "pair_loop u r t min_size pair_counter (tar # tar_vec) ori_vec (s, ps) =
     (if \<not> (pair_counter < min_size \<and> pair_counter < u) then Inr (s, ps)
      else let (min_diff, min_it) = nearest t tar ori_vec (window pair_counter r (length ori_vec))
           in if min_diff < t
              then case min_it of
                     None \<Rightarrow> Inl Uninitialised
                   | Some i \<Rightarrow>
                       pair_loop u r t min_size (pair_counter + 1) tar_vec
                         (ori_vec[i := (ori_vec ! i)\<lparr>sliceEntropy := MAXIMUM_ENTROPY\<rparr>])
                         (record_pair min_diff tar (ori_vec ! i) s, record_stats tar (ori_vec ! i) ps)
              else pair_loop u r t min_size (pair_counter + 1) tar_vec ori_vec (s, ps))"

definition pair_slices ::
  "sliceNode list \<Rightarrow> sliceNode list \<Rightarrow> u64 \<Rightarrow> u64 \<Rightarrow> real \<Rightarrow> 'db pairing \<Rightarrow> cpp_error + ('db pairing \<times> pair_stats)" where
  "pair_slices p_slice c_slice u r t s =
     (let ori_vec = drain slice_lt p_slice;
          tar_vec = drain slice_lt c_slice;
          min_size = word_of_nat (min (length ori_vec) (length tar_vec))
      in pair_loop u r t min_size 0 tar_vec ori_vec
           (s, \<lparr>overall_minhash = Some 0, overall_chunks = 0, overall_pairs = 0\<rparr>))"

subsection \<open>Comparing the segments\<close>

definition segment_node :: "'db leveldb \<Rightarrow> bool \<Rightarrow> 'db pairing \<Rightarrow> bytes \<Rightarrow> cpp_error + segmentNode" where
  "segment_node L flg s tmps =
     bindE (count_chunk_pair L tmps flg s) (\<lambda>(count_result, sum_size, chunks).
       Inr \<lparr>gsum_size = sum_size, gID = tmps, gsize = chunks,
            segmentEntropy = entropy_pair count_result MIN_ENTROPY_pair, segmentChunkCount = count_result\<rparr>)"

definition load_segments :: "'db leveldb \<Rightarrow> bool \<Rightarrow> 'db pairing \<Rightarrow> bytes \<Rightarrow> cpp_error + segmentNode list" where
  "load_segments L flg s v =
     for_step 8 (block_lim (length v) 8) (\<lambda>i que.
       bindE (read_bytes v i 8) (\<lambda>tmps.
       bindE (segment_node L flg s tmps) (\<lambda>n. Inr (pq_push segment_lt n que)))) 0 []"

definition closer_segment ::
  "segmentNode \<Rightarrow> segmentNode list \<Rightarrow> nat \<Rightarrow> real \<times> nat option \<Rightarrow> real \<times> nat option" where
  "closer_segment c pv j best =
     (if gsum_size c \<noteq> gsum_size (pv ! j) then best
      else let tmpdis = \<bar>segmentEntropy c - segmentEntropy (pv ! j)\<bar>
           in if tmpdis < fst best then (tmpdis, Some j) else best)"

text \<open>The chunks of a ciphertext segment that is judged equal to its plaintext segment.\<close>

definition infer_chunk :: "'db leveldb \<Rightarrow> bytes \<times> u64 \<Rightarrow> 'db pairing \<Rightarrow> 'db pairing" where
  "infer_chunk L it s =
     (let cipher = take FP_SIZE (fst it)
      in if fst (ldb_get L (infer_db s) cipher []) \<noteq> StOk
         then s\<lparr>segmentInferChunk := segmentInferChunk s + 1, infer_db := snd (ldb_put L (infer_db s) cipher cipher)\<rparr>
         else s)"

fun match_segments ::
  "'db leveldb \<Rightarrow> real \<Rightarrow> segmentNode list \<Rightarrow> segmentNode list \<Rightarrow> 'db pairing \<Rightarrow> cpp_error + 'db pairing" where
  "match_segments L minP [] pv s = Inr s"
| "match_segments L minP (c # cv) pv s =
     (let (minDis, minpos) = fold (closer_segment c pv) [0..<length pv] (MAXIMUM_ENTROPY, None)
      in if minDis < minP
         then case minpos of
                None \<Rightarrow> Inl OutOfBounds
              | Some j \<Rightarrow>
                  let s = s\<lparr>segmentcount := segmentcount s + 1\<rparr>;
                      pv = pv[j := (pv ! j)\<lparr>segmentEntropy := MAXIMUM_ENTROPY\<rparr>]
                  in bindE (segment_eq L s (segmentChunkCount c) (segmentChunkCount (pv ! j))) (\<lambda>eq.
                       match_segments L minP cv pv
                         (if eq then fold (infer_chunk L) (segmentChunkCount c) (s\<lparr>infersegment := infersegment s + 1\<rparr>)
                          else s))
         else match_segments L minP cv pv s)"

definition segment_pair :: "'db leveldb \<Rightarrow> real \<Rightarrow> 'db pairing \<Rightarrow> cpp_error + 'db pairing" where
  "segment_pair L minP s =
     foldE (\<lambda>(c, p) s.
       bindE (load_segments L False s (svalue c)) (\<lambda>c_segment.
       bindE (load_segments L True s (svalue p)) (\<lambda>p_segment.
         match_segments L minP (drain segment_lt c_segment) (drain segment_lt p_segment) s)))
       (segment_pairing s) s"

subsection \<open>The frequency analysis\<close>

definition enqueue_chunks :: "(bytes \<times> u64) list \<Rightarrow> chunkNode list" where
  "enqueue_chunks m = fold (\<lambda>it. pq_push chunk_lt \<lparr>kkey = take FP_SIZE (fst it), kcount = snd it\<rparr>) m []"

definition chunk_size_of :: "'db leveldb \<Rightarrow> bytes \<Rightarrow> 'db pairing \<Rightarrow> cpp_error + u64" where
  "chunk_size_of L k s =
     (let (status, exv) = ldb_get L (size_db s) k []
      in if status \<noteq> StOk then Inl AssertFail else read_u64 exv 0)"

text \<open>One pass of the loop over the two queues: when the sizes differ, \<open>continue\<close> leaves both queues
  as they are.\<close>

definition freq_step ::
  "'db leveldb \<Rightarrow> chunkNode list \<Rightarrow> chunkNode list \<Rightarrow> 'db pairing \<Rightarrow>
   cpp_error + (chunkNode list \<times> chunkNode list \<times> 'db pairing)" where
  "freq_step L c_chunk p_chunk s =
     (let cipher = kkey (pq_top c_chunk);
          plain = kkey (pq_top p_chunk);
          next = (pq_pop chunk_lt c_chunk, pq_pop chunk_lt p_chunk)
      in if fst (ldb_get L (infer_db s) cipher []) = StOk then Inr (fst next, snd next, s)
         else let s = s\<lparr>n_infer := n_infer s + 1\<rparr>
              in bindE (if USE_CHUNK_SIZE
                        then bindE (chunk_size_of L plain s) (\<lambda>uiop.
                             bindE (chunk_size_of L cipher s) (\<lambda>uioc. Inr (uioc \<noteq> uiop)))
                        else Inr False) (\<lambda>differ.
                   if differ then Inr (c_chunk, p_chunk, s)
                   else let s = s\<lparr>infer_db := snd (ldb_put L (infer_db s) cipher plain)\<rparr>
                        in bindE (equal_pair L s plain cipher) (\<lambda>eq.
                             Inr (fst next, snd next, if eq then s\<lparr>n_correct := n_correct s + 1\<rparr> else s))))"

text \<open>The loop; the value \<open>None\<close> is a loop that does not end.\<close>

partial_function (option) freq_loop ::
  "'db leveldb \<Rightarrow> chunkNode list \<Rightarrow> chunkNode list \<Rightarrow> 'db pairing \<Rightarrow> (cpp_error + 'db pairing) option" where
  "freq_loop L c_chunk p_chunk s =
     (if c_chunk = [] \<or> p_chunk = [] then Some (Inr s)
      else case freq_step L c_chunk p_chunk s of
             Inl e \<Rightarrow> Some (Inl e)
           | Inr (c, p, s) \<Rightarrow> freq_loop L c p s)"

fun freq_pairs ::
  "'db leveldb \<Rightarrow> (sliceNode \<times> sliceNode) list \<Rightarrow> 'db pairing \<Rightarrow> (cpp_error + 'db pairing) option" where
  "freq_pairs L [] s = Some (Inr s)"
| "freq_pairs L ((c, p) # ps) s =
     (case freq_loop L (enqueue_chunks (sliceChunkCount c)) (enqueue_chunks (sliceChunkCount p)) s of
        None \<Rightarrow> None
      | Some (Inl e) \<Rightarrow> Some (Inl e)
      | Some (Inr s) \<Rightarrow> freq_pairs L ps s)"

definition freq_analysis :: "'db leveldb \<Rightarrow> 'db pairing \<Rightarrow> (cpp_error + 'db pairing) option" where
  "freq_analysis L s = freq_pairs L (slice_pairing s) s"

definition main_pair :: "'db leveldb \<Rightarrow> 'db pairing \<Rightarrow> (cpp_error + ('db pairing \<times> pair_stats)) option" where
  "main_pair L s =
     (case bindE (init_dbs_pair L ''output/plain/seg'' ''output/plain/slice'' ''output/cipher/seg''
                    ''output/cipher/slice'' ''output/referdb'' ''output/chunksize'' s) (\<lambda>s.
           bindE (load_slice L True s []) (\<lambda>p_slice.
           bindE (load_slice L False s []) (\<lambda>c_slice.
             pair_slices p_slice c_slice 4000 536 (1 / 5) s))) of
        Inl e \<Rightarrow> Some (Inl e)
      | Inr (s, st) \<Rightarrow>
          (case freq_analysis L s of
             None \<Rightarrow> None
           | Some r \<Rightarrow> Some (bindE r (\<lambda>s. bindE (segment_pair L (1 / 10) s) (\<lambda>s. Inr (s, st))))))"

section \<open>Counting the chunks of a slice\<close>

lemma foldE_concat: "foldE (\<lambda>xs. foldE f xs) xss s = foldE f (concat xss) s"
proof (induction xss arbitrary: s)
  case (Cons xs xss)
  have "foldE (\<lambda>xs. foldE f xs) xss = foldE f (concat xss)" using Cons.IH by (simp add: fun_eq_iff)
  then show ?case by (simp add: foldE_append)
qed simp

definition seg_fps :: "chunk list list \<Rightarrow> nat list \<Rightarrow> bytes list" where
  "seg_fps segs ids = concat (map (\<lambda>i. map ckey (segs ! i)) ids)"

context leveldb_laws
begin

lemma count_one_fold:
  "\<forall>h \<in> set hs. view sizes h = Some (u64_bytes (sz h)) \<Longrightarrow>
   foldE (count_one L sizes) hs (m, a, n) = Inr (fold smap_incr hs m, a + sum_list (map sz hs), n + int (length hs))"
proof (induction hs arbitrary: m a n)
  case (Cons h hs)
  have "count_one L sizes h (m, a, n) = Inr (smap_incr h m, a + sz h, n + 1)"
    using Cons.prems by (simp add: count_one_def get_cases)
  then show ?case using Cons by (simp add: add.assoc)
qed simp

lemma count_seg_stored:
  assumes "view db k = Some (seg_value seg)" "\<forall>c \<in> set seg. length (ckey c) = FP_SIZE"
  shows "count_seg L db sizes k acc = foldE (count_one L sizes) (map ckey seg) acc"
proof -
  have "for_step FP_SIZE (length (concat (map ckey seg))) (\<lambda>j acc.
      bindE (read_bytes (concat (map ckey seg)) j FP_SIZE) (\<lambda>hash. count_one L sizes hash acc)) 0 acc =
    foldE (count_one L sizes) (map ckey seg) acc"
    using assms(2) by (intro for_step_size) auto
  then show ?thesis using assms(1) by (simp add: count_seg_def get_cases seg_value_def)
qed

lemma count_chunk_fps:
  assumes db: "view (if flg then p_seg_db s else c_seg_db s) = seg_table segs" and len: "length segs \<le> 2 ^ 64"
    and keys: "\<forall>seg \<in> set segs. \<forall>c \<in> set seg. length (ckey c) = FP_SIZE"
    and ids: "ids \<noteq> []" "set ids \<subseteq> {..<length segs}" "8 * length ids < 2 ^ 63"
    and sz: "\<forall>fp \<in> set (seg_fps segs ids). view (size_db s) fp = Some (u64_bytes (sz fp))"
  shows "count_chunk_pair L (concat (map id_bytes ids)) flg s =
    Inr (count_map (seg_fps segs ids), sum_list (map sz (seg_fps segs ids)), int (length (seg_fps segs ids)))"
proof -
  let ?db = "if flg then p_seg_db s else c_seg_db s"
  have "for_step 8 (block_lim (length (concat (map id_bytes ids))) 8) (\<lambda>i acc.
      bindE (read_bytes (concat (map id_bytes ids)) i 8) (\<lambda>seg_key. count_seg L ?db (size_db s) seg_key acc)) 0 ([], 0, 0) =
    foldE (count_seg L ?db (size_db s)) (map id_bytes ids) ([], 0, 0)"
    using ids(1,3) by (intro for_step_blocks) (auto simp: id_bytes_def)
  also have "\<dots> = foldE (\<lambda>i. count_seg L ?db (size_db s) (id_bytes i)) ids ([], 0, 0)" by (rule foldE_map)
  also have "\<dots> = foldE (\<lambda>i. foldE (count_one L (size_db s)) (map ckey (segs ! i))) ids ([], 0, 0)"
  proof (rule foldE_cong_set)
    fix i acc assume "i \<in> set ids"
    then have "i < length segs" using ids(2) by auto
    then show "count_seg L ?db (size_db s) (id_bytes i) acc = foldE (count_one L (size_db s)) (map ckey (segs ! i)) acc"
      using keys seg_table_lookup[OF len] db by (intro count_seg_stored) auto
  qed
  also have "\<dots> = foldE (count_one L (size_db s)) (seg_fps segs ids) ([], 0, 0)"
    using foldE_map[of "\<lambda>xs. foldE (count_one L (size_db s)) xs" "\<lambda>i. map ckey (segs ! i)" ids "([], 0, 0)"]
    by (simp add: seg_fps_def foldE_concat)
  also have "\<dots> = Inr (count_map (seg_fps segs ids), sum_list (map sz (seg_fps segs ids)), int (length (seg_fps segs ids)))"
    using count_one_fold[OF sz, of "[]" 0 0] by (simp add: count_map_def)
  finally show ?thesis by (simp add: count_chunk_pair_def USE_CHUNK_SIZE_def)
qed

end

section \<open>The overlap\<close>

lemma test_overlap_count_map:
  assumes "sliceChunkCount tar = count_map xs" "sliceChunkCount ori = count_map ys"
  shows "test_overlap tar ori = (if set xs \<union> set ys = {} then None else Some (jaccard (set xs) (set ys)))"
proof -
  let ?P = "\<lambda>fp. map_of (count_map ys) fp \<noteq> None"
  have "length (filter (\<lambda>e. ?P (fst e)) (count_map xs)) = length (filter ?P (map fst (count_map xs)))"
    by (simp add: filter_map comp_def)
  also have "\<dots> = card (set (filter ?P (map fst (count_map xs))))"
    by (rule distinct_card[symmetric]) (rule distinct_filter[OF count_map_distinct])
  also have "set (filter ?P (map fst (count_map xs))) = set xs \<inter> set ys"
    unfolding set_filter count_map_keys by (auto simp: count_map_lookup)
  finally have o: "length (filter (\<lambda>e. ?P (fst e)) (count_map xs)) = card (set xs \<inter> set ys)" .
  have "card (set xs) + card (set ys) - card (set xs \<inter> set ys) = card (set xs \<union> set ys)"
    using card_Un_Int[of "set xs" "set ys"] by simp
  then show ?thesis
    unfolding test_overlap_def assms o Let_def length_count_map by (simp add: jaccard_def)
qed

section \<open>The choice of a slice\<close>

definition ediff :: "sliceNode \<Rightarrow> sliceNode \<Rightarrow> real" where
  "ediff tar ori = \<bar>sliceEntropy ori - sliceEntropy tar\<bar>"

lemma nearest_cases:
  assumes "t \<le> MAXIMUM_ENTROPY"
  shows "case nearest t tar ov js of
      (d, None) \<Rightarrow> d = MAXIMUM_ENTROPY \<and> (\<forall>j \<in> set js. t \<le> ediff tar (ov ! j))
    | (d, Some i) \<Rightarrow> i \<in> set js \<and> d = ediff tar (ov ! i) \<and> d < t \<and> (\<forall>j \<in> set js. d \<le> ediff tar (ov ! j))"
proof (induction js rule: rev_induct)
  case (snoc j js)
  obtain d b where n: "nearest t tar ov js = (d, b)" by fastforce
  then have "nearest t tar ov (js @ [j]) = closer t tar ov j (d, b)" by (simp add: nearest_def)
  then show ?case
    using snoc.IH n assms by (cases b) (auto simp: closer_def Let_def ediff_def)
qed (simp add: nearest_def)

text \<open>The state of the loop when the plaintext slices \<open>used\<close> are marked.\<close>

definition marked :: "sliceNode list \<Rightarrow> nat set \<Rightarrow> sliceNode list \<Rightarrow> bool" where
  "marked ori used ov \<longleftrightarrow> length ov = length ori \<and>
     (\<forall>i < length ori. ov ! i = (if i \<in> used then (ori ! i)\<lparr>sliceEntropy := MAXIMUM_ENTROPY\<rparr> else ori ! i))"

text \<open>A run of the loop from rank \<open>k\<close> on makes the pairs \<open>ps\<close> of ranks: each pairs the next ciphertext slice
  with the nearest plaintext slice of its window that is not used yet.\<close>

fun good_pairs :: "real \<Rightarrow> u64 \<Rightarrow> sliceNode list \<Rightarrow> sliceNode list \<Rightarrow> nat \<Rightarrow> nat set \<Rightarrow> (nat \<times> nat) list \<Rightarrow> bool" where
  "good_pairs t r tars ori k used [] = True"
| "good_pairs t r tars ori k used ((c, i) # ps) \<longleftrightarrow>
     k \<le> c \<and> c < length tars \<and> i \<in> set (window (word_of_nat c) r (length ori)) \<and> i \<notin> used \<and>
     ediff (tars ! c) (ori ! i) < t \<and>
     (\<forall>j \<in> set (window (word_of_nat c) r (length ori)). j \<in> used \<or> ediff (tars ! c) (ori ! i) \<le> ediff (tars ! c) (ori ! j)) \<and>
     good_pairs t r tars ori (Suc c) (insert i used) ps"

definition record_ranks :: "sliceNode list \<Rightarrow> sliceNode list \<Rightarrow> nat \<times> nat \<Rightarrow> 'db pairing \<Rightarrow> 'db pairing" where
  "record_ranks tars ori = (\<lambda>(c, i). record_pair (ediff (tars ! c) (ori ! i)) (tars ! c) (ori ! i))"

lemma good_pairs_mono: "good_pairs t r tars ori (Suc k) used ps \<Longrightarrow> good_pairs t r tars ori k used ps"
  by (cases ps) auto

lemma window_less: "i \<in> set (window c r n) \<Longrightarrow> i < n"
  by (auto simp: window_def Let_def)

lemma marked_insert:
  "marked ori used ov \<Longrightarrow> i < length ori \<Longrightarrow> i \<notin> used \<Longrightarrow>
   marked ori (insert i used) (ov[i := (ov ! i)\<lparr>sliceEntropy := MAXIMUM_ENTROPY\<rparr>])"
  by (auto simp: marked_def nth_list_update)

lemma nearest_marked:
  assumes "marked ori used ov" "sliceEntropy tar + t \<le> MAXIMUM_ENTROPY" "t \<le> MAXIMUM_ENTROPY" "set js \<subseteq> {..<length ori}"
  shows "(case nearest t tar ov js of (d, None) \<Rightarrow> t \<le> d
    | (d, Some i) \<Rightarrow> i \<in> set js \<and> i \<notin> used \<and> ov ! i = ori ! i \<and> d = ediff tar (ori ! i) \<and> d < t \<and>
        (\<forall>j \<in> set js. j \<in> used \<or> d \<le> ediff tar (ori ! j)))"
proof -
  have far: "t \<le> ediff tar (ov ! i)" if "i \<in> used" "i \<in> set js" for i
    using that assms(1,2,4) by (auto simp: marked_def ediff_def subset_iff)
  have same: "ov ! i = ori ! i" if "i \<notin> used" "i \<in> set js" for i
    using that assms(1,4) by (auto simp: marked_def)
  obtain d b where n: "nearest t tar ov js = (d, b)" by fastforce
  show ?thesis
  proof (cases b)
    case None
    then show ?thesis using nearest_cases[OF assms(3), where tar = tar and ov = ov and js = js] n assms(3) by simp
  next
    case (Some i)
    then have i: "i \<in> set js" "d = ediff tar (ov ! i)" "d < t" "\<forall>j \<in> set js. d \<le> ediff tar (ov ! j)"
      using nearest_cases[OF assms(3), where tar = tar and ov = ov and js = js] n by auto
    then have "i \<notin> used" using far by force
    moreover have "j \<in> used \<or> d \<le> ediff tar (ori ! j)" if "j \<in> set js" for j
      using i(4) same that by metis
    ultimately show ?thesis using i n Some same by auto
  qed
qed

lemma pair_loop_pairs:
  assumes "marked ori used ov" "t \<le> MAXIMUM_ENTROPY" "\<forall>tar \<in> set tars. sliceEntropy tar + t \<le> MAXIMUM_ENTROPY"
    "rest = drop k tars" "k \<le> length tars"
  shows "\<exists>ps st'. pair_loop u r t ms (word_of_nat k) rest ov (s, st) = Inr (fold (record_ranks tars ori) ps s, st') \<and>
    good_pairs t r tars ori k used ps \<and> overall_pairs st' = overall_pairs st + word_of_nat (length ps)"
  using assms(1,4,5)
proof (induction rest arbitrary: k used ov s st)
  case Nil
  then show ?case by (intro exI[of _ "[]"] exI[of _ st]) simp
next
  case (Cons tar rest)
  have k: "k < length tars" "tar = tars ! k" "rest = drop (Suc k) tars"
    using Cons.prems(2,3) by (metis Cons_nth_drop_Suc drop_eq_Nil le_neq_implies_less list.discI list.inject order_refl)+
  have far: "sliceEntropy tar + t \<le> MAXIMUM_ENTROPY" using assms(3) k by simp
  let ?js = "window (word_of_nat k) r (length ov)"
  have len: "length ov = length ori" using Cons.prems(1) by (simp add: marked_def)
  have sub: "set ?js \<subseteq> {..<length ori}" using window_less len by auto
  obtain d b where n: "nearest t tar ov ?js = (d, b)" by fastforce
  note near = nearest_marked[OF Cons.prems(1) far assms(2) sub, unfolded n]
  consider "\<not> (word_of_nat k < ms \<and> word_of_nat k < u)" | "word_of_nat k < ms \<and> word_of_nat k < u" "b = None"
    | i where "word_of_nat k < ms \<and> word_of_nat k < u" "b = Some i" by (cases b) auto
  then show ?case
  proof cases
    case 1
    then show ?thesis by (intro exI[of _ "[]"] exI[of _ st]) simp
  next
    case 2
    obtain ps st' where "pair_loop u r t ms (word_of_nat (Suc k)) rest ov (s, st) = Inr (fold (record_ranks tars ori) ps s, st')"
      "good_pairs t r tars ori (Suc k) used ps" "overall_pairs st' = overall_pairs st + word_of_nat (length ps)"
      using Cons.IH[OF Cons.prems(1) k(3)] k(1) by (metis Suc_leI)
    moreover have "\<not> d < t" using near 2 by simp
    ultimately show ?thesis
      using 2 n good_pairs_mono by (intro exI[of _ ps] exI[of _ st']) (simp add: add.commute)
  next
    case (3 i)
    then have i: "i \<in> set ?js" "i \<notin> used" "ov ! i = ori ! i" "d = ediff tar (ori ! i)" "d < t"
      "\<forall>j \<in> set ?js. j \<in> used \<or> d \<le> ediff tar (ori ! j)" using near by auto
    have m: "marked ori (insert i used) (ov[i := (ori ! i)\<lparr>sliceEntropy := MAXIMUM_ENTROPY\<rparr>])"
      using marked_insert[OF Cons.prems(1) _ i(2)] i(1,3) sub by auto
    obtain ps st' where "pair_loop u r t ms (word_of_nat (Suc k)) rest (ov[i := (ori ! i)\<lparr>sliceEntropy := MAXIMUM_ENTROPY\<rparr>])
        (record_pair d tar (ori ! i) s, record_stats tar (ori ! i) st) =
        Inr (fold (record_ranks tars ori) ps (record_pair d tar (ori ! i) s), st')"
      "good_pairs t r tars ori (Suc k) (insert i used) ps"
      "overall_pairs st' = overall_pairs (record_stats tar (ori ! i) st) + word_of_nat (length ps)"
      using Cons.IH[OF m k(3), of "record_pair d tar (ori ! i) s" "record_stats tar (ori ! i) st"] k(1) by (metis Suc_leI)
    then show ?thesis
      using 3 n i k len
      by (intro exI[of _ "(k, i) # ps"] exI[of _ st']) (simp add: record_ranks_def record_stats_def add.commute)
  qed
qed

section \<open>The frequency analysis\<close>

text \<open>The sizes of all the chunks in the two queues are recorded.\<close>

definition sizes_known :: "('db \<Rightarrow> bytes \<rightharpoonup> bytes) \<Rightarrow> (bytes \<Rightarrow> u64) \<Rightarrow> chunkNode list \<Rightarrow> 'db pairing \<Rightarrow> bool" where
  "sizes_known view sz ns s \<longleftrightarrow> (\<forall>n \<in> set ns. view (size_db s) (kkey n) = Some (u64_bytes (sz (kkey n))))"

text \<open>The pairs that are new, and the state after they are recorded.\<close>

definition fresh_pairs :: "(bytes \<rightharpoonup> bytes) \<Rightarrow> (chunkNode \<times> chunkNode) list \<Rightarrow> (bytes \<times> bytes) list" where
  "fresh_pairs m cps = map (\<lambda>(c, p). (kkey c, kkey p)) (filter (\<lambda>(c, p). m (kkey c) = None) cps)"

definition freq_result :: "('db \<Rightarrow> bytes \<rightharpoonup> bytes) \<Rightarrow> (bytes \<times> bytes) list \<Rightarrow> 'db pairing \<Rightarrow> 'db pairing \<Rightarrow> bool" where
  "freq_result view new s s' \<longleftrightarrow> (\<exists>d. s' = s\<lparr>infer_db := d, n_infer := n_infer s + word_of_nat (length new),
     n_correct := n_correct s + word_of_nat (length (filter (\<lambda>(c, p). take FP_SIZE p = take FP_SIZE c) new))\<rparr> \<and>
     view d = view (infer_db s) ++ map_of new)"

lemma freq_result_refl: "freq_result view [] s s"
proof -
  have "s = s\<lparr>infer_db := infer_db s, n_infer := n_infer s, n_correct := n_correct s\<rparr>" by simp
  then show ?thesis unfolding freq_result_def by (intro exI[of _ "infer_db s"]) simp
qed

lemma freq_result_step:
  assumes "freq_result view new s1 s'" "view (infer_db s) c = None" "c \<notin> fst ` set new"
    "s1 = s\<lparr>infer_db := d, n_infer := n_infer s + 1,
      n_correct := n_correct s + (if take FP_SIZE p = take FP_SIZE c then 1 else 0)\<rparr>" "view d = (view (infer_db s))(c \<mapsto> p)"
  shows "freq_result view ((c, p) # new) s s'"
proof -
  obtain d' where d': "s' = s1\<lparr>infer_db := d', n_infer := n_infer s1 + word_of_nat (length new),
     n_correct := n_correct s1 + word_of_nat (length (filter (\<lambda>(c, p). take FP_SIZE p = take FP_SIZE c) new))\<rparr>"
    "view d' = view (infer_db s1) ++ map_of new"
    using assms(1) by (auto simp: freq_result_def)
  have "view d' = view (infer_db s) ++ map_of ((c, p) # new)"
    using d'(2) assms(3-5) by (auto simp: fun_eq_iff map_add_def map_of_eq_None_iff split: option.splits)
  then show ?thesis
    unfolding freq_result_def using d'(1) assms(4) by (intro exI[of _ d']) (simp add: add.assoc)
qed

text \<open>What the loop needs to return: no mismatch among the chunks that are not inferred yet.\<close>

definition sizes_agree :: "(bytes \<Rightarrow> u64) \<Rightarrow> (bytes \<rightharpoonup> bytes) \<Rightarrow> (chunkNode \<times> chunkNode) list \<Rightarrow> bool" where
  "sizes_agree sz m cps \<longleftrightarrow> (\<forall>(c, p) \<in> set cps. m (kkey c) \<noteq> None \<or> sz (kkey c) = sz (kkey p))"

lemma fresh_pairs_upd: "k \<notin> kkey ` fst ` set cps \<Longrightarrow> fresh_pairs (m(k := v)) cps = fresh_pairs m cps"
proof -
  assume k: "k \<notin> kkey ` fst ` set cps"
  have "filter (\<lambda>(c, p). (m(k := v)) (kkey c) = None) cps = filter (\<lambda>(c, p). m (kkey c) = None) cps"
  proof (rule filter_cong[OF refl])
    fix e assume "e \<in> set cps"
    then have "kkey (fst e) \<noteq> k" using k by auto
    then show "(case e of (c, p) \<Rightarrow> (m(k := v)) (kkey c) = None) = (case e of (c, p) \<Rightarrow> m (kkey c) = None)"
      by (simp add: case_prod_beta)
  qed
  then show ?thesis by (simp add: fresh_pairs_def)
qed

lemma sizes_agree_upd: "k \<notin> kkey ` fst ` set cps \<Longrightarrow> sizes_agree sz (m(k := v)) cps \<longleftrightarrow> sizes_agree sz m cps"
proof -
  assume k: "k \<notin> kkey ` fst ` set cps"
  show ?thesis
    unfolding sizes_agree_def
  proof (rule ball_cong[OF refl])
    fix e assume "e \<in> set cps"
    then have "kkey (fst e) \<noteq> k" using k by auto
    then show "(case e of (c, p) \<Rightarrow> (m(k := v)) (kkey c) \<noteq> None \<or> sz (kkey c) = sz (kkey p)) =
      (case e of (c, p) \<Rightarrow> m (kkey c) \<noteq> None \<or> sz (kkey c) = sz (kkey p))"
      by (simp add: case_prod_beta)
  qed
qed

context leveldb_laws
begin

lemma chunk_size_of_known:
  "view (size_db s) k = Some (u64_bytes w) \<Longrightarrow> chunk_size_of L k s = Inr w"
  by (simp add: chunk_size_of_def get_cases)

lemma freq_step_cases:
  assumes "c \<noteq> []" "p \<noteq> []" "sizes_known view sz (c @ p) s"
  shows "freq_step L c p s =
    (let a = kkey (pq_top c); b = kkey (pq_top p); c' = pq_pop chunk_lt c; p' = pq_pop chunk_lt p
     in if view (infer_db s) a \<noteq> None then Inr (c', p', s)
        else if sz a \<noteq> sz b then Inr (c, p, s\<lparr>n_infer := n_infer s + 1\<rparr>)
        else Inr (c', p', s\<lparr>infer_db := snd (ldb_put L (infer_db s) a b), n_infer := n_infer s + 1,
               n_correct := n_correct s + (if take FP_SIZE b = take FP_SIZE a then 1 else 0)\<rparr>))"
proof -
  have "pq_top c \<in> set c" "pq_top p \<in> set p" using assms(1,2) pq_top_mem by blast+
  then have known: "view (size_db s) (kkey (pq_top c)) = Some (u64_bytes (sz (kkey (pq_top c))))"
    "view (size_db s) (kkey (pq_top p)) = Some (u64_bytes (sz (kkey (pq_top p))))"
    using assms(3) by (auto simp: sizes_known_def)
  show ?thesis
    using known by (auto simp: freq_step_def Let_def get_status USE_CHUNK_SIZE_def chunk_size_of_known
        equal_pair_def E_ATTACK_pair_def domIff)
qed

text \<open>A mismatch at the head of the queues is never left.\<close>

lemma freq_loop_stuck:
  assumes "freq_loop L c p s = Some y" "c \<noteq> []" "p \<noteq> []" "sizes_known view sz (c @ p) s"
    "view (infer_db s) (kkey (pq_top c)) = None" "sz (kkey (pq_top c)) \<noteq> sz (kkey (pq_top p))"
  shows False
proof -
  define P where "P L' c p s y \<longleftrightarrow> \<not> (L' = L \<and> c \<noteq> [] \<and> p \<noteq> [] \<and> sizes_known view sz (c @ p) s \<and>
    view (infer_db s) (kkey (pq_top c)) = None \<and> sz (kkey (pq_top c)) \<noteq> sz (kkey (pq_top p)))"
    for L' c p s and y :: "cpp_error + 'db pairing"
  have "P L c p s y"
  proof (rule freq_loop.raw_induct[where P = P, OF _ assms(1)])
    fix f L' c p s y
    assume IH: "\<And>L' c p s y. f L' c p s = Some y \<Longrightarrow> P L' c p s y"
      and step: "(if c = [] \<or> p = [] then Some (Inr s) else case freq_step L' c p s of
         Inl e \<Rightarrow> Some (Inl e) | Inr (c, p, s) \<Rightarrow> f L' c p s) = Some y"
    show "P L' c p s y"
      unfolding P_def
    proof
      assume stuck: "L' = L \<and> c \<noteq> [] \<and> p \<noteq> [] \<and> sizes_known view sz (c @ p) s \<and>
        view (infer_db s) (kkey (pq_top c)) = None \<and> sz (kkey (pq_top c)) \<noteq> sz (kkey (pq_top p))"
      then have "f L c p (s\<lparr>n_infer := n_infer s + 1\<rparr>) = Some y"
        using step freq_step_cases[of c p sz s] by (simp add: Let_def)
      then show False using IH[of L c p "s\<lparr>n_infer := n_infer s + 1\<rparr>" y] stuck by (simp add: P_def sizes_known_def)
    qed
  qed
  then show ?thesis using assms(2-6) by (simp add: P_def)
qed

lemma freq_loop_cases:
  assumes "distinct (map kkey (drain chunk_lt c))" "sizes_known view sz (c @ p) s"
  shows "if sizes_agree sz (view (infer_db s)) (zip (drain chunk_lt c) (drain chunk_lt p))
    then \<exists>s'. freq_loop L c p s = Some (Inr s') \<and>
      freq_result view (fresh_pairs (view (infer_db s)) (zip (drain chunk_lt c) (drain chunk_lt p))) s s'
    else freq_loop L c p s = None"
  using assms
proof (induction "length c" arbitrary: c p s)
  case 0
  then show ?case
    using freq_result_refl by (simp add: drain_def sizes_agree_def fresh_pairs_def freq_loop.simps[of L "[]"])
next
  case (Suc n)
  then have c: "c \<noteq> []" by auto
  show ?case
  proof (cases "p = []")
    case True
    then show ?thesis
      using freq_result_refl by (simp add: drain_def sizes_agree_def fresh_pairs_def freq_loop.simps[of L c "[]"])
  next
    case p: False
    let ?a = "kkey (pq_top c)" and ?b = "kkey (pq_top p)" and ?c = "pq_pop chunk_lt c" and ?p = "pq_pop chunk_lt p"
    let ?cps = "zip (drain chunk_lt ?c) (drain chunk_lt ?p)"
    have cps: "zip (drain chunk_lt c) (drain chunk_lt p) = (pq_top c, pq_top p) # ?cps"
      using c p by (simp add: drain_Cons)
    have dist: "distinct (map kkey (drain chunk_lt ?c))" "?a \<notin> kkey ` fst ` set ?cps"
      using Suc.prems(1) c by (auto simp: drain_Cons dest: set_zip_leftD)
    have known: "sizes_known view sz (?c @ ?p) s'" if "size_db s' = size_db s" for s'
      using Suc.prems(2) set_pq_pop[OF c] set_pq_pop[OF p] that unfolding sizes_known_def by fastforce
    note step = freq_step_cases[OF c p Suc.prems(2), unfolded Let_def]
    have unroll: "freq_loop L c p s = (case freq_step L c p s of Inl e \<Rightarrow> Some (Inl e) | Inr (c, p, s) \<Rightarrow> freq_loop L c p s)"
      using c p by (subst freq_loop.simps) simp
    have n: "n = length ?c" using Suc.hyps(2) by simp
    consider "view (infer_db s) ?a \<noteq> None" | "view (infer_db s) ?a = None" "sz ?a \<noteq> sz ?b"
      | "view (infer_db s) ?a = None" "sz ?a = sz ?b" by blast
    then show ?thesis
    proof cases
      case 1
      have run: "freq_loop L c p s = freq_loop L ?c ?p s" unfolding unroll step using 1 by simp
      have "sizes_agree sz (view (infer_db s)) ((pq_top c, pq_top p) # ?cps) \<longleftrightarrow> sizes_agree sz (view (infer_db s)) ?cps"
        "fresh_pairs (view (infer_db s)) ((pq_top c, pq_top p) # ?cps) = fresh_pairs (view (infer_db s)) ?cps"
        using 1 by (auto simp: sizes_agree_def fresh_pairs_def)
      then show ?thesis
        using Suc.hyps(1)[OF n dist(1) known[OF refl]] unfolding cps run by simp
    next
      case 2
      then have "freq_loop L c p s = None"
        using freq_loop_stuck[OF _ c p Suc.prems(2)] by (cases "freq_loop L c p s") auto
      then show ?thesis using 2 unfolding cps by (simp add: sizes_agree_def)
    next
      case 3
      let ?s = "s\<lparr>infer_db := snd (ldb_put L (infer_db s) ?a ?b), n_infer := n_infer s + 1,
        n_correct := n_correct s + (if take FP_SIZE ?b = take FP_SIZE ?a then 1 else 0)\<rparr>"
      have v: "view (infer_db ?s) = (view (infer_db s))(?a \<mapsto> ?b)" by (simp add: view_put)
      have run: "freq_loop L c p s = freq_loop L ?c ?p ?s" unfolding unroll step using 3 by simp
      have agree: "sizes_agree sz (view (infer_db s)) ((pq_top c, pq_top p) # ?cps) \<longleftrightarrow> sizes_agree sz (view (infer_db s)) ?cps"
        using 3 by (simp add: sizes_agree_def)
      have fresh: "fresh_pairs (view (infer_db s)) ((pq_top c, pq_top p) # ?cps) = (?a, ?b) # fresh_pairs (view (infer_db s)) ?cps"
        using 3 by (simp add: fresh_pairs_def)
      have new: "?a \<notin> fst ` set (fresh_pairs (view (infer_db s)) ?cps)"
        using dist(2) by (force simp: fresh_pairs_def)
      have IH: "if sizes_agree sz (view (infer_db s)) ?cps
        then \<exists>s'. freq_loop L ?c ?p ?s = Some (Inr s') \<and> freq_result view (fresh_pairs (view (infer_db s)) ?cps) ?s s'
        else freq_loop L ?c ?p ?s = None"
        using Suc.hyps(1)[OF n dist(1) known[of ?s]]
        unfolding v sizes_agree_upd[OF dist(2)] fresh_pairs_upd[OF dist(2)] by simp
      show ?thesis
        unfolding cps run agree fresh using IH freq_result_step[OF _ 3(1) new refl v[simplified]]
        by (auto split: if_splits)
    qed
  qed
qed

end

section \<open>The comparison of segments\<close>

text \<open>What the comparison may change: entries are added to the inferred pairs, never replaced, each maps a
  chunk to itself, and the counter is the number of the new ones.\<close>

definition seg_inferred :: "('db \<Rightarrow> bytes \<rightharpoonup> bytes) \<Rightarrow> 'db pairing \<Rightarrow> 'db pairing \<Rightarrow> bool" where
  "seg_inferred view s s' \<longleftrightarrow> view (infer_db s) \<subseteq>\<^sub>m view (infer_db s') \<and>
     (\<forall>k \<in> dom (view (infer_db s')) - dom (view (infer_db s)). view (infer_db s') k = Some k) \<and>
     segmentInferChunk s' = segmentInferChunk s + card (dom (view (infer_db s')) - dom (view (infer_db s))) \<and>
     infersegment s' + segmentcount s \<le> segmentcount s' + infersegment s"

context leveldb_laws
begin

lemma seg_inferred_refl: "infer_db s' = infer_db s \<Longrightarrow> segmentInferChunk s' = segmentInferChunk s \<Longrightarrow>
  infersegment s' + segmentcount s \<le> segmentcount s' + infersegment s \<Longrightarrow> seg_inferred view s s'"
  by (simp add: seg_inferred_def)

lemma seg_inferred_trans:
  assumes "seg_inferred view s1 s2" "seg_inferred view s2 s3"
  shows "seg_inferred view s1 s3"
proof -
  let ?d = "\<lambda>s. dom (view (infer_db s))"
  have sub: "?d s1 \<subseteq> ?d s2" "?d s2 \<subseteq> ?d s3"
    using assms by (auto simp: seg_inferred_def map_le_implies_dom_le)
  have "?d s3 - ?d s1 = (?d s3 - ?d s2) \<union> (?d s2 - ?d s1)" using sub by blast
  moreover have "card ((?d s3 - ?d s2) \<union> (?d s2 - ?d s1)) = card (?d s3 - ?d s2) + card (?d s2 - ?d s1)"
    using dom_view_finite by (intro card_Un_disjoint) auto
  ultimately have c: "card (?d s3 - ?d s1) = card (?d s3 - ?d s2) + card (?d s2 - ?d s1)" by simp
  have "view (infer_db s3) k = Some k" if "k \<in> ?d s3 - ?d s1" for k
  proof (cases "k \<in> ?d s2")
    case True
    then have "view (infer_db s2) k = Some k" using that assms(1) by (auto simp: seg_inferred_def)
    then show ?thesis using assms(2) True by (auto simp: seg_inferred_def map_le_def)
  next
    case False
    then show ?thesis using that assms(2) by (auto simp: seg_inferred_def)
  qed
  then show ?thesis
    using assms c map_le_trans by (auto simp: seg_inferred_def)
qed

lemma infer_chunk_seg_inferred: "seg_inferred view s (infer_chunk L it s)"
proof (cases "view (infer_db s) (take FP_SIZE (fst it))")
  case None
  let ?k = "take FP_SIZE (fst it)"
  have "insert ?k (dom (view (infer_db s))) - dom (view (infer_db s)) = {?k}" using None by auto
  then show ?thesis
    using None by (auto simp: infer_chunk_def Let_def get_cases seg_inferred_def view_put map_le_def)
next
  case (Some v)
  then show ?thesis by (simp add: infer_chunk_def Let_def get_cases seg_inferred_def)
qed

lemma fold_infer_chunk: "seg_inferred view s (fold (infer_chunk L) its s)"
proof (induction its arbitrary: s)
  case (Cons it its)
  show ?case by (simp, rule seg_inferred_trans[OF infer_chunk_seg_inferred Cons.IH])
qed (simp add: seg_inferred_def)

lemma match_segments_inferred:
  "match_segments L minP cv pv s = Inr s' \<Longrightarrow> seg_inferred view s s'"
proof (induction cv arbitrary: pv s)
  case (Cons c cv)
  obtain d b where best: "fold (closer_segment c pv) [0..<length pv] (MAXIMUM_ENTROPY, None) = (d, b)" by fastforce
  show ?case
  proof (cases "d < minP")
    case True
    let ?s = "s\<lparr>segmentcount := segmentcount s + 1\<rparr>"
    obtain j where j: "b = Some j" using Cons.prems best True by (cases b) auto
    let ?pv = "pv[j := (pv ! j)\<lparr>segmentEntropy := MAXIMUM_ENTROPY\<rparr>]"
    obtain eq where eq: "match_segments L minP cv ?pv (if eq then fold (infer_chunk L) (segmentChunkCount c)
        (?s\<lparr>infersegment := infersegment ?s + 1\<rparr>) else ?s) = Inr s'"
      using Cons.prems unfolding match_segments.simps best Let_def j prod.case option.case if_P[OF True] by auto
    have "seg_inferred view s (if eq then fold (infer_chunk L) (segmentChunkCount c)
        (?s\<lparr>infersegment := infersegment ?s + 1\<rparr>) else ?s)"
      using seg_inferred_trans[OF _ fold_infer_chunk, of s "?s\<lparr>infersegment := infersegment ?s + 1\<rparr>" "segmentChunkCount c"]
      by (simp add: seg_inferred_def)
    then show ?thesis using Cons.IH[OF eq] seg_inferred_trans by blast
  next
    case False
    then show ?thesis using Cons best by simp
  qed
qed (simp add: seg_inferred_def)

lemma segment_pair_inferred:
  assumes "segment_pair L minP s = Inr s'"
  shows "seg_inferred view s s'"
proof (rule foldE_invariant[OF assms[unfolded segment_pair_def], where I = "seg_inferred view s"])
  fix cp s1 s2
  assume "seg_inferred view s s1" and run: "(\<lambda>(c, p) s. bindE (load_segments L False s (svalue c)) (\<lambda>c_segment.
       bindE (load_segments L True s (svalue p)) (\<lambda>p_segment.
         match_segments L minP (drain segment_lt c_segment) (drain segment_lt p_segment) s))) cp s1 = Inr s2"
  moreover have "seg_inferred view s1 s2" using run match_segments_inferred by (cases cp) auto
  ultimately show "seg_inferred view s s2" using seg_inferred_trans by blast
qed (simp add: seg_inferred_def)

end

section \<open>Properties of the slice attack\<close>

text \<open>The figures of a slice are those of the chunks of its segments: \<open>count_chunk\<close> on a slice that
  lists stored segments returns the frequency of every fingerprint, the sum of the recorded sizes, with
  repetition, and the number of chunks.\<close>

lemma count_chunk_counts:
  assumes "leveldb_laws L view" "view (if flg then p_seg_db s else c_seg_db s) = seg_table segs" "length segs \<le> 2 ^ 64"
    "\<forall>seg \<in> set segs. \<forall>c \<in> set seg. length (ckey c) = FP_SIZE" "ids \<noteq> []" "set ids \<subseteq> {..<length segs}" "8 * length ids < 2 ^ 63"
    "\<forall>fp \<in> set (seg_fps segs ids). view (size_db s) fp = Some (u64_bytes (sz fp))"
  shows "\<exists>counts. count_chunk_pair L (concat (map id_bytes ids)) flg s =
      Inr (counts, sum_list (map sz (seg_fps segs ids)), int (length (seg_fps segs ids))) \<and>
    (\<forall>fp. map_of counts fp = (if fp \<in> set (seg_fps segs ids)
       then Some (word_of_nat (count_list (seg_fps segs ids) fp)) else None))"
  using leveldb_laws.count_chunk_fps[OF assms] by (simp add: count_map_lookup)

definition demo_pairing :: "mem_db pairing" where
  "demo_pairing = \<lparr>p_seg_db = [(id_bytes 0, ''abcdef'')], p_slice_db = [], c_seg_db = [(id_bytes 0, ''abcdef'')], c_slice_db = [],
     infer_db = [], size_db = [(''abcdef'', u64_bytes 4096)], testdb = [], relate_db = [], slice_pairing = [], segment_pairing = [],
     n_infer = 0, n_correct = 0, segmentInferChunk = 0, segmentcount = 0, infersegment = 0\<rparr>"

lemma demo_seg_table: "map_of [(id_bytes 0, ''abcdef'')] = seg_table [[demo_chunk]]"
  using seg_table_snoc[of "[]" "[demo_chunk]"] by (simp add: fun_eq_iff seg_value_def demo_chunk_def)

lemma count_chunk_counts_witness:
  "\<exists>counts. count_chunk_pair (mem_leveldb (\<lambda>_. [])) (id_bytes 0) True demo_pairing = Inr (counts, 4096, 1) \<and>
    map_of counts ''abcdef'' = Some 1"
proof -
  have "map_of (if True then p_seg_db demo_pairing else c_seg_db demo_pairing) = seg_table [[demo_chunk]]"
    by (simp only: if_True demo_pairing_def pairing.simps demo_seg_table)
  from count_chunk_counts[OF mem.leveldb_laws_axioms this, of "[0]" "\<lambda>_. 4096" "\<lambda>_. []"] show ?thesis
    by (auto simp: demo_pairing_def seg_fps_def demo_chunk_def)
qed

text \<open>The overlap of two slices is the Jaccard index of their fingerprint sets, between zero and one,
  and no number exactly when both are empty.\<close>

lemma test_overlap_jaccard:
  assumes "sliceChunkCount tar = count_map xs" "sliceChunkCount ori = count_map ys"
  shows "test_overlap tar ori = (if xs = [] \<and> ys = [] then None else Some (jaccard (set xs) (set ys))) \<and>
    0 \<le> jaccard (set xs) (set ys) \<and> jaccard (set xs) (set ys) \<le> 1"
  using test_overlap_count_map[OF assms] jaccard_bounds[of "set xs" "set ys"] by simp

definition demo_slice :: "bytes \<Rightarrow> sliceNode" where
  "demo_slice k = \<lparr>skey = k, ssize = 1, svalue = id_bytes 0, sliceEntropy = 0, sliceChunkCount = count_map [''abcdef''], ssum_size = 4096\<rparr>"

lemma test_overlap_jaccard_witness: "test_overlap (demo_slice ''c'') (demo_slice ''p'') = Some 1"
proof -
  have c: "sliceChunkCount (demo_slice k) = count_map [''abcdef'']" for k by (simp add: demo_slice_def)
  show ?thesis using test_overlap_jaccard[OF c c, of "''c''" "''p''"] by (simp add: jaccard_def)
qed

lemma good_pairs_facts:
  "good_pairs t r tars ori k used ps \<Longrightarrow>
   (\<forall>e \<in> set ps. k \<le> fst e \<and> snd e \<notin> used) \<and> sorted_wrt (<) (map fst ps) \<and> distinct (map snd ps) \<and>
   (\<forall>(c, i) \<in> set ps. c < length tars \<and> i \<in> set (window (word_of_nat c) r (length ori)) \<and> ediff (tars ! c) (ori ! i) < t) \<and>
   (\<forall>n < length ps. \<forall>j \<in> set (window (word_of_nat (fst (ps ! n))) r (length ori)).
      j \<in> used \<union> snd ` set (take n ps) \<or>
      ediff (tars ! fst (ps ! n)) (ori ! snd (ps ! n)) \<le> ediff (tars ! fst (ps ! n)) (ori ! j))"
proof (induction ps arbitrary: k used)
  case (Cons e ps)
  obtain c i where e: "e = (c, i)" by (cases e)
  have IH: "\<forall>e \<in> set ps. Suc c \<le> fst e \<and> snd e \<notin> insert i used" "sorted_wrt (<) (map fst ps)" "distinct (map snd ps)"
    "\<forall>(c, i) \<in> set ps. c < length tars \<and> i \<in> set (window (word_of_nat c) r (length ori)) \<and> ediff (tars ! c) (ori ! i) < t"
    "\<forall>n < length ps. \<forall>j \<in> set (window (word_of_nat (fst (ps ! n))) r (length ori)).
      j \<in> insert i used \<union> snd ` set (take n ps) \<or>
      ediff (tars ! fst (ps ! n)) (ori ! snd (ps ! n)) \<le> ediff (tars ! fst (ps ! n)) (ori ! j)"
    using Cons.IH[of "Suc c" "insert i used"] Cons.prems by (simp_all add: e)
  have "j \<in> used \<union> snd ` set (take n (e # ps)) \<or>
      ediff (tars ! fst ((e # ps) ! n)) (ori ! snd ((e # ps) ! n)) \<le> ediff (tars ! fst ((e # ps) ! n)) (ori ! j)"
    if "n < length (e # ps)" "j \<in> set (window (word_of_nat (fst ((e # ps) ! n))) r (length ori))" for n j
    using that Cons.prems IH(5) by (cases n) (auto simp: e)
  moreover have "\<forall>e \<in> set ps. c < fst e \<and> k \<le> fst e" using IH(1) Cons.prems by (fastforce simp: e)
  ultimately show ?case using Cons.prems IH(1-4) by (auto simp: e)
qed simp

lemma pair_slices_pairs:
  assumes "t \<le> MAXIMUM_ENTROPY" "\<forall>tar \<in> set tars. sliceEntropy tar + t \<le> MAXIMUM_ENTROPY"
    "tars = drain slice_lt c_slice" "ori = drain slice_lt p_slice"
  shows "\<exists>ps st. pair_slices p_slice c_slice u r t s = Inr (fold (record_ranks tars ori) ps s, st) \<and>
    good_pairs t r tars ori 0 {} ps \<and> overall_pairs st = word_of_nat (length ps)"
proof -
  have m: "marked ori {} ori" by (simp add: marked_def)
  let ?st = "\<lparr>overall_minhash = Some 0, overall_chunks = 0, overall_pairs = 0\<rparr>"
  show ?thesis
    using pair_loop_pairs[OF m assms(1,2), of tars 0 u r "word_of_nat (min (length ori) (length tars))" s ?st] assms(3,4)
    by (auto simp: pair_slices_def Let_def)
qed



text \<open>C27. The frequency analysis of a pair of slices returns when, rank by rank, every ciphertext chunk is
  already inferred or has the size of its plaintext chunk. It then has added exactly the new pairs to
  the inferred ones, and the two counters have grown by their number and by the number of right ones.\<close>

theorem freq_loop_returns:
  assumes "leveldb_laws L view" "distinct (map kkey c)" "sizes_known view sz (c @ p) s"
    "\<forall>(a, b) \<in> set (zip (drain chunk_lt c) (drain chunk_lt p)). view (infer_db s) (kkey a) \<noteq> None \<or> sz (kkey a) = sz (kkey b)"
  shows "\<exists>s'. freq_loop L c p s = Some (Inr s') \<and>
    freq_result view (fresh_pairs (view (infer_db s)) (zip (drain chunk_lt c) (drain chunk_lt p))) s s'"
proof -
  have "mset (map kkey (drain chunk_lt c)) = mset (map kkey c)" by simp
  then have "distinct (map kkey (drain chunk_lt c))" using assms(2) by (metis mset_eq_imp_distinct_iff)
  from leveldb_laws.freq_loop_cases[OF assms(1) this assms(3)] show ?thesis
    using assms(4) by (simp add: sizes_agree_def)
qed

definition demo_sizes :: "bytes \<Rightarrow> u64" where
  "demo_sizes k = (if k = ''abcdef'' then 4096 else 512)"

theorem freq_loop_returns_witness:
  "\<exists>s'. freq_loop (mem_leveldb (\<lambda>_. [])) [\<lparr>kkey = ''abcdef'', kcount = 2\<rparr>] [\<lparr>kkey = ''abcdef'', kcount = 7\<rparr>] demo_pairing = Some (Inr s') \<and>
    n_correct s' = 1"
  using freq_loop_returns[OF mem.leveldb_laws_axioms, of "[\<lparr>kkey = ''abcdef'', kcount = 2\<rparr>]" demo_sizes
      "[\<lparr>kkey = ''abcdef'', kcount = 7\<rparr>]" demo_pairing "\<lambda>_. []"]
  by (auto simp: sizes_known_def demo_pairing_def demo_sizes_def drain_def pq_top_def freq_result_def fresh_pairs_def)

text \<open>C28. It does not return as soon as some rank pairs a ciphertext chunk that is not inferred yet with a
  plaintext chunk of another size: the loop continues without removing the two.\<close>

theorem freq_loop_diverges:
  assumes "leveldb_laws L view" "distinct (map kkey c)" "sizes_known view sz (c @ p) s"
    "(a, b) \<in> set (zip (drain chunk_lt c) (drain chunk_lt p))" "view (infer_db s) (kkey a) = None" "sz (kkey a) \<noteq> sz (kkey b)"
  shows "freq_loop L c p s = None"
proof -
  have "mset (map kkey (drain chunk_lt c)) = mset (map kkey c)" by simp
  then have "distinct (map kkey (drain chunk_lt c))" using assms(2) by (metis mset_eq_imp_distinct_iff)
  moreover have "\<not> sizes_agree sz (view (infer_db s)) (zip (drain chunk_lt c) (drain chunk_lt p))"
    unfolding sizes_agree_def using assms(5,6) by (intro notI) (drule bspec[OF _ assms(4)], simp)
  ultimately show ?thesis using leveldb_laws.freq_loop_cases[OF assms(1) _ assms(3)] by simp
qed

theorem freq_loop_diverges_witness:
  "freq_loop (mem_leveldb (\<lambda>_. [])) [\<lparr>kkey = ''abcdef'', kcount = 2\<rparr>] [\<lparr>kkey = ''ghijkl'', kcount = 7\<rparr>]
     (demo_pairing\<lparr>size_db := [(''abcdef'', u64_bytes 4096), (''ghijkl'', u64_bytes 512)]\<rparr>) = None"
  by (rule freq_loop_diverges[OF mem.leveldb_laws_axioms, where sz = demo_sizes and
        a = "\<lparr>kkey = ''abcdef'', kcount = 2\<rparr>" and b = "\<lparr>kkey = ''ghijkl'', kcount = 7\<rparr>"])
    (simp_all add: sizes_known_def demo_pairing_def demo_sizes_def drain_def pq_top_def)


definition demo_matched :: "mem_db pairing" where
  "demo_matched = demo_pairing\<lparr>segment_pairing := [(demo_slice ''c'', demo_slice ''p'')]\<rparr>"

lemma demo_load_segments:
  "load_segments (mem_leveldb (\<lambda>_. [])) flg demo_matched (id_bytes 0) = Inr [\<lparr>gsum_size = 4096, gID = id_bytes 0, gsize = 1,
     segmentEntropy = entropy_pair (count_map [''abcdef'']) MIN_ENTROPY_pair, segmentChunkCount = count_map [''abcdef'']\<rparr>]"
proof -
  have "map_of (if flg then p_seg_db demo_matched else c_seg_db demo_matched) = seg_table [[demo_chunk]]"
    by (simp add: demo_matched_def demo_pairing_def flip: demo_seg_table)
  from mem.count_chunk_fps[OF this, of "[0]" "\<lambda>_. 4096" "\<lambda>_. []"]
  have "count_chunk_pair (mem_leveldb (\<lambda>_. [])) (id_bytes 0) flg demo_matched = Inr (count_map [''abcdef''], 4096, 1)"
    by (simp add: demo_matched_def demo_pairing_def seg_fps_def demo_chunk_def)
  then show ?thesis
    using for_step_blocks[of "[id_bytes 0]" 8 "\<lambda>tmps que. bindE (segment_node (mem_leveldb (\<lambda>_. [])) flg demo_matched tmps)
      (\<lambda>n. Inr (pq_push segment_lt n que))" "[]"]
    by (simp add: load_segments_def segment_node_def id_bytes_def)
qed


end
