(* ===== verification/ClusterMerge.thy ===== *)
theory ClusterMerge
  imports Clusterizer
begin

text \<open>
  The first half of the clusterizer meets its specification: from a symmetric matrix of distances the loop
  of merges produces a run of complete linkage. The invariant says that the rows in use stand for the
  clusters that are present, that the matrix holds their distances, and that the list of nearest neighbours
  is right.
\<close>

section \<open>Arrays and loops\<close>

lemma foldE_upt:
  assumes "I a s" "a \<le> b" "\<And>k s. a \<le> k \<Longrightarrow> k < b \<Longrightarrow> I k s \<Longrightarrow> \<exists>s'. f k s = Inr s' \<and> I (Suc k) s'"
  shows "\<exists>s'. foldE f [a..<b] s = Inr s' \<and> I b s'"
proof -
  have "\<exists>s'. foldE f [a..<a + d] s = Inr s' \<and> I (a + d) s'" if "a + d \<le> b" for d
    using that
  proof (induction d)
    case (Suc d)
    then obtain s1 where "foldE f [a..<a + d] s = Inr s1" "I (a + d) s1" by auto
    moreover from this(2) assms(3)[of "a + d" s1] Suc.prems obtain s2 where "f (a + d) s1 = Inr s2" "I (Suc (a + d)) s2" by auto
    ultimately show ?case by (auto simp: foldE_append)
  qed (use assms(1) in simp)
  from this[of "b - a"] assms(2) show ?thesis by simp
qed

text \<open>A loop that counts down.\<close>

lemma foldE_down:
  assumes "I b s" "a \<le> b" "\<And>k s. a \<le> k \<Longrightarrow> k < b \<Longrightarrow> I (Suc k) s \<Longrightarrow> \<exists>s'. f k s = Inr s' \<and> I k s'"
  shows "\<exists>s'. foldE f (rev [a..<b]) s = Inr s' \<and> I a s'"
  using assms
proof (induction "b - a" arbitrary: b s)
  case (Suc d)
  then obtain c where b: "b = Suc c" "a \<le> c" by (cases b) auto
  obtain s1 where s1: "f c s = Inr s1" "I c s1" using Suc.prems(3)[of c s] Suc.prems(1) b by auto
  have "\<exists>s'. foldE f (rev [a..<c]) s1 = Inr s' \<and> I a s'"
    using Suc.prems(3) b Suc.hyps(2) by (intro Suc.hyps(1)[OF _ s1(2) b(2)]) auto
  then show ?case using b s1(1) by simp
qed auto

lemma mapE_upt_map: "\<forall>i < n. f i = Inr (h i) \<Longrightarrow> mapE f [0..<n] = Inr (map h [0..<n])"
  using mapE_all[of "[0..<n]" f id h] by simp

lemma mapE_upt:
  assumes "\<forall>i < n. \<exists>y. f i = Inr y \<and> P i y"
  shows "\<exists>ys. mapE f [0..<n] = Inr ys \<and> length ys = n \<and> (\<forall>i < n. P i (ys ! i))"
proof -
  obtain h where h: "\<And>i. i < n \<Longrightarrow> f i = Inr (h i) \<and> P i (h i)" using assms by metis
  then have "mapE f [0..<n] = Inr (map h [0..<n])" by (simp add: mapE_upt_map)
  then show ?thesis using h by simp
qed

lemma vec_at_nat [simp]: "i < length xs \<Longrightarrow> vec_at xs (int i) = Inr (xs ! i)"
  by (simp add: vec_at_def)

lemma vec_put_nat [simp]: "i < length xs \<Longrightarrow> vec_put (int i) v xs = Inr (xs[i := v])"
  by (simp add: vec_put_def)

definition square :: "nat \<Rightarrow> 'a list list \<Rightarrow> bool" where
  "square n m \<longleftrightarrow> length m = n \<and> (\<forall>i < n. length (m ! i) = n)"

lemma mat_at_nat [simp]: "square n m \<Longrightarrow> i < n \<Longrightarrow> j < n \<Longrightarrow> mat_at m (int i) (int j) = Inr (m ! i ! j)"
  by (simp add: square_def mat_at_def)

lemma mat_put_nat:
  assumes "square n m" "i < n" "j < n"
  shows "\<exists>m'. mat_put (int i) (int j) v m = Inr m' \<and> square n m' \<and> (\<forall>x y. x < n \<longrightarrow> y < n \<longrightarrow> m' ! x ! y = (if x = i \<and> y = j then v else m ! x ! y))"
  using assms by (intro exI[of _ "m[i := (m ! i)[j := v]]"]) (auto simp: mat_put_def square_def nth_list_update)

lemma if_twice: "(if P then v else if Q then v else w) = (if Q \<or> P then v else w)"
  by simp

text \<open>Writing a pair of symmetric cells.\<close>

lemma mat_put_pair:
  assumes "square n m" "i < n" "j < n"
  shows "\<exists>m'. bindE (mat_put (int i) (int j) v m) (mat_put (int j) (int i) v) = Inr m' \<and> square n m' \<and>
    (\<forall>x y. x < n \<longrightarrow> y < n \<longrightarrow> m' ! x ! y = (if (x, y) \<in> {(i, j), (j, i)} then v else m ! x ! y))"
proof -
  obtain m1 where m1: "mat_put (int i) (int j) v m = Inr m1" "square n m1"
    "\<forall>x y. x < n \<longrightarrow> y < n \<longrightarrow> m1 ! x ! y = (if x = i \<and> y = j then v else m ! x ! y)"
    using mat_put_nat[OF assms] by blast
  obtain m2 where m2: "mat_put (int j) (int i) v m1 = Inr m2" "square n m2"
    "\<forall>x y. x < n \<longrightarrow> y < n \<longrightarrow> m2 ! x ! y = (if x = j \<and> y = i then v else m1 ! x ! y)"
    using mat_put_nat[OF m1(2) assms(3,2)] by blast
  have "m2 ! x ! y = (if (x, y) \<in> {(i, j), (j, i)} then v else m ! x ! y)" if "x < n" "y < n" for x y
  proof -
    have "(x, y) \<in> {(i, j), (j, i)} \<longleftrightarrow> (x = i \<and> y = j) \<or> (x = j \<and> y = i)" by blast
    then show ?thesis unfolding m2(3)[rule_format, OF that] m1(3)[rule_format, OF that] by (simp only: if_twice)
  qed
  then have "\<forall>x y. x < n \<longrightarrow> y < n \<longrightarrow> m2 ! x ! y = (if (x, y) \<in> {(i, j), (j, i)} then v else m ! x ! y)" by blast
  moreover have "bindE (mat_put (int i) (int j) v m) (mat_put (int j) (int i) v) = Inr m2" unfolding m1(1) by (simp add: m2(1))
  ultimately show ?thesis using m2(2) by (intro exI[of _ m2] conjI)
qed

section \<open>The matrix of distances\<close>

definition holds_dist :: "nat \<Rightarrow> (nat \<Rightarrow> nat \<Rightarrow> real) \<Rightarrow> matrix \<Rightarrow> bool" where
  "holds_dist n D m \<longleftrightarrow> square n m \<and> (\<forall>i < n. \<forall>j < n. m ! i ! j = D i j)"

definition distances :: "nat \<Rightarrow> (nat \<Rightarrow> nat \<Rightarrow> real) \<Rightarrow> bool" where
  "distances n D \<longleftrightarrow> dissimilarity n D \<and> (\<forall>i < n. D i i = 0) \<and> (\<forall>i < n. \<forall>j < n. 0 \<le> D i j \<and> D i j < ae_maxrealnumber)"

lemma setcontent_square:
  assumes "length mat = n * n" "\<forall>i < n. \<forall>j < n. mat ! (i * n + j) = Val (D i j)"
  shows "\<exists>c. setcontent n n mat = Inr c \<and> square n c \<and> (\<forall>i < n. \<forall>j < n. c ! i ! j = Val (D i j))"
proof -
  have cell: "bindE (vec_at mat (int (i * n + j))) read_cell = Inr (Val (D i j))" if "i < n" "j < n" for i j
  proof -
    have "i * n + j < n * n" using that mult_le_mono1[of "Suc i" n n] by simp
    then show ?thesis using assms that by (simp add: read_cell_def del: of_nat_add of_nat_mult)
  qed
  then have "mapE (\<lambda>j. bindE (vec_at mat (int (i * n + j))) read_cell) [0..<n] = Inr (map (\<lambda>j. Val (D i j)) [0..<n])" if "i < n" for i
    using that by (intro mapE_upt_map) auto
  then have "setcontent n n mat = Inr (map (\<lambda>i. map (\<lambda>j. Val (D i j)) [0..<n]) [0..<n])"
    unfolding setcontent_def by (intro mapE_upt_map) auto
  then show ?thesis by (auto simp: square_def)
qed

lemma copy_row_upper:
  assumes "distances n D" "i < n" "square n m" "square n c" "\<forall>j < n. i < j \<longrightarrow> c ! i ! j = Val (D i j)"
    "\<forall>x < n. \<forall>y < n. m ! x ! y = (if min x y < i then D x y else 0)"
  shows "\<exists>m'. copy_row c n True i m = Inr m' \<and> square n m' \<and> (\<forall>x < n. \<forall>y < n. m' ! x ! y = (if min x y < Suc i then D x y else 0))"
proof -
  let ?I = "\<lambda>k m'. square n m' \<and> (\<forall>x < n. \<forall>y < n. m' ! x ! y = (if min x y < i \<or> min x y = i \<and> x \<noteq> y \<and> max x y < k then D x y else 0))"
  let ?f = "\<lambda>j m. bindE (mat_at c (int i) (int j)) (\<lambda>c. bindE (check_dist c) (\<lambda>v. bindE (mat_put (int i) (int j) v m) (mat_put (int j) (int i) v)))"
  have "\<exists>m'. foldE ?f [i + 1..<n] m = Inr m' \<and> ?I n m'"
  proof (rule foldE_upt[where I = ?I])
    show "?I (i + 1) m" using assms(3,6) by auto
    show "i + 1 \<le> n" using assms(2) by simp
    fix j m1 assume j: "i + 1 \<le> j" "j < n" "?I j m1"
    obtain m2 where m2: "bindE (mat_put (int i) (int j) (D i j) m1) (mat_put (int j) (int i) (D i j)) = Inr m2" "square n m2"
      "\<forall>x y. x < n \<longrightarrow> y < n \<longrightarrow> m2 ! x ! y = (if (x, y) \<in> {(i, j), (j, i)} then D i j else m1 ! x ! y)"
      using mat_put_pair[of n m1 i j "D i j"] j assms(2) by auto
    have A: "?f j m1 = Inr m2"
      using m2(1) assms j by (simp add: check_dist_def ae_assert_def distances_def)
    have B: "?I (Suc j) m2"
    proof (intro conjI allI impI)
      fix x y assume xy: "x < n" "y < n"
      have "D i j = D j i" using assms(1,2) j by (auto simp: distances_def dissimilarity_def)
      then show "m2 ! x ! y = (if min x y < i \<or> min x y = i \<and> x \<noteq> y \<and> max x y < Suc j then D x y else 0)"
        using m2(3) j xy by (auto simp: min_def max_def)
    qed (rule m2(2))
    show "\<exists>s'. ?f j m1 = Inr s' \<and> ?I (Suc j) s'" by (rule exI[of _ m2], rule conjI[OF A B])
  qed
  then obtain m1 where m1: "foldE ?f [i + 1..<n] m = Inr m1" "?I n m1" by blast
  obtain m2 where m2: "mat_put (int i) (int i) 0 m1 = Inr m2" "square n m2"
    "\<forall>x y. x < n \<longrightarrow> y < n \<longrightarrow> m2 ! x ! y = (if x = i \<and> y = i then 0 else m1 ! x ! y)"
    using mat_put_nat[of n m1 i i 0] m1(2) assms(2) by blast
  have "m2 ! x ! y = (if min x y < Suc i then D x y else 0)" if "x < n" "y < n" for x y
    using m2(3) m1(2) that assms(1,2) by (auto simp: distances_def less_Suc_eq min_def max_def)
  then show ?thesis using m1(1) m2(1,2) unfolding copy_row_def by auto
qed

lemma clusterizersetdistances_upper:
  assumes "distances n D" "square n c" "\<forall>i < n. \<forall>j < n. i < j \<longrightarrow> c ! i ! j = Val (D i j)"
  shows "\<exists>m. clusterizersetdistances c n n True s = Inr (s\<lparr>cl_npoints := n, cl_nfeatures := 0, cl_disttype := -1, cl_d := m\<rparr>) \<and> holds_dist n D m"
proof -
  let ?I = "\<lambda>k m. square n m \<and> (\<forall>x < n. \<forall>y < n. m ! x ! y = (if min x y < k then D x y else 0))"
  have "\<exists>m. foldE (copy_row c n True) [0..<n] (replicate n (replicate n 0)) = Inr m \<and> ?I n m"
  proof (rule foldE_upt[where I = ?I])
    show "?I 0 (replicate n (replicate n 0))" by (simp add: square_def)
    fix k m assume "k < n" "?I k m"
    then show "\<exists>m'. copy_row c n True k m = Inr m' \<and> ?I (Suc k) m'" using assms by (intro copy_row_upper) auto
  qed simp
  then obtain m where "foldE (copy_row c n True) [0..<n] (replicate n (replicate n 0)) = Inr m" "?I n m" by blast
  moreover from this(2) have "holds_dist n D m" by (auto simp: holds_dist_def min_less_iff_disj)
  ultimately show ?thesis by (intro exI[of _ m]) (simp add: clusterizersetdistances_def)
qed

text \<open>A distance that is negative or not a number is refused.\<close>

definition good_cell :: "cell \<Rightarrow> bool" where
  "good_cell c \<longleftrightarrow> (\<exists>v \<ge> 0. c = Val v)"

lemma check_dist_cases: "c \<noteq> Junk \<Longrightarrow> check_dist c = (if good_cell c then Inr (case c of Val v \<Rightarrow> v) else Inl ApError)"
  by (cases c) (auto simp: check_dist_def good_cell_def ae_assert_def)

lemma foldE_fails:
  assumes "\<And>x s. x \<in> set xs \<Longrightarrow> I s \<Longrightarrow> if ok x then \<exists>s'. f x s = Inr s' \<and> I s' else f x s = Inl e" "I s"
  shows "if \<forall>x \<in> set xs. ok x then \<exists>s'. foldE f xs s = Inr s' \<and> I s' else foldE f xs s = Inl e"
  using assms
proof (induction xs arbitrary: s)
  case (Cons x xs)
  show ?case
  proof (cases "ok x")
    case True
    then obtain s1 where "f x s = Inr s1" "I s1" using Cons.prems(1)[of x s] Cons.prems(2) by auto
    then show ?thesis using Cons.IH[of s1] Cons.prems(1) True by simp
  next
    case False
    then have "f x s = Inl e" using Cons.prems(1)[of x s] Cons.prems(2) by auto
    then show ?thesis using False by simp
  qed
qed simp

lemma copy_row_checked:
  assumes "square n m" "square n c" "i < n" "\<forall>j < n. i < j \<longrightarrow> c ! i ! j \<noteq> Junk"
  shows "if \<forall>j < n. i < j \<longrightarrow> good_cell (c ! i ! j) then \<exists>m'. copy_row c n True i m = Inr m' \<and> square n m' else copy_row c n True i m = Inl ApError"
proof -
  let ?f = "\<lambda>j m. bindE (mat_at c (int i) (int j)) (\<lambda>c. bindE (check_dist c) (\<lambda>v. bindE (mat_put (int i) (int j) v m) (mat_put (int j) (int i) v)))"
  have step: "if good_cell (c ! i ! j) then \<exists>m'. ?f j m = Inr m' \<and> square n m' else ?f j m = Inl ApError"
    if "j \<in> set [i + 1..<n]" "square n m" for j m
    using mat_put_pair[OF that(2) assms(3), of j "case c ! i ! j of Val v \<Rightarrow> v"] check_dist_cases[of "c ! i ! j"] that(1) assms by auto
  have fold: "if \<forall>j \<in> set [i + 1..<n]. good_cell (c ! i ! j) then \<exists>m'. foldE ?f [i + 1..<n] m = Inr m' \<and> square n m' else foldE ?f [i + 1..<n] m = Inl ApError"
    by (rule foldE_fails[where I = "square n", OF step assms(1)])
  have eq: "(\<forall>j \<in> set [i + 1..<n]. good_cell (c ! i ! j)) = (\<forall>j < n. i < j \<longrightarrow> good_cell (c ! i ! j))" by auto
  show ?thesis
  proof (cases "\<forall>j < n. i < j \<longrightarrow> good_cell (c ! i ! j)")
    case True
    then obtain m1 where "foldE ?f [i + 1..<n] m = Inr m1" "square n m1" using fold unfolding eq by auto
    then show ?thesis using True mat_put_nat[OF _ assms(3,3), of m1 0] unfolding copy_row_def by auto
  next
    case False
    then have "foldE ?f [i + 1..<n] m = Inl ApError" using fold unfolding eq by (simp only: if_False)
    then show ?thesis using False unfolding copy_row_def by (simp only: if_True if_False bindE_simps)
  qed
qed

lemma clusterizersetdistances_checked:
  assumes "square n c" "\<forall>i < n. \<forall>j < n. i < j \<longrightarrow> c ! i ! j \<noteq> Junk"
  shows "if \<forall>i < n. \<forall>j < n. i < j \<longrightarrow> good_cell (c ! i ! j) then \<exists>s'. clusterizersetdistances c n n True s = Inr s'
    else clusterizersetdistances c n n True s = Inl ApError"
proof -
  let ?ok = "\<lambda>i. \<forall>j < n. i < j \<longrightarrow> good_cell (c ! i ! j)"
  have step: "if ?ok i then \<exists>m'. copy_row c n True i m = Inr m' \<and> square n m' else copy_row c n True i m = Inl ApError"
    if "i \<in> set [0..<n]" "square n m" for i m using copy_row_checked[OF that(2) assms(1)] that(1) assms(2) by simp
  have sq: "square n (replicate n (replicate n (0 :: real)))" by (simp add: square_def)
  have fold: "if \<forall>i \<in> set [0..<n]. ?ok i then \<exists>m'. foldE (copy_row c n True) [0..<n] (replicate n (replicate n 0)) = Inr m' \<and> square n m'
      else foldE (copy_row c n True) [0..<n] (replicate n (replicate n 0)) = Inl ApError"
    by (rule foldE_fails[where I = "square n", OF step sq])
  have eq: "(\<forall>i \<in> set [0..<n]. ?ok i) = (\<forall>i < n. ?ok i)" by auto
  show ?thesis using fold unfolding eq clusterizersetdistances_def by (cases "\<forall>i < n. ?ok i") (auto split: if_splits)
qed

section \<open>Nearest neighbours\<close>

definition nearest_of :: "nat \<Rightarrow> matrix \<Rightarrow> (nat \<Rightarrow> bool) \<Rightarrow> nat \<Rightarrow> int \<Rightarrow> bool" where
  "nearest_of n d live i k \<longleftrightarrow> (\<exists>j < n. k = int j \<and> live j \<and> j \<noteq> i \<and> (\<forall>j' < n. live j' \<and> j' \<noteq> i \<longrightarrow> d ! i ! j \<le> d ! i ! j'))"

lemma nn_scan_nearest:
  assumes "square n d" "i < n" "\<forall>j < n. d ! i ! j < ae_maxrealnumber"
  shows "\<exists>k v. nn_scan n d live (int i) = Inr (k, v) \<and>
    ((\<exists>j < n. live j \<and> j \<noteq> i) \<longrightarrow> nearest_of n d live i k \<and> v < ae_maxrealnumber)"
proof -
  let ?f = "\<lambda>j (k, v). if live j \<and> int j \<noteq> int i then bindE (mat_at d (int i) (int j)) (\<lambda>x. Inr (if x < v then (int j, x) else (k, v))) else Inr (k, v)"
  let ?I = "\<lambda>m (k, v). (\<forall>j < m. live j \<and> j \<noteq> i \<longrightarrow> v \<le> d ! i ! j) \<and>
    (v = ae_maxrealnumber \<or> (\<exists>j < m. k = int j \<and> live j \<and> j \<noteq> i \<and> v = d ! i ! j))"
  have "\<exists>s'. foldE ?f [0..<n] (-1, ae_maxrealnumber) = Inr s' \<and> ?I n s'"
  proof (rule foldE_upt[where I = ?I])
    fix m and s :: "int \<times> real" assume m: "m < n" "?I m s"
    obtain k v where s: "s = (k, v)" by (cases s)
    show "\<exists>s'. ?f m s = Inr s' \<and> ?I (Suc m) s'"
    proof (cases "live m \<and> m \<noteq> i \<and> d ! i ! m < v")
      case True
      then show ?thesis
        using m assms(1,2) by (intro exI[of _ "(int m, d ! i ! m)"]) (auto simp: s less_Suc_eq)
    next
      case False
      then show ?thesis
        using m assms(1,2) by (intro exI[of _ "(k, v)"]) (auto simp: s less_Suc_eq)
    qed
  qed auto
  then obtain k v where kv: "nn_scan n d live (int i) = Inr (k, v)" "?I n (k, v)" unfolding nn_scan_def by auto
  have "nearest_of n d live i k \<and> v < ae_maxrealnumber" if "\<exists>j < n. live j \<and> j \<noteq> i"
  proof -
    have "v \<noteq> ae_maxrealnumber" using that kv(2) assms(3) by (auto simp: not_le[symmetric])
    then show ?thesis using kv(2) assms(3) by (auto simp: nearest_of_def)
  qed
  then show ?thesis using kv(1) by blast
qed

section \<open>The invariant of the merges\<close>

definition in_use :: "merging \<Rightarrow> nat \<Rightarrow> bool" where
  "in_use s i \<longleftrightarrow> mg_cidx s ! i \<ge> 0"

definition label :: "merging \<Rightarrow> nat \<Rightarrow> nat" where
  "label s i = nat (mg_cidx s ! i)"

definition merge_inv :: "(nat \<Rightarrow> nat \<Rightarrow> real) \<Rightarrow> nat \<Rightarrow> merges \<Rightarrow> merging \<Rightarrow> bool" where
  "merge_inv D n zs s \<longleftrightarrow>
     square n (mg_d s) \<and> length (mg_cidx s) = n \<and> length (mg_csizes s) = n \<and> length (mg_nnidx s) = n \<and>
     mg_z s = map (map_prod int int) zs \<and> complete_linkage D n zs (mg_dist s) \<and>
     (\<forall>i < n. \<forall>j < n. mg_d s ! i ! j < ae_maxrealnumber) \<and>
     bij_betw (label s) {i. i < n \<and> in_use s i} (tops n zs (length zs)) \<and>
     (\<forall>i < n. \<forall>j < n. in_use s i \<and> in_use s j \<and> i \<noteq> j \<longrightarrow> mg_d s ! i ! j = link D (clusters n zs ! label s i) (clusters n zs ! label s j)) \<and>
     (Suc (length zs) < n \<longrightarrow> (\<forall>i < n. in_use s i \<longrightarrow> nearest_of n (mg_d s) (in_use s) i (mg_nnidx s ! i)))"

text \<open>The closest pair of rows in use.\<close>

definition closest :: "nat \<Rightarrow> merging \<Rightarrow> nat \<Rightarrow> nat \<Rightarrow> bool" where
  "closest n s x y \<longleftrightarrow> x < n \<and> y < n \<and> x \<noteq> y \<and> in_use s x \<and> in_use s y \<and>
     (\<forall>i < n. \<forall>j < n. in_use s i \<and> in_use s j \<and> i \<noteq> j \<longrightarrow> mg_d s ! x ! y \<le> mg_d s ! i ! j)"

lemma select_pair_closest:
  assumes "square n (mg_d s)" "length (mg_nnidx s) = n" "\<forall>i < n. \<forall>j < n. mg_d s ! i ! j < ae_maxrealnumber"
    "\<forall>i < n. in_use s i \<longrightarrow> nearest_of n (mg_d s) (in_use s) i (mg_nnidx s ! i)" "\<exists>i < n. in_use s i"
  shows "\<exists>x y. select_pair n s = Inr (int x, int y, mg_d s ! x ! y) \<and> closest n s x y"
proof -
  let ?d = "mg_d s"
  let ?f = "\<lambda>i (c0, c1, d01). if mg_cidx s ! i \<ge> 0
       then bindE (vec_at (mg_nnidx s) (int i)) (\<lambda>nn. bindE (mat_at ?d (int i) nn) (\<lambda>x. Inr (if x < d01 then (int i, nn, x) else (c0, c1, d01))))
       else Inr (c0, c1, d01)"
  let ?I = "\<lambda>k (c0, c1, d01). (\<forall>i < k. \<forall>j < n. in_use s i \<and> in_use s j \<and> i \<noteq> j \<longrightarrow> d01 \<le> ?d ! i ! j) \<and>
     (d01 = ae_maxrealnumber \<or> (\<exists>x < n. \<exists>y < n. c0 = int x \<and> c1 = int y \<and> in_use s x \<and> in_use s y \<and> x \<noteq> y \<and> d01 = ?d ! x ! y))"
  have "\<exists>t. foldE ?f [0..<n] (-1, -1, ae_maxrealnumber) = Inr t \<and> ?I n t"
  proof (rule foldE_upt[where I = ?I])
    fix k and t :: "int \<times> int \<times> real" assume k: "k < n" "?I k t"
    obtain c0 c1 d01 where t: "t = (c0, c1, d01)" by (cases t)
    show "\<exists>t'. ?f k t = Inr t' \<and> ?I (Suc k) t'"
    proof (cases "in_use s k")
      case True
      then obtain y where y: "y < n" "mg_nnidx s ! k = int y" "in_use s y" "y \<noteq> k" "\<forall>j' < n. in_use s j' \<and> j' \<noteq> k \<longrightarrow> ?d ! k ! y \<le> ?d ! k ! j'"
        using assms(4) k(1) by (auto simp: nearest_of_def)
      have A: "?f k t = Inr (if ?d ! k ! y < d01 then (int k, int y, ?d ! k ! y) else (c0, c1, d01))"
        using True y(1,2) k(1) assms(1,2) by (simp add: t in_use_def)
      have B: "?I (Suc k) (if ?d ! k ! y < d01 then (int k, int y, ?d ! k ! y) else (c0, c1, d01))"
      proof (cases "?d ! k ! y < d01")
        case less: True
        have "?d ! k ! y \<le> ?d ! i ! j" if "i < Suc k" "j < n" "in_use s i" "in_use s j" "i \<noteq> j" for i j
        proof (cases "i = k")
          case False
          then have "d01 \<le> ?d ! i ! j" using that k(2) by (simp add: t)
          then show ?thesis using less by simp
        qed (use that y(5) in auto)
        then show ?thesis using less y True k(1) by auto
      next
        case False
        have "d01 \<le> ?d ! i ! j" if "i < Suc k" "j < n" "in_use s i" "in_use s j" "i \<noteq> j" for i j
        proof (cases "i = k")
          case True
          then have "?d ! k ! y \<le> ?d ! i ! j" using that y(5) by auto
          then show ?thesis using False by simp
        qed (use that k(2) in \<open>simp add: t\<close>)
        then show ?thesis using False k(2) by (simp add: t)
      qed
      show ?thesis by (rule exI, rule conjI[OF A B])
    next
      case False
      then show ?thesis using k by (auto simp: t in_use_def less_Suc_eq)
    qed
  qed auto
  then obtain c0 c1 d01 where c: "select_pair n s = Inr (c0, c1, d01)" "?I n (c0, c1, d01)" unfolding select_pair_def by auto
  obtain i j where "i < n" "in_use s i" "j < n" "in_use s j" "j \<noteq> i" using assms(4,5) by (auto simp: nearest_of_def)
  then have "d01 \<noteq> ae_maxrealnumber" using c(2) assms(3) by (auto simp: not_le[symmetric])
  then show ?thesis using c by (auto simp: closest_def)
qed

text \<open>The distances to the new cluster.\<close>

lemma ae_maxreal_max [simp]: "ae_maxreal a b = max a b"
  by (auto simp: ae_maxreal_def)

lemma update_dists:
  assumes "square n d" "length cs = n" "x < n" "y < n" "x \<noteq> y"
  shows "\<exists>d'. foldE (update_dist 0 cs (int x) (int y) v) [0..<n] d = Inr d' \<and> square n d' \<and>
    (\<forall>i < n. \<forall>j < n. d' ! i ! j = (if j = x \<and> i \<notin> {x, y} then max (d ! i ! x) (d ! i ! y)
       else if i = x \<and> j \<notin> {x, y} then max (d ! j ! x) (d ! j ! y) else d ! i ! j))"
proof -
  let ?e = "\<lambda>k i j. if j = x \<and> i \<notin> {x, y} \<and> i < k then max (d ! i ! x) (d ! i ! y)
       else if i = x \<and> j \<notin> {x, y} \<and> j < k then max (d ! j ! x) (d ! j ! y) else d ! i ! j"
  let ?I = "\<lambda>k d'. square n d' \<and> (\<forall>i j. i < n \<longrightarrow> j < n \<longrightarrow> d' ! i ! j = ?e k i j)"
  have "\<exists>d'. foldE (update_dist 0 cs (int x) (int y) v) [0..<n] d = Inr d' \<and> ?I n d'"
  proof (rule foldE_upt[where I = ?I])
    fix k d1 assume k: "k < n" "?I k d1"
    show "\<exists>d2. update_dist 0 cs (int x) (int y) v k d1 = Inr d2 \<and> ?I (Suc k) d2"
    proof (cases "k \<in> {x, y}")
      case True
      then have "update_dist 0 cs (int x) (int y) v k d1 = Inr d1" by (auto simp: update_dist_def)
      moreover have "?e (Suc k) i j = ?e k i j" for i j using True by (auto simp: less_Suc_eq)
      ultimately show ?thesis using k(2) by auto
    next
      case False
      let ?v = "max (d ! k ! x) (d ! k ! y)"
      have sq: "square n d1" using k(2) by blast
      have old: "d1 ! k ! x = d ! k ! x" "d1 ! k ! y = d ! k ! y" using k assms False by auto
      obtain d2 where d2: "bindE (mat_put (int k) (int x) ?v d1) (mat_put (int x) (int k) ?v) = Inr d2" "square n d2"
        "\<forall>i j. i < n \<longrightarrow> j < n \<longrightarrow> d2 ! i ! j = (if (i, j) \<in> {(k, x), (x, k)} then ?v else d1 ! i ! j)"
        using mat_put_pair[OF sq k(1) assms(3), of ?v] by (elim exE conjE) (rule that)
      have "update_dist 0 cs (int x) (int y) v k d1 = Inr d2"
        using False d2(1) k(1) assms sq by (simp add: update_dist_def linkage_def old)
      moreover have "d2 ! i ! j = ?e (Suc k) i j" if "i < n" "j < n" for i j
      proof -
        have "d1 ! i ! j = ?e k i j" by (rule conjunct2[OF k(2), rule_format, OF that])
        moreover have "(if (i, j) \<in> {(k, x), (x, k)} then ?v else ?e k i j) = ?e (Suc k) i j"
          using False by (cases "j = x"; cases "i = x") (auto simp: less_Suc_eq)
        ultimately show ?thesis by (simp only: d2(3)[rule_format, OF that])
      qed
      ultimately show ?thesis using d2(2) by blast
    qed
  qed (use assms(1) in auto)
  then obtain d' where d': "foldE (update_dist 0 cs (int x) (int y) v) [0..<n] d = Inr d'" "?I n d'" by blast
  then show ?thesis by (intro exI[of _ d']) auto
qed

text \<open>The nearest neighbours after a merge: a neighbour that was not merged stays the nearest, as the distances to
  the new cluster only grew; the others are found again.\<close>

lemma nearest_of_kept:
  assumes "nearest_of n d live i k" "k \<notin> {int x, int y}" "i \<notin> {x, y}" "i < n" "x < n" "live x"
    "\<forall>i < n. \<forall>j < n. d' ! i ! j = (if j = x \<and> i \<notin> {x, y} then max (d ! i ! x) (d ! i ! y)
       else if i = x \<and> j \<notin> {x, y} then max (d ! j ! x) (d ! j ! y) else d ! i ! j)"
  shows "nearest_of n d' (\<lambda>j. live j \<and> j \<noteq> y) i k"
proof -
  obtain j where j: "j < n" "k = int j" "live j" "j \<noteq> i" "\<forall>j' < n. live j' \<and> j' \<noteq> i \<longrightarrow> d ! i ! j \<le> d ! i ! j'"
    using assms(1) by (auto simp: nearest_of_def)
  have "d' ! i ! j \<le> d' ! i ! j'" if "j' < n" "live j'" "j' \<noteq> i" for j'
  proof -
    have "d ! i ! j \<le> d ! i ! j'" using j(5) that by simp
    moreover have "d' ! i ! j = d ! i ! j" using assms(2-4,7) j(1,2) by auto
    moreover have "d ! i ! j' \<le> d' ! i ! j'" using assms(3,4,7) that(1) by auto
    ultimately show ?thesis by simp
  qed
  then show ?thesis using j assms(2) by (auto simp: nearest_of_def)
qed

lemma update_nns:
  assumes "square n d" "\<forall>i < n. \<forall>j < n. d ! i ! j < ae_maxrealnumber" "length nn = n" "x < n" "cidx ! x \<ge> 0"
    "\<forall>i < n. cidx ! i \<ge> 0 \<and> i \<noteq> x \<and> nn ! i \<notin> {int x, int y} \<longrightarrow> nearest_of n d (\<lambda>j. cidx ! j \<ge> 0) i (nn ! i)"
  shows "\<exists>nn'. foldE (update_nn n 0 m d cidx (int x) (int y)) [0..<n] nn = Inr nn' \<and> length nn' = n \<and>
    (\<forall>i < n. cidx ! i \<ge> 0 \<and> i \<noteq> x \<longrightarrow> nearest_of n d (\<lambda>j. cidx ! j \<ge> 0) i (nn' ! i))"
proof -
  let ?live = "\<lambda>j. cidx ! j \<ge> 0"
  let ?I = "\<lambda>k nn'. length nn' = n \<and> (\<forall>i < n. k \<le> i \<longrightarrow> nn' ! i = nn ! i) \<and>
    (\<forall>i < k. ?live i \<and> i \<noteq> x \<longrightarrow> nearest_of n d ?live i (nn' ! i))"
  have "\<exists>nn'. foldE (update_nn n 0 m d cidx (int x) (int y)) [0..<n] nn = Inr nn' \<and> ?I n nn'"
  proof (rule foldE_upt[where I = ?I])
    fix k nn1 assume k: "k < n" "?I k nn1"
    show "\<exists>nn2. update_nn n 0 m d cidx (int x) (int y) k nn1 = Inr nn2 \<and> ?I (Suc k) nn2"
    proof (cases "?live k \<and> k \<noteq> x \<and> (nn1 ! k = int x \<or> nn1 ! k = int y)")
      case True
      obtain j v where j: "nn_scan n d ?live (int k) = Inr (j, v)" "nearest_of n d ?live k j" "v < ae_maxrealnumber"
        using nn_scan_nearest[OF assms(1) k(1), of ?live] assms(2,4,5) k(1) True by blast
      have "update_nn n 0 m d cidx (int x) (int y) k nn1 = Inr (nn1[k := j])"
        using True k j(1,3) by (simp add: update_nn_def ae_assert_def)
      moreover have "?I (Suc k) (nn1[k := j])" using k j(2) by (auto simp: nth_list_update less_Suc_eq)
      ultimately show ?thesis by blast
    next
      case False
      then have "update_nn n 0 m d cidx (int x) (int y) k nn1 = Inr nn1" by (auto simp: update_nn_def)
      moreover have "?I (Suc k) nn1" using k False assms(6) by (auto simp: less_Suc_eq)
      ultimately show ?thesis by blast
    qed
  qed (use assms(3) in auto)
  then show ?thesis by blast
qed

section \<open>One merge\<close>

lemma merge_invD:
  assumes "merge_inv D n zs s"
  shows "square n (mg_d s)" "length (mg_cidx s) = n" "length (mg_csizes s) = n" "length (mg_nnidx s) = n"
    "mg_z s = map (map_prod int int) zs" "complete_linkage D n zs (mg_dist s)" "\<forall>i < n. \<forall>j < n. mg_d s ! i ! j < ae_maxrealnumber"
    "bij_betw (label s) {i. i < n \<and> in_use s i} (tops n zs (length zs))"
    "\<And>i j. i < n \<Longrightarrow> j < n \<Longrightarrow> in_use s i \<Longrightarrow> in_use s j \<Longrightarrow> i \<noteq> j \<Longrightarrow> mg_d s ! i ! j = link D (clusters n zs ! label s i) (clusters n zs ! label s j)"
    "Suc (length zs) < n \<Longrightarrow> \<forall>i < n. in_use s i \<longrightarrow> nearest_of n (mg_d s) (in_use s) i (mg_nnidx s ! i)"
  using assms unfolding merge_inv_def by blast+

lemma label_tops:
  assumes "merge_inv D n zs s" "i < n" "in_use s i"
  shows "label s i \<in> tops n zs (length zs)" "label s i < n + length zs"
proof -
  show "label s i \<in> tops n zs (length zs)" using bij_betwE[OF merge_invD(8)[OF assms(1)]] assms(2,3) by blast
  then show "label s i < n + length zs" by (rule tops_less)
qed

text \<open>The closest pair of rows is a closest pair of clusters.\<close>

lemma closest_complete_linkage:
  assumes inv: "merge_inv D n zs s" and cl: "closest n s x y" and "label s x < label s y"
  shows "complete_linkage D n (zs @ [(label s x, label s y)]) (mg_dist s @ [mg_d s ! x ! y])"
proof (rule complete_linkage_snoc)
  note xy = cl[unfolded closest_def]
  show "complete_linkage D n zs (mg_dist s)" by (rule merge_invD(6)[OF inv])
  show "label s x \<in> tops n zs (length zs)" "label s y \<in> tops n zs (length zs)" using label_tops[OF inv] xy by auto
  show "mg_d s ! x ! y = link D (clusters n zs ! label s x) (clusters n zs ! label s y)" using merge_invD(9)[OF inv] xy by auto
  fix l l' assume l: "l \<in> tops n zs (length zs)" "l' \<in> tops n zs (length zs)" "l \<noteq> l'"
  have "label s ` {i. i < n \<and> in_use s i} = tops n zs (length zs)" using merge_invD(8)[OF inv] by (simp add: bij_betw_def)
  then obtain i j where ij: "i < n" "in_use s i" "l = label s i" "j < n" "in_use s j" "l' = label s j" using l by blast
  then have "i \<noteq> j" "mg_d s ! x ! y \<le> mg_d s ! i ! j" using xy l(3) by blast+
  then show "mg_d s ! x ! y \<le> link D (clusters n zs ! l) (clusters n zs ! l')" using merge_invD(9)[OF inv ij(1,4,2,5)] ij by simp
qed fact

text \<open>The rows in use after a merge, and their labels.\<close>

lemma rows_after_merge:
  assumes "length (mg_cidx s) = n" "closest n s x y" "mg_cidx s' = (mg_cidx s)[x := int (n + m), y := -1]" "i < n"
  shows "in_use s' i \<longleftrightarrow> in_use s i \<and> i \<noteq> y" "i \<noteq> y \<Longrightarrow> label s' i = (if i = x then n + m else label s i)"
  using assms by (auto simp: in_use_def label_def closest_def nth_list_update)

lemma labels_after_merge:
  assumes inv: "merge_inv D n zs s" and cl: "closest n s x y" and s': "mg_cidx s' = (mg_cidx s)[x := int (n + length zs), y := -1]"
  shows "bij_betw (label s') {i. i < n \<and> in_use s' i} (tops n (zs @ [(label s x, label s y)]) (Suc (length zs)))"
proof -
  let ?L = "{i. i < n \<and> in_use s i}" and ?T = "tops n zs (length zs)"
  note xy = cl[unfolded closest_def] and rows = rows_after_merge[OF merge_invD(2)[OF inv] cl s']
  have "bij_betw (label s) (?L - {x, y}) (?T - {label s x, label s y})"
    using xy label_tops(1)[OF inv] by (intro bij_betw_DiffI merge_invD(8)[OF inv])
      (auto simp: bij_betw_def inj_on_def intro: inj_onD[OF bij_betw_imp_inj_on[OF merge_invD(8)[OF inv]]])
  then have "bij_betw (label s') (?L - {x, y}) (?T - {label s x, label s y})"
    by (rule bij_betw_cong[THEN iffD1, rotated]) (auto simp: rows)
  then have "bij_betw (label s') ((?L - {x, y}) \<union> {x}) ((?T - {label s x, label s y}) \<union> {label s' x})"
    using xy tops_less[of "n + length zs" n zs "length zs"] by (intro notIn_Un_bij_betw) (auto simp: rows(2))
  moreover have "(?L - {x, y}) \<union> {x} = {i. i < n \<and> in_use s' i}" using xy rows(1) by auto
  moreover have "(?T - {label s x, label s y}) \<union> {label s' x} = tops n (zs @ [(label s x, label s y)]) (Suc (length zs))"
    using xy rows(2)[of x] by (simp add: tops_append)
  ultimately show ?thesis by simp
qed

text \<open>The matrix holds the distances of the clusters after a merge.\<close>

lemma distances_after_merge:
  assumes inv: "merge_inv D n zs s" and cl: "closest n s x y" and D: "dissimilarity n D" and ab: "label s x < label s y"
    and s': "mg_cidx s' = (mg_cidx s)[x := int (n + length zs), y := -1]"
    and d': "\<forall>i < n. \<forall>j < n. mg_d s' ! i ! j = (if j = x \<and> i \<notin> {x, y} then max (mg_d s ! i ! x) (mg_d s ! i ! y)
       else if i = x \<and> j \<notin> {x, y} then max (mg_d s ! j ! x) (mg_d s ! j ! y) else mg_d s ! i ! j)"
    and zs': "zs' = zs @ [(label s x, label s y)]"
    and ij: "i < n" "j < n" "in_use s' i" "in_use s' j" "i \<noteq> j"
  shows "mg_d s' ! i ! j = link D (clusters n zs' ! label s' i) (clusters n zs' ! label s' j)"
proof -
  note xy = cl[unfolded closest_def] and rows = rows_after_merge[OF merge_invD(2)[OF inv] cl s']
  have wf: "wf_merges n zs'" using closest_complete_linkage[OF inv cl ab] zs' by (simp add: complete_linkage_def)
  have old: "clusters n zs' ! label s k = clusters n zs ! label s k" if "k < n" "in_use s k" for k
    using clusters_append[OF label_tops(2)[OF inv that]] by (simp add: zs')
  have new: "max (mg_d s ! k ! x) (mg_d s ! k ! y) = link D (clusters n zs' ! (n + length zs)) (clusters n zs' ! label s k)"
    if k: "k < n" "in_use s k" "k \<notin> {x, y}" for k
  proof -
    have l: "label s i < n + length zs'" if "i < n" "in_use s i" for i using label_tops(2)[OF inv that] by (simp add: zs')
    have "link D (clusters n zs' ! (n + length zs)) (clusters n zs' ! label s k) =
        max (link D (clusters n zs' ! label s x) (clusters n zs' ! label s k)) (link D (clusters n zs' ! label s y) (clusters n zs' ! label s k))"
      using l[OF k(1,2)] by (intro link_cluster_union[OF wf]) (auto simp: zs')
    also have "\<dots> = max (link D (clusters n zs' ! label s k) (clusters n zs' ! label s x)) (link D (clusters n zs' ! label s k) (clusters n zs' ! label s y))"
      using link_clusters_sym[OF wf D l l, of x k] link_clusters_sym[OF wf D l l, of y k] k xy by simp
    also have "\<dots> = max (mg_d s ! k ! x) (mg_d s ! k ! y)" using merge_invD(9)[OF inv] k xy by (auto simp: old)
    finally show ?thesis by simp
  qed
  have sym: "link D (clusters n zs' ! (n + length zs)) (clusters n zs' ! label s k) = link D (clusters n zs' ! label s k) (clusters n zs' ! (n + length zs))"
    if "k < n" "in_use s k" for k
    using label_tops(2)[OF inv that] by (intro link_clusters_sym[OF wf D]) (auto simp: zs')
  have live: "in_use s i" "i \<noteq> y" "in_use s j" "j \<noteq> y" using ij rows(1) by auto
  consider "j = x" "i \<notin> {x, y}" | "i = x" "j \<notin> {x, y}" | "i \<noteq> x" "j \<noteq> x" using live ij(5) by auto
  then show ?thesis
  proof cases
    case 1
    then have "mg_d s' ! i ! j = max (mg_d s ! i ! x) (mg_d s ! i ! y)" using d' ij(1,2) by simp
    then show ?thesis using 1 new[of i] sym[of i] live ij rows(2)[of i] rows(2)[of j] by simp
  next
    case 2
    then have "mg_d s' ! i ! j = max (mg_d s ! j ! x) (mg_d s ! j ! y)" using d' ij(1,2) by simp
    then show ?thesis using 2 new[of j] live ij rows(2)[of i] rows(2)[of j] by simp
  next
    case 3
    then have "mg_d s' ! i ! j = mg_d s ! i ! j" using d' ij(1,2) by simp
    then show ?thesis using 3 merge_invD(9)[OF inv ij(1,2) live(1,3) ij(5)] live ij rows(2)[of i] rows(2)[of j] by (simp add: old)
  qed
qed

lemma other_row:
  assumes "bij_betw f {i. i < n \<and> P i} (tops n zs (length zs))" "wf_merges n zs" "Suc (length zs) < n" "x < n" "P x"
  shows "\<exists>j < n. P j \<and> j \<noteq> x"
proof (rule ccontr)
  assume "\<not> ?thesis"
  then have "{i. i < n \<and> P i} \<subseteq> {x}" by auto
  from card_mono[OF _ this] have "card {i. i < n \<and> P i} \<le> 1" by simp
  then show False using bij_betw_same_card[OF assms(1)] card_tops[OF assms(2), of "length zs"] assms(3) by simp
qed

lemma neighbours_after_merge:
  assumes inv: "merge_inv D n zs s" and m: "Suc (length zs) < n" and cl: "closest n s x y" and ab: "label s x < label s y"
    and cidx: "cidx = (mg_cidx s)[x := int (n + length zs), y := -1]"
    and d: "square n d" "\<forall>i < n. \<forall>j < n. d ! i ! j < ae_maxrealnumber"
      "\<forall>i < n. \<forall>j < n. d ! i ! j = (if j = x \<and> i \<notin> {x, y} then max (mg_d s ! i ! x) (mg_d s ! i ! y)
         else if i = x \<and> j \<notin> {x, y} then max (mg_d s ! j ! x) (mg_d s ! j ! y) else mg_d s ! i ! j)"
  shows "\<exists>nn k v. foldE (update_nn n 0 (length zs) d cidx (int x) (int y)) [0..<n] (mg_nnidx s) = Inr nn \<and> length nn = n \<and>
    nn_scan n d (\<lambda>j. cidx ! j \<ge> 0) (int x) = Inr (k, v) \<and> (v < ae_maxrealnumber \<or> length zs = n - 2) \<and>
    (Suc (Suc (length zs)) < n \<longrightarrow> (\<forall>i < n. cidx ! i \<ge> 0 \<longrightarrow> nearest_of n d (\<lambda>j. cidx ! j \<ge> 0) i (nn[x := k] ! i)))"
proof -
  note I = merge_invD[OF inv] and xy = cl[unfolded closest_def]
  have x: "x < n" "y < n" "x \<noteq> y" using xy by auto
  have live: "cidx ! i \<ge> 0 \<longleftrightarrow> in_use s i \<and> i \<noteq> y" if "i < n" for i
    using that I(2) xy by (auto simp: cidx nth_list_update in_use_def)
  have near: "nearest_of n d' (\<lambda>j. cidx ! j \<ge> 0) i k \<longleftrightarrow> nearest_of n d' (\<lambda>j. in_use s j \<and> j \<noteq> y) i k" for d' i k
    unfolding nearest_of_def using live by auto
  have kept: "\<forall>i < n. cidx ! i \<ge> 0 \<and> i \<noteq> x \<and> mg_nnidx s ! i \<notin> {int x, int y} \<longrightarrow> nearest_of n d (\<lambda>j. cidx ! j \<ge> 0) i (mg_nnidx s ! i)"
  proof (intro allI impI, elim conjE)
    fix i assume i: "i < n" "cidx ! i \<ge> 0" "i \<noteq> x" "mg_nnidx s ! i \<notin> {int x, int y}"
    then show "nearest_of n d (\<lambda>j. cidx ! j \<ge> 0) i (mg_nnidx s ! i)"
      using I(10)[OF m] live[OF i(1)] xy unfolding near by (intro nearest_of_kept[OF _ i(4) _ i(1) _ _ d(3)]) auto
  qed
  have "cidx ! x \<ge> 0" using live[OF x(1)] xy by simp
  note update_nns[OF d(1,2) I(4) x(1) this kept, of "length zs"]
  moreover obtain k v where kv: "nn_scan n d (\<lambda>j. cidx ! j \<ge> 0) (int x) = Inr (k, v)"
    "(\<exists>j < n. cidx ! j \<ge> 0 \<and> j \<noteq> x) \<longrightarrow> nearest_of n d (\<lambda>j. cidx ! j \<ge> 0) x k \<and> v < ae_maxrealnumber"
    using nn_scan_nearest[OF d(1) x(1), of "\<lambda>j. cidx ! j \<ge> 0"] d(2) x(1) by blast
  moreover have "\<exists>j < n. cidx ! j \<ge> 0 \<and> j \<noteq> x" if "Suc (Suc (length zs)) < n"
  proof -
    let ?s = "s\<lparr>mg_cidx := cidx\<rparr>" and ?zs = "zs @ [(label s x, label s y)]"
    have "wf_merges n ?zs" using closest_complete_linkage[OF inv cl ab] by (simp add: complete_linkage_def)
    moreover have "bij_betw (label ?s) {i. i < n \<and> in_use ?s i} (tops n ?zs (length ?zs))"
      using labels_after_merge[OF inv cl, of ?s] by (simp add: cidx)
    ultimately show ?thesis
      using other_row[of "label ?s" n "in_use ?s" ?zs x] that x(1) \<open>cidx ! x \<ge> 0\<close> by (simp add: in_use_def)
  qed
  moreover have "Suc (Suc (length zs)) < n \<or> length zs = n - 2" using m by auto
  ultimately show ?thesis by (metis length_list_update nth_list_update_eq nth_list_update_neq)
qed

lemma merge_rows_inv:
  assumes inv: "merge_inv D n zs s" and D: "distances n D" and m: "Suc (length zs) < n" and cl: "closest n s x y" and ab: "label s x < label s y"
  shows "\<exists>s'. merge_rows n 0 (length zs) s (int x) (int y) (int (label s x)) (int (label s y)) (mg_d s ! x ! y) = Inr s' \<and>
    merge_inv D n (zs @ [(label s x, label s y)]) s'"
proof -
  note I = merge_invD[OF inv]
  let ?cidx = "(mg_cidx s)[x := int (n + length zs), y := -1]" and ?zs = "zs @ [(label s x, label s y)]"
  have x: "x < n" "y < n" "x \<noteq> y" using cl by (auto simp: closest_def)
  obtain d where d: "foldE (update_dist 0 (mg_csizes s) (int x) (int y) (mg_d s ! x ! y)) [0..<n] (mg_d s) = Inr d" "square n d"
    "\<forall>i < n. \<forall>j < n. d ! i ! j = (if j = x \<and> i \<notin> {x, y} then max (mg_d s ! i ! x) (mg_d s ! i ! y)
       else if i = x \<and> j \<notin> {x, y} then max (mg_d s ! j ! x) (mg_d s ! j ! y) else mg_d s ! i ! j)"
    using update_dists[OF I(1,3) x, of "mg_d s ! x ! y"] by (elim exE conjE) (rule that)
  have bound: "\<forall>i < n. \<forall>j < n. d ! i ! j < ae_maxrealnumber" using d(3) I(7) x by simp
  obtain nn k v where nn: "foldE (update_nn n 0 (length zs) d ?cidx (int x) (int y)) [0..<n] (mg_nnidx s) = Inr nn" "length nn = n"
    "nn_scan n d (\<lambda>j. ?cidx ! j \<ge> 0) (int x) = Inr (k, v)" "v < ae_maxrealnumber \<or> length zs = n - 2"
    "Suc (Suc (length zs)) < n \<longrightarrow> (\<forall>i < n. ?cidx ! i \<ge> 0 \<longrightarrow> nearest_of n d (\<lambda>j. ?cidx ! j \<ge> 0) i (nn[x := k] ! i))"
    using neighbours_after_merge[OF inv m cl ab refl d(2) bound d(3)] by (elim exE conjE) (rule that)
  define s' where "s' = \<lparr>mg_d = d, mg_cidx = ?cidx, mg_csizes = (mg_csizes s)[x := mg_csizes s ! x + mg_csizes s ! y, y := 0],
    mg_nnidx = nn[x := k], mg_z = mg_z s @ [(int (label s x), int (label s y))], mg_dist = mg_dist s @ [mg_d s ! x ! y]\<rparr>"
  have s': "mg_cidx s' = ?cidx" by (simp add: s'_def)
  have bij: "bij_betw (label s') {i. i < n \<and> in_use s' i} (tops n ?zs (Suc (length zs)))" by (rule labels_after_merge[OF inv cl s'])
  have use: "in_use s' = (\<lambda>j. ?cidx ! j \<ge> 0)" by (simp add: in_use_def s' fun_eq_iff)
  have "merge_inv D n ?zs s'"
    unfolding merge_inv_def
  proof (intro conjI allI impI)
    show "complete_linkage D n ?zs (mg_dist s')" using closest_complete_linkage[OF inv cl ab] by (simp add: s'_def)
    fix i j assume "i < n" "j < n" "in_use s' i \<and> in_use s' j \<and> i \<noteq> j"
    then show "mg_d s' ! i ! j = link D (clusters n ?zs ! label s' i) (clusters n ?zs ! label s' j)"
      using d(3) D by (intro distances_after_merge[OF inv cl _ ab s' _ refl]) (auto simp: s'_def distances_def)
  next
    fix i assume "Suc (length ?zs) < n" "i < n" "in_use s' i"
    then show "nearest_of n (mg_d s') (in_use s') i (mg_nnidx s' ! i)" unfolding use using nn(5) by (simp add: s'_def)
  qed (use bij I d(2) nn(2) bound in \<open>auto simp: s'_def\<close>)
  moreover have "merge_rows n 0 (length zs) s (int x) (int y) (int (label s x)) (int (label s y)) (mg_d s ! x ! y) = Inr s'"
    using x I(2-4) nn(2,4) by (simp add: merge_rows_def s'_def ae_assert_def d(1) nn(1,3) del: of_nat_add)
  ultimately show ?thesis by blast
qed

lemma merge_step_inv:
  assumes inv: "merge_inv D n zs s" and D: "distances n D" and m: "Suc (length zs) < n"
  shows "\<exists>s'. merge_step n 0 (length zs) s = Inr s' \<and> (\<exists>ab. merge_inv D n (zs @ [ab]) s')"
proof -
  note I = merge_invD[OF inv]
  have wf: "wf_merges n zs" "dissimilarity n D" using I(6) D by (auto simp: complete_linkage_def distances_def)
  have "tops n zs (length zs) \<noteq> {}" using card_tops[OF wf(1), of "length zs"] m by auto
  then have "\<exists>i < n. in_use s i" using I(8) by (auto simp: bij_betw_def)
  then obtain x y where xy: "select_pair n s = Inr (int x, int y, mg_d s ! x ! y)" "closest n s x y"
    using select_pair_closest[OF I(1,4,7) I(10)[OF m]] by blast
  note c = xy(2)[unfolded closest_def]
  have lab: "mg_cidx s ! x = int (label s x)" "mg_cidx s ! y = int (label s y)" using c by (auto simp: label_def in_use_def)
  have step: "merge_step n 0 (length zs) s =
    (if label s x > label s y then merge_rows n 0 (length zs) s (int y) (int x) (int (label s y)) (int (label s x)) (mg_d s ! x ! y)
     else merge_rows n 0 (length zs) s (int x) (int y) (int (label s x)) (int (label s y)) (mg_d s ! x ! y))"
    using I(2,7) c by (simp add: merge_step_def xy(1) ae_assert_def lab)
  show ?thesis
  proof (cases "label s x > label s y")
    case True
    have sym: "mg_d s ! x ! y = mg_d s ! y ! x"
      using link_clusters_sym[OF wf label_tops(2)[OF inv] label_tops(2)[OF inv], of x y] c I(9)[of x y] I(9)[of y x] by simp
    then have "closest n s y x" using c by (simp add: closest_def)
    from merge_rows_inv[OF inv D m this True] show ?thesis using True by (auto simp: step sym)
  next
    case False
    have "label s x \<noteq> label s y" using inj_onD[OF bij_betw_imp_inj_on[OF I(8)], of x y] c by auto
    then have "label s x < label s y" using False by simp
    from merge_rows_inv[OF inv D m xy(2) this] show ?thesis using False by (auto simp: step)
  qed
qed

section \<open>The whole run\<close>

lemma run_merges_complete_linkage:
  assumes n: "2 \<le> n" and D: "distances n D" and d: "holds_dist n D d"
  shows "\<exists>s zs. run_merges n 0 d = Inr s \<and> mg_z s = map (map_prod int int) zs \<and> length zs = n - 1 \<and> complete_linkage D n zs (mg_dist s)"
proof -
  have sq: "square n d" "\<forall>i < n. \<forall>j < n. d ! i ! j < ae_maxrealnumber" using d D by (auto simp: holds_dist_def distances_def)
  have "\<forall>i < n. \<exists>k. bindE (nn_scan n d (\<lambda>_. True) (int i)) (\<lambda>(k, v). ae_assert (v < ae_maxrealnumber) k) = Inr k \<and> nearest_of n d (\<lambda>_. True) i k"
  proof (intro allI impI)
    fix i assume i: "i < n"
    have "\<exists>j < n. True \<and> j \<noteq> i" using n by (intro exI[of _ "if i = 0 then 1 else 0"]) auto
    then obtain k v where "nn_scan n d (\<lambda>_. True) (int i) = Inr (k, v)" "nearest_of n d (\<lambda>_. True) i k" "v < ae_maxrealnumber"
      using nn_scan_nearest[OF sq(1) i, of "\<lambda>_. True"] sq(2) i by blast
    then show "\<exists>k. bindE (nn_scan n d (\<lambda>_. True) (int i)) (\<lambda>(k, v). ae_assert (v < ae_maxrealnumber) k) = Inr k \<and> nearest_of n d (\<lambda>_. True) i k"
      by (simp add: ae_assert_def)
  qed
  from mapE_upt[OF this] obtain nn where
    nn: "mapE (\<lambda>i. bindE (nn_scan n d (\<lambda>_. True) (int i)) (\<lambda>(k, v). ae_assert (v < ae_maxrealnumber) k)) [0..<n] = Inr nn" "length nn = n"
      "\<forall>i < n. nearest_of n d (\<lambda>_. True) i (nn ! i)" by blast
  let ?s = "\<lparr>mg_d = ward_squares 0 d, mg_cidx = map int [0..<n], mg_csizes = replicate n 1, mg_nnidx = nn, mg_z = [], mg_dist = []\<rparr>"
  have use: "in_use ?s i" "label ?s i = i" if "i < n" for i using that by (simp_all add: in_use_def label_def)
  have near: "nearest_of n d (in_use ?s) i k \<longleftrightarrow> nearest_of n d (\<lambda>_. True) i k" for i k
    unfolding nearest_of_def by (intro ex_cong1 conj_cong refl all_cong1 imp_cong) (simp_all only: use simp_thms)
  have start: "merge_inv D n [] ?s"
    unfolding merge_inv_def
  proof (intro conjI allI impI)
    show "bij_betw (label ?s) {i. i < n \<and> in_use ?s i} (tops n [] (length []))" by (rule bij_betwI[of _ _ _ id]) (use use in auto)
    fix i j assume "i < n" "j < n" "in_use ?s i \<and> in_use ?s j \<and> i \<noteq> j"
    then show "mg_d ?s ! i ! j = link D (clusters n [] ! label ?s i) (clusters n [] ! label ?s j)"
      using d by (simp only: use) (simp add: ward_squares_def holds_dist_def clusters_leaf link_def)
  qed (use sq nn(2,3) near in \<open>simp_all add: ward_squares_def complete_linkage_Nil\<close>)
  have "\<exists>s. foldE (merge_step n 0) [0..<n - 1] ?s = Inr s \<and> (\<exists>zs. length zs = n - 1 \<and> merge_inv D n zs s)"
  proof (rule foldE_upt[where I = "\<lambda>k s. \<exists>zs. length zs = k \<and> merge_inv D n zs s"])
    fix k s assume k: "k < n - 1" "\<exists>zs. length zs = k \<and> merge_inv D n zs s"
    then obtain zs where zs: "length zs = k" "merge_inv D n zs s" by blast
    moreover have "Suc (length zs) < n" using zs(1) k(1) by simp
    ultimately obtain s' ab where "merge_step n 0 k s = Inr s'" "merge_inv D n (zs @ [ab]) s'" using merge_step_inv[OF zs(2) D] by blast
    then show "\<exists>s'. merge_step n 0 k s = Inr s' \<and> (\<exists>zs. length zs = Suc k \<and> merge_inv D n zs s')"
      using zs(1) by (intro exI[of _ s'] conjI exI[of _ "zs @ [ab]"]) auto
  qed (use start in auto)
  then obtain s zs where "foldE (merge_step n 0) [0..<n - 1] ?s = Inr s" "length zs = n - 1" "merge_inv D n zs s" by blast
  then show ?thesis using merge_invD(5,6)[of D n zs s] by (auto simp: run_merges_def nn(1))
qed

end
