(* ===== verification/ClusterCut.thy ===== *)
theory ClusterCut
  imports ClusterMerge
begin

text \<open>
  The second half of the clusterizer: the merges are laid out so that every cluster is an interval of the
  permuted points, and the tree is cut into a number of clusters, or at a distance. The cut gives the
  clusters that are present after the first merges, numbered in the order of their labels.
\<close>

section \<open>Sizes\<close>

abbreviation points :: "nat \<Rightarrow> merges \<Rightarrow> nat \<Rightarrow> int" where
  "points n zs l \<equiv> int (card (clusters n zs ! l))"

abbreviation int_merges :: "merges \<Rightarrow> (int \<times> int) list" where
  "int_merges \<equiv> map (map_prod int int)"

lemma cluster_sizes_card:
  assumes "wf_merges n zs"
  shows "\<exists>sizes heights. cluster_sizes n (int_merges zs) = Inr (sizes, heights) \<and> length sizes = n + length zs \<and> length heights = n + length zs \<and>
    (\<forall>l < n + length zs. sizes ! l = points n zs l)"
  using assms
proof (induction zs rule: rev_induct)
  case Nil
  then show ?case by (auto simp: cluster_sizes_def clusters_leaf)
next
  case (snoc ab zs)
  obtain a b where ab: "ab = (a, b)" by (cases ab)
  have wf: "wf_merges n zs" using snoc.prems wf_merges_append by blast
  from snoc.IH[OF this] obtain sizes heights where IH: "cluster_sizes n (int_merges zs) = Inr (sizes, heights)"
    "length sizes = n + length zs" "length heights = n + length zs" "\<forall>l < n + length zs. sizes ! l = points n zs l" by blast
  have ab_less: "a < n + length zs" "b < n + length zs" using snoc.prems tops_less by (auto simp: ab wf_merges_snoc)
  have "cluster_sizes n (int_merges (zs @ [ab])) = Inr (sizes @ [sizes ! a + sizes ! b], heights @ [max (heights ! a) (heights ! b) + 1])"
    using IH ab_less by (simp add: cluster_sizes_def foldE_append ab)
  moreover have "points n (zs @ [ab]) (n + length zs) = points n (zs @ [ab]) a + points n (zs @ [ab]) b"
    using card_merge[OF snoc.prems, of "length zs" a b] by (simp add: ab)
  moreover have "clusters n (zs @ [ab]) ! l = clusters n zs ! l" if "l < n + length zs" for l using clusters_append[OF that] .
  ultimately show ?case using IH(2-4) ab_less by (auto simp: nth_append less_Suc_eq)
qed

section \<open>Places\<close>

text \<open>The label of a cluster that disappears is that of a part of a merge.\<close>

lemma merged_later:
  assumes "l \<in> tops n zs m" "l \<notin> tops n zs m'" "m \<le> m'"
  shows "\<exists>i. m \<le> i \<and> i < m' \<and> l \<in> {fst (zs ! i), snd (zs ! i)}"
  using assms(3,2,1)
proof (induction m' rule: dec_induct)
  case (step i)
  then show ?case by (cases "l \<in> tops n zs i") (auto simp: less_Suc_eq)
qed simp

lemma tops_root: "wf_merges n zs \<Longrightarrow> length zs = n - 1 \<Longrightarrow> 2 \<le> n \<Longrightarrow> tops n zs (n - 1) = {2 * n - 2}"
proof -
  assume a: "wf_merges n zs" "length zs = n - 1" "2 \<le> n"
  then have "card (tops n zs (n - 1)) = 1" using card_tops[of n zs "n - 1"] by simp
  moreover have "2 * n - 2 \<in> tops n zs (n - 1)"
  proof -
    obtain k where "n - 1 = Suc k" "n + k = 2 * n - 2" using a(3) that[of "n - 2"] by simp
    then show ?thesis by simp
  qed
  ultimately show ?thesis by (metis card_1_singletonE singletonD)
qed

text \<open>The begins of the clusters in the permuted order: the parts of a merge fill its interval from the left to the right.\<close>

definition laid_out :: "nat \<Rightarrow> merges \<Rightarrow> (nat \<Rightarrow> int) \<Rightarrow> bool" where
  "laid_out n zs B \<longleftrightarrow> B (2 * n - 2) = 0 \<and>
     (\<forall>m < n - 1. B (fst (zs ! m)) = B (n + m) \<and> B (snd (zs ! m)) = B (n + m) + points n zs (fst (zs ! m)))"

definition placed :: "nat \<Rightarrow> merges \<Rightarrow> int option list \<Rightarrow> int option list \<Rightarrow> nat \<Rightarrow> bool" where
  "placed n zs begs ends l \<longleftrightarrow> (\<exists>b. begs ! l = Some b \<and> ends ! l = Some (b + points n zs l - 1))"

definition parts_placed :: "nat \<Rightarrow> merges \<Rightarrow> int option list \<Rightarrow> int option list \<Rightarrow> nat \<Rightarrow> bool" where
  "parts_placed n zs begs ends m \<longleftrightarrow> placed n zs begs ends (n + m) \<and> placed n zs begs ends (fst (zs ! m)) \<and> placed n zs begs ends (snd (zs ! m)) \<and>
     begs ! fst (zs ! m) = begs ! (n + m) \<and> begs ! snd (zs ! m) = map_option (\<lambda>b. b + points n zs (fst (zs ! m))) (begs ! (n + m))"

definition place_inv :: "nat \<Rightarrow> merges \<Rightarrow> nat \<Rightarrow> int option list \<times> int option list \<times> pm_row list \<Rightarrow> bool" where
  "place_inv n zs k = (\<lambda>(begs, ends, pm). length begs = 2 * n - 1 \<and> length ends = 2 * n - 1 \<and> length pm = n - 1 - k \<and>
     begs ! (2 * n - 2) = Some 0 \<and> ends ! (2 * n - 2) = Some (int n - 1) \<and>
     (\<forall>m < n - 1. k \<le> m \<longrightarrow> parts_placed n zs begs ends m \<and> (\<exists>h0 h1. pm ! (m - k) =
        (the (begs ! fst (zs ! m)), the (ends ! fst (zs ! m)), the (begs ! snd (zs ! m)), the (ends ! snd (zs ! m)), h0, h1))))"

lemma points_root:
  assumes "wf_merges n zs" "length zs = n - 1" "2 \<le> n"
  shows "points n zs (2 * n - 2) = int n"
  using tops_cover[OF assms(1), of "n - 1"] tops_root[OF assms] assms(2) by simp

lemma next_placed:
  assumes wf: "wf_merges n zs" "length zs = n - 1" "2 \<le> n" and inv: "place_inv n zs (Suc k) (begs, ends, pm)" and k: "k < n - 1"
  shows "placed n zs begs ends (n + k)"
proof (cases "n + k = 2 * n - 2")
  case True
  then show ?thesis using inv points_root[OF wf] by (simp add: place_inv_def placed_def)
next
  case False
  have "n + k \<in> tops n zs (Suc k)" by simp
  with False tops_root[OF wf] obtain i where "Suc k \<le> i" "i < n - 1" "n + k \<in> {fst (zs ! i), snd (zs ! i)}"
    using merged_later[of "n + k" n zs "Suc k" "n - 1"] k by auto
  then show ?thesis using inv by (auto simp: place_inv_def parts_placed_def)
qed

lemma place_merge_inv:
  assumes wf: "wf_merges n zs" "length zs = n - 1" "2 \<le> n" and sz: "length sizes = 2 * n - 1" "length heights = 2 * n - 1" "\<forall>l < 2 * n - 1. sizes ! l = points n zs l"
    and k: "k < n - 1" and inv: "place_inv n zs (Suc k) st"
  shows "\<exists>st'. place_merge n (int_merges zs) sizes heights k st = Inr st' \<and> place_inv n zs k st'"
proof -
  obtain begs ends pm where st: "st = (begs, ends, pm)" by (cases st)
  note I = inv[unfolded st place_inv_def prod.case]
  obtain a b where ab: "zs ! k = (a, b)" by (cases "zs ! k")
  have w: "a \<in> tops n zs k" "b \<in> tops n zs k" "a < b" "b < n + k" using wf_mergesD[OF wf(1) _ ab] k wf(2) by auto
  have c: "points n zs (n + k) = points n zs a + points n zs b" using card_merge[OF wf(1) _ ab] k wf(2) by simp
  obtain ar where ar: "begs ! (n + k) = Some ar" "ends ! (n + k) = Some (ar + points n zs (n + k) - 1)"
    using next_placed[OF wf inv[unfolded st] k] by (auto simp: placed_def)
  define begs' where "begs' = begs[a := Some ar, b := Some (ar + points n zs a)]"
  define ends' where "ends' = ends[a := Some (ar + points n zs a - 1), b := Some (ar + points n zs (n + k) - 1)]"
  have less: "a < 2 * n - 1" "b < 2 * n - 1" "n + k < 2 * n - 1" using w k by auto
  have new: "begs' ! a = Some ar" "begs' ! b = Some (ar + points n zs a)" "ends' ! a = Some (ar + points n zs a - 1)" "ends' ! b = Some (ar + points n zs (n + k) - 1)"
    using w(3) less I by (auto simp: begs'_def ends'_def)
  have old: "begs' ! l = begs ! l" "ends' ! l = ends ! l" if "l \<notin> {a, b}" for l using that by (auto simp: begs'_def ends'_def)
  have step: "place_merge n (int_merges zs) sizes heights k st =
      Inr (begs', ends', (ar, ar + points n zs a - 1, ar + points n zs a, ar + points n zs (n + k) - 1, heights ! a, heights ! b) # pm)"
    using sz less k wf(2) I ar w(3) c
    by (simp add: place_merge_def ab st place_at_def begs'_def ends'_def del: of_nat_add)
  have here: "parts_placed n zs begs' ends' k" using new ar c old[of "n + k"] w by (simp add: parts_placed_def placed_def ab)
  have later: "fst (zs ! m) \<notin> {a, b} \<and> snd (zs ! m) \<notin> {a, b} \<and> n + m \<notin> {a, b}" if "k < m" "m < n - 1" for m
  proof -
    have "x \<notin> tops n zs m" if "x \<in> {a, b}" for x using merged_once[OF wf(1) \<open>k < m\<close>, of x] \<open>m < n - 1\<close> wf(2) that ab by simp
    moreover have "fst (zs ! m) \<in> tops n zs m" "snd (zs ! m) \<in> tops n zs m" using wf(1,2) that(2) by (auto simp: wf_merges_def)
    ultimately show ?thesis using w that(1) by auto
  qed
  have there: "parts_placed n zs begs' ends' m" if "k < m" "m < n - 1" for m
    using I later[OF that] that by (auto simp: parts_placed_def placed_def old)
  have "place_inv n zs k (begs', ends', (ar, ar + points n zs a - 1, ar + points n zs a, ar + points n zs (n + k) - 1, heights ! a, heights ! b) # pm)"
    unfolding place_inv_def prod.case
  proof (intro conjI allI impI)
    have "2 * n - 2 \<notin> {a, b}" using w k by auto
    then show "begs' ! (2 * n - 2) = Some 0" "ends' ! (2 * n - 2) = Some (int n - 1)" using I by (auto simp: old)
    fix m assume m: "m < n - 1" "k \<le> m"
    show "parts_placed n zs begs' ends' m" using here there m by (cases "m = k") auto
    show "\<exists>h0 h1. ((ar, ar + points n zs a - 1, ar + points n zs a, ar + points n zs (n + k) - 1, heights ! a, heights ! b) # pm) ! (m - k) =
      (the (begs' ! fst (zs ! m)), the (ends' ! fst (zs ! m)), the (begs' ! snd (zs ! m)), the (ends' ! snd (zs ! m)), h0, h1)"
    proof (cases "m = k")
      case False
      then have "k < m" "m - k = Suc (m - Suc k)" using m by auto
      then show ?thesis using I m later[of m] by (simp add: old)
    qed (simp add: ab new)
  qed (use I k in \<open>auto simp: begs'_def ends'_def\<close>)
  then show ?thesis using step by blast
qed

lemma all_placed:
  assumes wf: "wf_merges n zs" "length zs = n - 1" "2 \<le> n" and inv: "place_inv n zs 0 (begs, ends, pm)" and l: "l < 2 * n - 1"
  shows "placed n zs begs ends l"
proof (cases "l < n")
  case True
  then have "l \<in> tops n zs 0" "l \<notin> tops n zs (n - 1)" using tops_root[OF wf] wf(3) by auto
  then obtain i where "i < n - 1" "l \<in> {fst (zs ! i), snd (zs ! i)}" using merged_later[of l n zs 0 "n - 1"] by auto
  then show ?thesis using inv by (auto simp: place_inv_def parts_placed_def)
next
  case False
  then obtain m where "l = n + m" "m < n - 1" using l that[of "l - n"] by simp
  then show ?thesis using inv by (auto simp: place_inv_def parts_placed_def)
qed

definition pm_rows :: "nat \<Rightarrow> merges \<Rightarrow> (nat \<Rightarrow> int) \<Rightarrow> pm_row list \<Rightarrow> bool" where
  "pm_rows n zs B pm \<longleftrightarrow> length pm = n - 1 \<and> (\<forall>m < n - 1. \<exists>h0 h1. pm ! m =
     (B (fst (zs ! m)), B (fst (zs ! m)) + points n zs (fst (zs ! m)) - 1, B (snd (zs ! m)), B (snd (zs ! m)) + points n zs (snd (zs ! m)) - 1, h0, h1))"

lemma layout_laid_out:
  assumes wf: "wf_merges n zs" "length zs = n - 1" "2 \<le> n"
  shows "\<exists>p pm B. layout n (int_merges zs) = Inr (p, pm) \<and> laid_out n zs B \<and> p = map B [0..<n] \<and> pm_rows n zs B pm"
proof -
  have len: "n + length zs = 2 * n - 1" using wf(2,3) by simp
  obtain sizes heights where sz: "cluster_sizes n (int_merges zs) = Inr (sizes, heights)" "length sizes = 2 * n - 1" "length heights = 2 * n - 1"
    "\<forall>l < 2 * n - 1. sizes ! l = points n zs l" using cluster_sizes_card[OF wf(1)] unfolding len by blast
  let ?st = "((replicate (2 * n - 1) None)[2 * n - 2 := Some 0], (replicate (2 * n - 1) None)[2 * n - 2 := Some (int n - 1)], [])"
  have "\<exists>st. foldE (place_merge n (int_merges zs) sizes heights) (rev [0..<n - 1]) ?st = Inr st \<and> place_inv n zs 0 st"
  proof (rule foldE_down[where I = "place_inv n zs"])
    show "place_inv n zs (n - 1) ?st" using wf(3) by (simp add: place_inv_def)
  qed (use place_merge_inv[OF wf sz(2-4)] in auto)
  then obtain begs ends pm where st: "foldE (place_merge n (int_merges zs) sizes heights) (rev [0..<n - 1]) ?st = Inr (begs, ends, pm)"
    "place_inv n zs 0 (begs, ends, pm)" by auto
  define B where "B l = the (begs ! l)" for l
  have pl: "begs ! l = Some (B l)" "ends ! l = Some (B l + points n zs l - 1)" if "l < 2 * n - 1" for l
    using all_placed[OF wf st(2) that] by (auto simp: placed_def B_def)
  have less: "fst (zs ! m) < 2 * n - 1" "snd (zs ! m) < 2 * n - 1" if "m < n - 1" for m
    using wf_mergesD[OF wf(1), of m] wf(2) that by (cases "zs ! m"; fastforce)+
  have "mapE (\<lambda>i. bindE (place_at begs (int i)) (\<lambda>b. bindE (place_at ends (int i)) (\<lambda>e. ae_assert (b = e) b))) [0..<n] = Inr (map B [0..<n])"
  proof -
    have "bindE (place_at begs (int i)) (\<lambda>b. bindE (place_at ends (int i)) (\<lambda>e. ae_assert (b = e) b)) = Inr (B i)" if "i < n" for i
      using st(2) pl[of i] that clusters_leaf[of i n zs] by (simp add: place_at_def place_inv_def ae_assert_def)
    then show ?thesis by (intro mapE_upt_map) auto
  qed
  moreover have "laid_out n zs B"
    using st(2) pl pl(1)[of "2 * n - 2"] less wf(3) by (auto simp: laid_out_def place_inv_def parts_placed_def)
  moreover have "pm_rows n zs B pm" using st(2) pl less by (auto simp: pm_rows_def place_inv_def)
  ultimately show ?thesis using sz(1) st(1) by (auto simp: layout_def)
qed

section \<open>Intervals\<close>

definition interval :: "nat \<Rightarrow> merges \<Rightarrow> (nat \<Rightarrow> int) \<Rightarrow> nat \<Rightarrow> int set" where
  "interval n zs B l = {B l..<B l + points n zs l}"

lemma interval_merge:
  assumes "wf_merges n zs" "length zs = n - 1" "laid_out n zs B" "m < n - 1" "zs ! m = (a, b)"
  shows "interval n zs B (n + m) = interval n zs B a \<union> interval n zs B b" "interval n zs B a \<inter> interval n zs B b = {}"
  using card_merge[OF assms(1) _ assms(5)] assms(2-5) by (auto simp: laid_out_def interval_def)

lemma interval_root:
  assumes "wf_merges n zs" "length zs = n - 1" "2 \<le> n" "laid_out n zs B"
  shows "interval n zs B (2 * n - 2) = {0..<int n}"
  using points_root[OF assms(1-3)] assms(4) by (simp add: laid_out_def interval_def)

text \<open>The intervals of the clusters of a level do not overlap.\<close>

lemma disjoint_family_on_split:
  assumes "disjoint_family_on f (insert c (T - {a, b}))" "f c = f a \<union> f b" "f a \<inter> f b = {}" "c \<notin> T"
  shows "disjoint_family_on f T"
  unfolding disjoint_family_on_def
proof (intro ballI impI)
  fix x y assume xy: "x \<in> T" "y \<in> T" "x \<noteq> y"
  have out: "f l \<inter> f c = {}" if "l \<in> T - {a, b}" for l
    using assms(1) by (rule disjoint_family_onD) (use that assms(4) in auto)
  have sub: "f l \<subseteq> f c" if "l \<in> {a, b}" for l using that assms(2) by auto
  consider "x \<in> T - {a, b}" "y \<in> T - {a, b}" | "x \<in> {a, b}" "y \<in> {a, b}" | "x \<in> {a, b}" "y \<in> T - {a, b}" | "x \<in> T - {a, b}" "y \<in> {a, b}"
    using xy by blast
  then show "f x \<inter> f y = {}"
  proof cases
    case 1
    show ?thesis using assms(1) by (rule disjoint_family_onD) (use 1 xy in auto)
  next
    case 2
    then show ?thesis using xy(3) assms(3) by auto
  next
    case 3
    then show ?thesis using out[of y] sub[of x] by auto
  next
    case 4
    then show ?thesis using out[of x] sub[of y] by auto
  qed
qed

lemma intervals_disjoint:
  assumes wf: "wf_merges n zs" "length zs = n - 1" "2 \<le> n" and B: "laid_out n zs B" and m: "m \<le> n - 1"
  shows "disjoint_family_on (interval n zs B) (tops n zs m) \<and> (\<forall>l \<in> tops n zs m. interval n zs B l \<subseteq> {0..<int n})"
  using m
proof (induction m rule: inc_induct)
  case base
  then show ?case using interval_root[OF wf B] tops_root[OF wf] by (simp add: disjoint_family_on_def)
next
  case (step m)
  obtain a b where ab: "zs ! m = (a, b)" by (cases "zs ! m")
  note iv = interval_merge[OF wf(1,2) B step.hyps(2) ab]
  have w: "a \<in> tops n zs m" "b \<in> tops n zs m" "a \<noteq> b" using wf_mergesD[OF wf(1) _ ab] step.hyps(2) wf(2) by auto
  have t: "tops n zs (Suc m) = insert (n + m) (tops n zs m - {a, b})" by (simp add: ab)
  have "n + m \<notin> tops n zs m" using tops_less by blast
  note disjoint_family_on_split[OF conjunct1[OF step.IH, unfolded t] iv this]
  moreover have "interval n zs B l \<subseteq> {0..<int n}" if "l \<in> tops n zs m" for l
  proof (cases "l \<in> {a, b}")
    case True
    then have "interval n zs B l \<subseteq> interval n zs B (n + m)" using iv(1) by auto
    then show ?thesis using step.IH unfolding t by auto
  next
    case False
    then show ?thesis using step.IH that unfolding t by simp
  qed
  ultimately show ?case by blast
qed

text \<open>The place of a point is in the intervals of its clusters.\<close>

lemma point_in_interval:
  assumes wf: "wf_merges n zs" "length zs = n - 1" and B: "laid_out n zs B" and l: "l < n + length zs" "i \<in> clusters n zs ! l"
  shows "B i \<in> interval n zs B l"
  using l
proof (induction l rule: less_induct)
  case (less l)
  show ?case
  proof (cases "l < n")
    case True
    then show ?thesis using less.prems by (simp add: clusters_leaf interval_def)
  next
    case False
    then obtain m where m: "l = n + m" "m < length zs" using less.prems(1) by (metis add_diff_inverse_nat add_less_cancel_left)
    obtain a b where ab: "zs ! m = (a, b)" by (cases "zs ! m")
    show ?thesis
      using less.IH[of a] less.IH[of b] less.prems clusters_merge[OF wf(1) m(2) ab] wf_mergesD[OF wf(1) m(2) ab] interval_merge(1)[OF wf B _ ab] m wf(2) by auto
  qed
qed

section \<open>The cut into a number of clusters\<close>

lemma fill_range_nth:
  assumes "0 \<le> i0" "i1 < int (length t)"
  shows "\<exists>t'. fill_range i0 i1 v t = Inr t' \<and> length t' = length t \<and>
    (\<forall>q < length t. t' ! q = (if int q \<in> {i0..i1} then v else t ! q))"
  using assms
proof (induction i0 i1 arbitrary: t rule: upto.induct)
  case (1 i0 i1)
  show ?case
  proof (cases "i0 \<le> i1")
    case True
    then have i0: "nat i0 < length t" using "1.prems" by linarith
    have "i1 < int (length (t[nat i0 := v]))" "0 \<le> i0 + 1" using "1.prems" by auto
    then obtain t' where t': "fill_range (i0 + 1) i1 v (t[nat i0 := v]) = Inr t'" "length t' = length t"
      "\<forall>q < length t. t' ! q = (if int q \<in> {i0 + 1..i1} then v else t[nat i0 := v] ! q)"
      using "1.IH"[OF True, of "t[nat i0 := v]"] by auto
    have "fill_range i0 i1 v t = Inr t'"
      using True t'(1) "1.prems" by (simp add: fill_range_def upto_rec1 vec_put_def)
    moreover have "t' ! q = (if int q \<in> {i0..i1} then v else t ! q)" if "q < length t" for q
      using t'(3) that True "1.prems"(1) i0 by (cases "int q = i0") auto
    ultimately show ?thesis using t'(2) by blast
  next
    case False
    then show ?thesis by (auto simp: fill_range_def)
  qed
qed

text \<open>The state of the cut when the merges from \<open>m\<close> on are undone.\<close>

definition cut_inv :: "nat \<Rightarrow> merges \<Rightarrow> (nat \<Rightarrow> int) \<Rightarrow> nat \<Rightarrow> bool list \<times> int list \<Rightarrow> bool" where
  "cut_inv n zs B m = (\<lambda>(present, tmpidx). length present = 2 * n - 1 \<and> length tmpidx = n \<and>
     (\<forall>l < 2 * n - 1. present ! l \<longleftrightarrow> l \<in> tops n zs m) \<and>
     (\<forall>q < n. \<forall>l \<in> tops n zs m. int q \<in> interval n zs B l \<longrightarrow> tmpidx ! q = int l))"

lemma split_cluster_inv:
  assumes wf: "wf_merges n zs" "length zs = n - 1" "2 \<le> n" and B: "laid_out n zs B" and pm: "pm_rows n zs B (rp_pm rep)" and z: "rp_z rep = int_merges zs"
    and m: "m < n - 1" and inv: "cut_inv n zs B (Suc m) st"
  shows "\<exists>st'. split_cluster n rep m st = Inr st' \<and> cut_inv n zs B m st'"
proof -
  obtain present tmpidx where st: "st = (present, tmpidx)" by (cases st)
  note I = inv[unfolded st cut_inv_def prod.case]
  obtain a b where ab: "zs ! m = (a, b)" by (cases "zs ! m")
  have w: "a \<in> tops n zs m" "b \<in> tops n zs m" "a < b" "b < n + m" using wf_mergesD[OF wf(1) _ ab] m wf(2) by auto
  obtain h0 h1 where row: "rp_pm rep ! m = (B a, B a + points n zs a - 1, B b, B b + points n zs b - 1, h0, h1)" "length (rp_pm rep) = n - 1"
    using pm m ab by (force simp: pm_rows_def)
  have iv: "interval n zs B l = {B l..B l + points n zs l - 1}" for l by (auto simp: interval_def)
  have dis: "disjoint_family_on (interval n zs B) (tops n zs m)" and sub: "\<forall>l \<in> tops n zs m. interval n zs B l \<subseteq> {0..<int n}"
    using intervals_disjoint[OF wf B, of m] m by auto
  have pos: "0 \<le> B l \<and> B l + points n zs l - 1 < int n" if "l \<in> {a, b}" for l
  proof -
    have "l \<in> tops n zs m" "l < n + length zs" using that w m wf(2) by auto
    then have "points n zs l > 0" using clusters_nonempty[OF wf(1), of l] finite_cluster[OF wf(1), of l] by (simp add: card_gt_0_iff)
    then have "B l \<in> interval n zs B l" "B l + points n zs l - 1 \<in> interval n zs B l" by (auto simp: iv)
    then show ?thesis using sub \<open>l \<in> tops n zs m\<close> by fastforce
  qed
  obtain t1 where t1: "fill_range (B a) (B a + points n zs a - 1) (int a) tmpidx = Inr t1" "length t1 = n"
    "\<forall>q < n. t1 ! q = (if int q \<in> interval n zs B a then int a else tmpidx ! q)"
    using fill_range_nth[of "B a" "B a + points n zs a - 1" tmpidx "int a"] pos[of a] I unfolding iv by auto
  obtain t2 where t2: "fill_range (B b) (B b + points n zs b - 1) (int b) t1 = Inr t2" "length t2 = n"
    "\<forall>q < n. t2 ! q = (if int q \<in> interval n zs B b then int b else t1 ! q)"
    using fill_range_nth[of "B b" "B b + points n zs b - 1" t1 "int b"] pos[of b] t1(2) unfolding iv by auto
  let ?p = "present[n + m := False, a := True, b := True]"
  have "split_cluster n rep m st = Inr (?p, t2)"
    using I m w row t1(1) t2(1) wf(2) by (simp add: split_cluster_def st z ab del: of_nat_add)
  moreover have "?p ! l \<longleftrightarrow> l \<in> tops n zs m" if "l < 2 * n - 1" for l
    using I that w m tops_less[of "n + m" n zs m] by (auto simp: nth_list_update ab)
  moreover have "t2 ! q = int l" if q: "q < n" "l \<in> tops n zs m" "int q \<in> interval n zs B l" for q l
  proof -
    have other: "int q \<notin> interval n zs B x" if "x \<in> tops n zs m" "x \<noteq> l" for x
      using disjoint_family_onD[OF dis that(1) q(2) that(2)] q(3) by auto
    show ?thesis
      using q I t1(3) t2(3) other[of a] other[of b] w by (cases "l = a"; cases "l = b") (auto simp: ab)
  qed
  ultimately show ?thesis using I t2(2) by (auto simp: cut_inv_def)
qed

lemma number_clusters:
  assumes "length present = N"
  defines "ls \<equiv> filter (\<lambda>l. present ! l) [0..<N]"
  shows "\<exists>ci. foldE (number_cluster (length ls) present) [0..<N] ([], replicate N None) = Inr (map int ls, ci) \<and> length ci = N \<and>
    (\<forall>l < N. present ! l \<longrightarrow> (\<exists>r < length ls. ls ! r = l \<and> ci ! l = Some (int r)))"
proof -
  let ?ls = "\<lambda>i. filter (\<lambda>l. present ! l) [0..<i]"
  let ?I = "\<lambda>i (cz, ci). cz = map int (?ls i) \<and> length ci = N \<and> (\<forall>l < i. present ! l \<longrightarrow> (\<exists>r < length (?ls i). ?ls i ! r = l \<and> ci ! l = Some (int r)))"
  have "\<exists>s. foldE (number_cluster (length ls) present) [0..<N] ([], replicate N None) = Inr s \<and> ?I N s"
  proof (rule foldE_upt[where I = ?I])
    fix i s assume i: "i < N" "?I i s"
    obtain cz ci where s: "s = (cz, ci)" by (cases s)
    show "\<exists>s'. number_cluster (length ls) present i s = Inr s' \<and> ?I (Suc i) s'"
    proof (cases "present ! i")
      case True
      have "[0..<N] = [0..<i] @ i # [Suc i..<N]" using i(1) upt_add_eq_append[of 0 i "N - i"] upt_conv_Cons[of i N] by simp
      then have "length (?ls i) < length ls" using True by (simp add: ls_def)
      then have "number_cluster (length ls) present i s = Inr (cz @ [int i], ci[i := Some (int (length cz))])"
        using i(2) True by (simp add: number_cluster_def s)
      moreover have "?I (Suc i) (cz @ [int i], ci[i := Some (int (length cz))])"
        using i True by (fastforce simp: s less_Suc_eq nth_append nth_list_update)
      ultimately show ?thesis by blast
    next
      case False
      then have "number_cluster (length ls) present i s = Inr s" by (simp add: number_cluster_def s)
      moreover have "?I (Suc i) s" using i False by (auto simp: s less_Suc_eq)
      ultimately show ?thesis by blast
    qed
  qed auto
  then show ?thesis by (auto simp: ls_def)
qed

lemma filter_tops:
  assumes "T \<subseteq> {..<N}"
  shows "filter (\<lambda>l. l \<in> T) [0..<N] = sorted_list_of_set T"
proof -
  have "set (filter (\<lambda>l. l \<in> T) [0..<N]) = T" using assms by auto
  then show ?thesis using sorted_list_of_set.idem_if_sorted_distinct[of "filter (\<lambda>l. l \<in> T) [0..<N]"] by (simp add: sorted_wrt_filter)
qed

text \<open>What a report holds after a run.\<close>

definition report :: "nat \<Rightarrow> merges \<Rightarrow> ahcreport \<Rightarrow> bool" where
  "report n zs rep \<longleftrightarrow> rp_npoints rep = n \<and> rp_z rep = int_merges zs \<and> wf_merges n zs \<and> length zs = n - 1 \<and>
     (2 \<le> n \<longrightarrow> (\<exists>B. laid_out n zs B \<and> rp_p rep = map B [0..<n] \<and> pm_rows n zs B (rp_pm rep)))"

lemma getkclusters_tops:
  assumes rep: "report n zs rep" and n: "2 \<le> n" and k: "0 < k" "k \<le> n"
  defines "ls \<equiv> sorted_list_of_set (tops n zs (n - k))"
  shows "\<exists>cidx. clusterizergetkclusters rep k = Inr (cidx, map int ls) \<and> length cidx = n \<and> length ls = k \<and>
    (\<forall>i < n. \<exists>r < k. cidx ! i = int r \<and> i \<in> clusters n zs ! (ls ! r))"
proof -
  obtain B where R: "rp_npoints rep = n" "rp_z rep = int_merges zs" "wf_merges n zs" "length zs = n - 1" "laid_out n zs B"
    "rp_p rep = map B [0..<n]" "pm_rows n zs B (rp_pm rep)" using rep n by (auto simp: report_def)
  note wf = R(3,4) n
  let ?st = "((replicate (2 * n - 1) False)[2 * n - 2 := True], replicate n (int (2 * n - 2)))"
  have "\<exists>st. foldE (split_cluster n rep) (rev [n - k..<n - 1]) ?st = Inr st \<and> cut_inv n zs B (n - k) st"
  proof (rule foldE_down[where I = "cut_inv n zs B"])
    show "cut_inv n zs B (n - 1) ?st" unfolding cut_inv_def prod.case tops_root[OF wf] using n by (auto simp: nth_list_update)
  qed (use split_cluster_inv[OF wf R(5,7,2)] k in auto)
  then obtain present tmpidx where st: "foldE (split_cluster n rep) (rev [n - k..<n - 1]) ?st = Inr (present, tmpidx)"
    "cut_inv n zs B (n - k) (present, tmpidx)" by auto
  note I = st(2)[unfolded cut_inv_def prod.case]
  have less: "tops n zs (n - k) \<subseteq> {..<2 * n - 1}" using tops_less[of _ n zs "n - k"] k by fastforce
  have ls: "filter (\<lambda>l. present ! l) [0..<2 * n - 1] = ls"
    unfolding ls_def filter_tops[OF less, symmetric] using I by (intro filter_cong) auto
  have "n - k \<le> length zs" using k wf(2) by simp
  from card_tops[OF wf(1) this] have len: "length ls = k" using k by (simp add: ls_def)
  obtain ci where ci: "foldE (number_cluster k present) [0..<2 * n - 1] ([], replicate (2 * n - 1) None) = Inr (map int ls, ci)" "length ci = 2 * n - 1"
    "\<forall>l < 2 * n - 1. present ! l \<longrightarrow> (\<exists>r < k. ls ! r = l \<and> ci ! l = Some (int r))"
    using number_clusters[of present "2 * n - 1"] I unfolding ls len by blast
  have "\<forall>i < n. \<exists>y. bindE (vec_at (rp_p rep) (int i)) (\<lambda>q. bindE (vec_at tmpidx q) (\<lambda>c. place_at ci c)) = Inr y \<and>
    (\<exists>r < k. y = int r \<and> i \<in> clusters n zs ! (ls ! r))"
  proof (intro allI impI)
    fix i assume i: "i < n"
    have "i \<in> (\<Union>l \<in> tops n zs (n - k). clusters n zs ! l)" using tops_cover[OF wf(1), of "n - k"] wf(2) k i by simp
    then obtain l where l: "l \<in> tops n zs (n - k)" "i \<in> clusters n zs ! l" by blast
    then have l': "l < 2 * n - 1" "l < n + length zs" using less wf(2) n by auto
    have "B i \<in> interval n zs B l" by (rule point_in_interval[OF wf(1,2) R(5) l'(2) l(2)])
    moreover have "0 \<le> B i" "nat (B i) < n" using calculation intervals_disjoint[OF wf R(5), of "n - k"] l(1) k by fastforce+
    ultimately have "vec_at tmpidx (B i) = Inr (int l)" using I l(1) by (auto simp: vec_at_def)
    moreover obtain r where "r < k" "ls ! r = l" "ci ! l = Some (int r)" using ci(3) I l(1) l' by blast
    ultimately show "\<exists>y. bindE (vec_at (rp_p rep) (int i)) (\<lambda>q. bindE (vec_at tmpidx q) (\<lambda>c. place_at ci c)) = Inr y \<and>
        (\<exists>r < k. y = int r \<and> i \<in> clusters n zs ! (ls ! r))"
      using i l(2) l'(1) ci(2) by (auto simp: R(6) place_at_def)
  qed
  from mapE_upt[OF this] obtain cidx where
    cidx: "mapE (\<lambda>i. bindE (vec_at (rp_p rep) (int i)) (\<lambda>q. bindE (vec_at tmpidx q) (\<lambda>c. place_at ci c))) [0..<n] = Inr cidx" "length cidx = n"
      "\<forall>i < n. \<exists>r < k. cidx ! i = int r \<and> i \<in> clusters n zs ! (ls ! r)" by blast
  have "clusterizergetkclusters rep k = Inr (cidx, map int ls)"
    unfolding clusterizergetkclusters_def Let_def R(1) st(1) using n k len cidx(1) by (simp add: ae_assert_def ci(1)[simplified])
  then show ?thesis using cidx(2,3) len by blast
qed

lemma getkclusters_partition:
  assumes rep: "report n zs rep" and k: "0 < k" "k \<le> n"
  defines "ls \<equiv> sorted_list_of_set (tops n zs (n - k))"
  shows "\<exists>cidx. clusterizergetkclusters rep k = Inr (cidx, map int ls) \<and> length cidx = n \<and> length ls = k \<and>
    (\<forall>i < n. \<forall>c. cidx ! i = int c \<and> c < k \<longleftrightarrow> c < k \<and> i \<in> clusters n zs ! (ls ! c)) \<and> (\<forall>i < n. \<exists>c < k. cidx ! i = int c)"
proof -
  have R: "wf_merges n zs" "length zs = n - 1" "rp_npoints rep = n" using rep by (auto simp: report_def)
  have "\<exists>cidx. clusterizergetkclusters rep k = Inr (cidx, map int ls) \<and> length cidx = n \<and> length ls = k \<and> (\<forall>i < n. \<exists>c < k. cidx ! i = int c \<and> i \<in> clusters n zs ! (ls ! c))"
  proof (cases "2 \<le> n")
    case True
    from getkclusters_tops[OF rep this k] show ?thesis unfolding ls_def .
  next
    case False
    then have "n = 1" "k = 1" using k by auto
    moreover have "ls = [0]" by (simp add: ls_def \<open>n = 1\<close> \<open>k = 1\<close>)
    ultimately show ?thesis using R by (auto simp: clusterizergetkclusters_def ae_assert_def clusters_leaf)
  qed
  then obtain cidx where cidx: "clusterizergetkclusters rep k = Inr (cidx, map int ls)" "length cidx = n" "length ls = k"
    "\<forall>i < n. \<exists>c < k. cidx ! i = int c \<and> i \<in> clusters n zs ! (ls ! c)" by blast
  have ls: "distinct ls" "set ls = tops n zs (n - k)" by (simp_all add: ls_def)
  have "n - k \<le> length zs" using R k by simp
  note dis = tops_disjoint[OF R(1) this]
  have uniq: "c = c'" if c: "c < k" "c' < k" "i \<in> clusters n zs ! (ls ! c)" "i \<in> clusters n zs ! (ls ! c')" for c c' i
  proof (rule ccontr)
    assume "c \<noteq> c'"
    then have "ls ! c \<noteq> ls ! c'" using ls(1) c(1,2) cidx(3) by (simp add: nth_eq_iff_index_eq)
    moreover have "ls ! c \<in> tops n zs (n - k)" "ls ! c' \<in> tops n zs (n - k)" using ls(2) cidx(3) c(1,2) nth_mem by blast+
    ultimately show False using disjoint_family_onD[OF dis] c(3,4) by blast
  qed
  have "cidx ! i = int c \<and> c < k \<longleftrightarrow> c < k \<and> i \<in> clusters n zs ! (ls ! c)" if "i < n" for i c
    using cidx(4) that uniq by (metis of_nat_eq_iff)
  then show ?thesis using cidx by blast
qed

section \<open>The cut at a distance\<close>

lemma separated_k_spec:
  assumes "length md = n - 1" "0 < k" "k \<le> n"
  shows "\<exists>k'. separated_k n md r k = Inr k' \<and> k \<le> k' \<and> k' \<le> n \<and> (\<forall>j. k \<le> j \<and> j < k' \<longrightarrow> r \<le> md ! (n - 1 - j)) \<and> (k' < n \<longrightarrow> md ! (n - 1 - k') < r)"
  using assms
proof (induction n md r k rule: separated_k.induct)
  case (1 n md r k)
  show ?case
  proof (cases "k < n")
    case True
    have "int n - 1 - int k = int (n - 1 - k)" using True by linarith
    moreover have "n - 1 - k < length md" using True "1.prems" by simp
    ultimately have at: "vec_at md (int n - 1 - int k) = Inr (md ! (n - 1 - k))" by (simp only: vec_at_nat)
    show ?thesis
    proof (cases "r \<le> md ! (n - 1 - k)")
      case ge: True
      obtain k' where k': "separated_k n md r (k + 1) = Inr k'" "k + 1 \<le> k'" "k' \<le> n"
        "\<forall>j. k + 1 \<le> j \<and> j < k' \<longrightarrow> r \<le> md ! (n - 1 - j)" "k' < n \<longrightarrow> md ! (n - 1 - k') < r"
        using "1.IH"[OF True ge] "1.prems" True by auto
      have "separated_k n md r k = Inr k'" using k'(1) True at ge by (simp add: separated_k.simps[of n md r k])
      moreover have "r \<le> md ! (n - 1 - j)" if "k \<le> j" "j < k'" for j using k'(4) ge that by (cases "j = k") auto
      ultimately show ?thesis using k'(2,3,5) by auto
    next
      case False
      then show ?thesis using True at by (auto simp: separated_k.simps[of n md r k])
    qed
  next
    case False
    then have "separated_k n md r k = Inr k" by (simp add: separated_k.simps[of n md r k])
    then show ?thesis using False "1.prems" by auto
  qed
qed

lemma same_cluster_close:
  assumes cl: "complete_linkage D n zs md" and D: "dissimilarity n D" "length zs = n - 1" and k: "0 < k" "k \<le> n" "k < n \<longrightarrow> md ! (n - 1 - k) < r"
    and l: "l \<in> tops n zs (n - k)" "i \<in> clusters n zs ! l" "j \<in> clusters n zs ! l" "i \<noteq> j"
  shows "D i j < r"
proof -
  have "n - k \<le> length zs" using D(2) k by simp
  from cluster_diameter[OF cl D(1) tops_less[OF l(1)] this l(2-4)] have "0 < n - k" "D i j \<le> md ! (n - k - 1)" by auto
  then show ?thesis using k(3) by (simp add: diff_right_commute)
qed

lemma other_cluster_far:
  assumes cl: "complete_linkage D n zs md" and D: "length zs = n - 1" and k: "0 < k" "k \<le> n" "1 < k \<longrightarrow> r \<le> md ! (n - k)"
    and l: "l \<in> tops n zs (n - k)" "l' \<in> tops n zs (n - k)" "l \<noteq> l'"
  shows "\<exists>i \<in> clusters n zs ! l. \<exists>j \<in> clusters n zs ! l'. r \<le> D i j"
proof -
  note C = complete_linkageD[OF cl]
  have "card {l, l'} \<le> card (tops n zs (n - k))" using l by (intro card_mono) auto
  moreover have "card (tops n zs (n - k)) + (n - k) = n" using card_tops[OF C(1), of "n - k"] D k by auto
  ultimately have "1 < k" using l(3) k by simp
  then have "n - k < length zs" using D k by simp
  from C(4)[OF this l] have far: "r \<le> link D (clusters n zs ! l) (clusters n zs ! l')" using k(3) \<open>1 < k\<close> by simp
  have less: "l < n + length zs" "l' < n + length zs" using l tops_less[of _ n zs "n - k"] D k by force+
  from link_attained[of "clusters n zs ! l" "clusters n zs ! l'" D] show ?thesis
    using far clusters_nonempty[OF C(1)] finite_cluster[OF C(1)] less by fastforce
qed

lemma runahc_complete_linkage:
  assumes D: "distances n D" and s: "holds_dist n D (cl_d s)" "cl_npoints s = n" "cl_ahcalgo s = 0"
  shows "\<exists>rep d zs. clusterizerrunahc s = Inr (rep, s\<lparr>cl_d := d\<rparr>) \<and> report n zs rep \<and> complete_linkage D n zs (rp_mergedist rep)"
proof (cases "2 \<le> n")
  case True
  from run_merges_complete_linkage[OF True D s(1)] obtain mg zs where
    mg: "run_merges n 0 (cl_d s) = Inr mg" "mg_z mg = int_merges zs" "length zs = n - 1" "complete_linkage D n zs (mg_dist mg)" by blast
  have wf: "wf_merges n zs" using mg(4) by (simp add: complete_linkage_def)
  obtain p pm B where lay: "layout n (int_merges zs) = Inr (p, pm)" "laid_out n zs B" "p = map B [0..<n]" "pm_rows n zs B pm"
    using layout_laid_out[OF wf mg(3) True] by (elim exE conjE) (rule that)
  have label: "permute_label n p (int a) = Inr (if a < n then B a else int a)" for a
    by (simp add: permute_label_def lay(3))
  have pz: "mapE (\<lambda>(a, b). bindE (permute_label n p a) (\<lambda>a. bindE (permute_label n p b) (\<lambda>b. Inr (a, b)))) (int_merges zs)
    = Inr (map (\<lambda>(a, b). (if a < n then B a else int a, if b < n then B b else int b)) zs)"
    by (intro mapE_all) (auto simp: label)
  have "\<exists>rep. clusterizerrunahc s = Inr (rep, s\<lparr>cl_d := mg_d mg\<rparr>) \<and> rp_npoints rep = n \<and> rp_z rep = int_merges zs \<and> rp_p rep = p \<and> rp_pm rep = pm \<and> rp_mergedist rep = mg_dist mg"
    using True by (simp add: clusterizerrunahc_def clusterizerrunahcinternal_def empty_report_def s mg(1,2) lay(1) pz)
  then obtain rep where "clusterizerrunahc s = Inr (rep, s\<lparr>cl_d := mg_d mg\<rparr>)" "rp_npoints rep = n" "rp_z rep = int_merges zs" "rp_p rep = p" "rp_pm rep = pm" "rp_mergedist rep = mg_dist mg"
    by blast
  moreover from this have "report n zs rep" using wf mg(3) lay(2-4) unfolding report_def by blast
  ultimately show ?thesis using mg(4) by auto
next
  case False
  then show ?thesis
    by (intro exI[of _ "empty_report n"] exI[of _ "cl_d s"] exI[of _ "[]"])
      (auto simp: clusterizerrunahc_def empty_report_def s report_def complete_linkage_Nil wf_merges_def)
qed

text \<open>What the cut at a distance promises: points of a cluster are closer than \<open>r\<close>, any two clusters have points
  that are not.\<close>

definition separated :: "nat \<Rightarrow> (nat \<Rightarrow> nat \<Rightarrow> real) \<Rightarrow> real \<Rightarrow> nat \<Rightarrow> int list \<Rightarrow> bool" where
  "separated n D r k cidx \<longleftrightarrow> 0 < k \<and> k \<le> n \<and> length cidx = n \<and> set cidx = int ` {..<k} \<and>
     (\<forall>i < n. \<forall>j < n. i \<noteq> j \<and> cidx ! i = cidx ! j \<longrightarrow> D i j < r) \<and>
     (\<forall>c < k. \<forall>c' < k. c \<noteq> c' \<longrightarrow> (\<exists>i < n. \<exists>j < n. cidx ! i = int c \<and> cidx ! j = int c' \<and> r \<le> D i j))"

lemma separated_clusters:
  assumes rep: "report n zs rep" "complete_linkage D n zs (rp_mergedist rep)" and D: "dissimilarity n D" and n: "0 < n" and r: "0 \<le> r"
  shows "\<exists>k cidx. clusterizerseparatedbydist rep r = Inr (k, cidx, map int (sorted_list_of_set (tops n zs (n - k)))) \<and> separated n D r k cidx"
proof -
  have R: "rp_npoints rep = n" "wf_merges n zs" "length zs = n - 1" using rep(1) by (auto simp: report_def)
  have "length (rp_mergedist rep) = n - 1" using rep(2) R by (simp add: complete_linkage_def)
  from separated_k_spec[OF this, of 1 r] n obtain k where k: "separated_k n (rp_mergedist rep) r 1 = Inr k" "0 < k" "k \<le> n"
    "\<forall>j. 1 \<le> j \<and> j < k \<longrightarrow> r \<le> rp_mergedist rep ! (n - 1 - j)" "k < n \<longrightarrow> rp_mergedist rep ! (n - 1 - k) < r" by auto
  define ls where "ls = sorted_list_of_set (tops n zs (n - k))"
  obtain cidx where c: "clusterizergetkclusters rep k = Inr (cidx, map int ls)" "length cidx = n" "length ls = k"
    "\<forall>i < n. \<forall>c. cidx ! i = int c \<and> c < k \<longleftrightarrow> c < k \<and> i \<in> clusters n zs ! (ls ! c)" "\<forall>i < n. \<exists>c < k. cidx ! i = int c"
    using getkclusters_partition[OF rep(1) k(2,3)] unfolding ls_def by blast
  have ls: "ls ! c \<in> tops n zs (n - k)" if "c < k" for c using that c(3) nth_mem[of c ls] by (simp add: ls_def)
  have sub: "clusters n zs ! (ls ! c) \<noteq> {} \<and> clusters n zs ! (ls ! c) \<subseteq> {..<n}" if "c < k" for c
    using clusters_nonempty[OF R(2)] tops_less[OF ls[OF that]] R(3) k by force
  have "clusterizerseparatedbydist rep r = Inr (k, cidx, map int ls)" using r k(1) c(1) by (simp add: clusterizerseparatedbydist_def ae_assert_def R(1))
  moreover have "set cidx = int ` {..<k}"
  proof -
    have "\<exists>i < n. cidx ! i = int x" if x: "x < k" for x
    proof -
      obtain i where "i \<in> clusters n zs ! (ls ! x)" "i < n" using sub[OF x] by fastforce
      then show ?thesis using c(4) x by blast
    qed
    then have "int ` {..<k} \<subseteq> set cidx" using c(2) by (force simp: set_conv_nth)
    moreover have "set cidx \<subseteq> int ` {..<k}" using c(2,5) by (force simp: set_conv_nth)
    ultimately show ?thesis by blast
  qed
  moreover have "D i j < r" if ij: "i < n" "j < n" "i \<noteq> j" "cidx ! i = cidx ! j" for i j
  proof -
    obtain x where x: "x < k" "cidx ! i = int x" using c(5) ij(1) by blast
    then have "i \<in> clusters n zs ! (ls ! x)" "j \<in> clusters n zs ! (ls ! x)" using c(4) ij by auto
    then show ?thesis by (rule same_cluster_close[OF rep(2) D R(3) k(2,3,5) ls[OF x(1)] _ _ ij(3)])
  qed
  moreover have "\<exists>i < n. \<exists>j < n. cidx ! i = int x \<and> cidx ! j = int x' \<and> r \<le> D i j" if x: "x < k" "x' < k" "x \<noteq> x'" for x x'
  proof -
    have "ls ! x \<noteq> ls ! x'" using x c(3) by (simp add: ls_def nth_eq_iff_index_eq)
    moreover have "1 < k \<longrightarrow> r \<le> rp_mergedist rep ! (n - k)" using k(3) k(4)[rule_format, of "k - 1"] by (auto simp: diff_diff_right)
    ultimately obtain i j where "i \<in> clusters n zs ! (ls ! x)" "j \<in> clusters n zs ! (ls ! x')" "r \<le> D i j"
      using other_cluster_far[OF rep(2) R(3) k(2,3) _ ls[OF x(1)] ls[OF x(2)]] by blast
    moreover from this have "i < n" "j < n" using sub[OF x(1)] sub[OF x(2)] by auto
    ultimately show ?thesis using x c(4) by blast
  qed
  ultimately show ?thesis using k(2,3) c(2) unfolding ls_def separated_def by blast
qed

section \<open>The interface of the clusterizer\<close>

text \<open>A client gives the distances row by row and cuts the resulting tree.\<close>

locale distance_clusterizer =
  fixes run :: "nat \<Rightarrow> cell list \<Rightarrow> cpp_error + 'rep" and cut :: "'rep \<Rightarrow> real \<Rightarrow> cpp_error + (nat \<times> int list \<times> int list)"
  assumes run_cut: "0 < n \<Longrightarrow> distances n D \<Longrightarrow> length mat = n * n \<Longrightarrow> \<forall>i < n. \<forall>j < n. mat ! (i * n + j) = Val (D i j) \<Longrightarrow>
    \<exists>rep. run n mat = Inr rep \<and> (\<forall>r \<ge> 0. \<exists>k cidx cz. cut rep r = Inr (k, cidx, cz) \<and> separated n D r k cidx)"

definition cluster_matrix :: "nat \<Rightarrow> cell list \<Rightarrow> cpp_error + ahcreport" where
  "cluster_matrix n mat = bindE (setcontent n n mat) (\<lambda>d. bindE (clusterizersetdistances d n n True clusterizercreate) (\<lambda>s.
     bindE (clusterizerrunahc s) (\<lambda>(rep, s). Inr rep)))"

lemma set_run_complete_linkage:
  assumes "distances n D" "square n c" "\<forall>i < n. \<forall>j < n. i < j \<longrightarrow> c ! i ! j = Val (D i j)"
  shows "\<exists>s rep s' zs. clusterizersetdistances c n n True clusterizercreate = Inr s \<and> clusterizerrunahc s = Inr (rep, s') \<and>
    report n zs rep \<and> complete_linkage D n zs (rp_mergedist rep)"
proof -
  obtain m where "clusterizersetdistances c n n True clusterizercreate = Inr (clusterizercreate\<lparr>cl_npoints := n, cl_nfeatures := 0, cl_disttype := -1, cl_d := m\<rparr>)"
    "holds_dist n D m" using clusterizersetdistances_upper[OF assms] by blast
  then show ?thesis
    using runahc_complete_linkage[OF assms(1), of "clusterizercreate\<lparr>cl_npoints := n, cl_nfeatures := 0, cl_disttype := -1, cl_d := m\<rparr>"]
    by (simp add: clusterizercreate_def) blast
qed

lemma cluster_matrix_complete_linkage:
  assumes "length mat = n * n" "\<forall>i < n. \<forall>j < n. mat ! (i * n + j) = Val (D i j)" "distances n D"
  shows "\<exists>rep zs. cluster_matrix n mat = Inr rep \<and> report n zs rep \<and> complete_linkage D n zs (rp_mergedist rep)"
proof -
  obtain c where c: "setcontent n n mat = Inr c" "square n c" "\<forall>i < n. \<forall>j < n. c ! i ! j = Val (D i j)"
    using setcontent_square[OF assms(1,2)] by blast
  obtain s rep s' zs where "clusterizersetdistances c n n True clusterizercreate = Inr s" "clusterizerrunahc s = Inr (rep, s')"
    "report n zs rep" "complete_linkage D n zs (rp_mergedist rep)"
    using set_run_complete_linkage[OF assms(3) c(2)] c(3) by blast
  then show ?thesis by (auto simp: cluster_matrix_def c(1))
qed

interpretation ahc: distance_clusterizer cluster_matrix clusterizerseparatedbydist
proof
  fix n D mat assume a: "0 < n" "distances n D" "length mat = n * n" "\<forall>i < n. \<forall>j < n. mat ! (i * n + j) = Val (D i j)"
  obtain rep zs where rep: "cluster_matrix n mat = Inr rep" "report n zs rep" "complete_linkage D n zs (rp_mergedist rep)"
    using cluster_matrix_complete_linkage[OF a(3,4,2)] by blast
  have "dissimilarity n D" using a(2) by (simp add: distances_def)
  from separated_clusters[OF rep(2,3) this a(1)] rep(1)
  show "\<exists>rep. cluster_matrix n mat = Inr rep \<and> (\<forall>r \<ge> 0. \<exists>k cidx cz. clusterizerseparatedbydist rep r = Inr (k, cidx, cz) \<and> separated n D r k cidx)"
    by blast
qed

end
