(* ===== verification/ClusterSpec.thy ===== *)
theory ClusterSpec
  imports ClusterCut
begin

text \<open>
  The properties of the clusterizer: the distances it refuses, the merges, the layout of the clusters,
  the cut into a number of clusters and the cut at a distance.
\<close>

section \<open>The layout\<close>

lemma places_injective:
  assumes wf: "wf_merges n zs" "length zs = n - 1" "2 \<le> n" and B: "laid_out n zs B"
  shows "inj_on B {..<n}" "B ` {..<n} \<subseteq> {0..<int n}"
proof -
  have iv: "interval n zs B i = {B i}" if "i < n" for i using that by (auto simp: interval_def clusters_leaf)
  have d: "disjoint_family_on (interval n zs B) {..<n}" "\<forall>l \<in> {..<n}. interval n zs B l \<subseteq> {0..<int n}"
    using intervals_disjoint[OF wf B, of 0] by auto
  show "inj_on B {..<n}"
  proof (rule inj_onI, rule ccontr)
    fix i j assume "i \<in> {..<n}" "j \<in> {..<n}" "B i = B j" "i \<noteq> j"
    then show False using disjoint_family_onD[OF d(1), of i j] iv by auto
  qed
  show "B ` {..<n} \<subseteq> {0..<int n}" using d(2) iv by auto
qed

lemma cluster_interval:
  assumes wf: "wf_merges n zs" "length zs = n - 1" "2 \<le> n" and B: "laid_out n zs B" and l: "l < n + length zs"
  shows "B ` (clusters n zs ! l) = interval n zs B l"
proof (rule card_subset_eq)
  show "B ` (clusters n zs ! l) \<subseteq> interval n zs B l" using point_in_interval[OF wf(1,2) B l] by auto
  have "inj_on B (clusters n zs ! l)" using clusters_nonempty[OF wf(1) l] places_injective(1)[OF wf B] by (blast intro: inj_on_subset)
  then show "card (B ` (clusters n zs ! l)) = card (interval n zs B l)" by (simp add: card_image interval_def)
qed (simp add: interval_def)

lemma report_layout:
  assumes rep: "report n zs rep" and n: "2 \<le> n"
  shows "bij_betw (\<lambda>i. rp_p rep ! i) {..<n} {0..<int n}" "l < n + length zs \<Longrightarrow> \<exists>b. (\<lambda>i. rp_p rep ! i) ` (clusters n zs ! l) = {b..<b + points n zs l}"
proof -
  obtain B where B: "laid_out n zs B" "rp_p rep = map B [0..<n]" and wf: "wf_merges n zs" "length zs = n - 1"
    using rep n by (auto simp: report_def)
  have eq: "rp_p rep ! i = B i" if "i < n" for i using that by (simp add: B(2))
  have "bij_betw B {..<n} {0..<int n}"
    using places_injective[OF wf n B(1)] card_subset_eq[of "{0..<int n}" "B ` {..<n}"] by (simp add: bij_betw_def card_image)
  then show "bij_betw (\<lambda>i. rp_p rep ! i) {..<n} {0..<int n}" by (rule bij_betw_cong[THEN iffD1, rotated]) (simp add: eq)
  assume l: "l < n + length zs"
  have "(\<lambda>i. rp_p rep ! i) ` (clusters n zs ! l) = B ` (clusters n zs ! l)"
    using clusters_nonempty[OF wf(1) l] eq by (intro image_cong) auto
  then show "\<exists>b. (\<lambda>i. rp_p rep ! i) ` (clusters n zs ! l) = {b..<b + points n zs l}"
    using cluster_interval[OF wf n B(1) l] by (auto simp: interval_def)
qed

section \<open>Two runs on a state\<close>

text \<open>With Ward's method on two points the matrix of the state is squared in place, so a second run records another
  distance.\<close>

lemma ward_merges:
  assumes "0 \<le> x" "x < 10 ^ 149"
  shows "run_merges 2 4 [[0, x], [x, 0]] = Inr \<lparr>mg_d = [[0, x * x / 2], [x * x / 2, 0]], mg_cidx = [2, -1], mg_csizes = [2, 0],
    mg_nnidx = [-1, 0], mg_z = [(0, 1)], mg_dist = [x * x / 2]\<rparr>"
proof -
  have "x * x \<le> 10 ^ 149 * 10 ^ 149" using assms by (intro mult_mono) auto
  then have "x < ae_maxrealnumber" "x * x / 2 < ae_maxrealnumber" using assms by (simp_all add: ae_maxrealnumber_def)
  moreover have "[0..<2] = [0, 1]" "replicate 2 (1 :: int) = [1, 1]" by (simp_all add: upt_rec numeral_2_eq_2)
  ultimately show ?thesis
    by (simp add: run_merges_def nn_scan_def mat_at_def vec_at_def vec_put_def ae_assert_def ward_squares_def merge_step_def
      merge_rows_def select_pair_def update_dist_def update_nn_def)
qed

lemma ward_run:
  assumes "0 \<le> x" "x < 10 ^ 149" "cl_npoints s = 2" "cl_ahcalgo s = 4" "cl_d s = [[0, x], [x, 0]]"
  shows "\<exists>rep. clusterizerrunahc s = Inr (rep, s\<lparr>cl_d := [[0, x * x / 2], [x * x / 2, 0]]\<rparr>) \<and> rp_mergedist rep = [x * x / 2]"
proof -
  have "wf_merges 2 [(0, 1)]" by (simp add: wf_merges_def)
  from layout_laid_out[OF this] obtain p pm where lay: "layout 2 [(0, 1)] = Inr (p, pm)" "length p = 2" by auto
  moreover have "p \<noteq> []" using lay(2) by auto
  ultimately show ?thesis
    by (simp add: clusterizerrunahc_def clusterizerrunahcinternal_def assms(3-5) ward_merges[OF assms(1,2)] permute_label_def vec_at_def)
qed

lemma ward_second_run:
  "\<exists>s rep s' rep' s''. bindE (clusterizersetdistances [[Val 0, Val 1], [Val 1, Val 0]] 2 2 True clusterizercreate) (clusterizersetahcalgo 4) = Inr s \<and>
    clusterizerrunahc s = Inr (rep, s') \<and> clusterizerrunahc s' = Inr (rep', s'') \<and> rp_mergedist rep = [1 / 2] \<and> rp_mergedist rep' = [1 / 8]"
proof -
  let ?s = "clusterizercreate\<lparr>cl_npoints := 2, cl_nfeatures := 0, cl_disttype := -1, cl_d := [[0, 1], [1, 0]], cl_ahcalgo := 4\<rparr>"
  have "[0..<2] = [0, 1]" by (simp add: upt_rec)
  then have "bindE (clusterizersetdistances [[Val 0, Val 1], [Val 1, Val 0]] 2 2 True clusterizercreate) (clusterizersetahcalgo 4) = Inr ?s"
    by (simp add: clusterizersetdistances_def copy_row_def mat_at_def mat_put_def vec_at_def vec_put_def check_dist_def ae_assert_def
      clusterizersetahcalgo_def numeral_2_eq_2)
  moreover obtain rep where r1: "clusterizerrunahc ?s = Inr (rep, ?s\<lparr>cl_d := [[0, 1 / 2], [1 / 2, 0]]\<rparr>)" "rp_mergedist rep = [1 / 2]"
    using ward_run[of 1 ?s] by auto
  moreover obtain rep' s'' where r2: "clusterizerrunahc (?s\<lparr>cl_d := [[0, 1 / 2], [1 / 2, 0]]\<rparr>) = Inr (rep', s'')" "rp_mergedist rep' = [1 / 8]"
    using ward_run[of "1 / 2" "?s\<lparr>cl_d := [[0, 1 / 2], [1 / 2, 0]]\<rparr>"] by auto
  ultimately show ?thesis by (intro exI conjI)
qed

text \<open>The report of no points cannot be cut.\<close>

lemma separatedbydist_empty: "clusterizerseparatedbydist (empty_report 0) r = Inl ApError"
  by (simp add: clusterizerseparatedbydist_def ae_assert_def separated_k.simps empty_report_def clusterizergetkclusters_def)

text \<open>The cut at a correlation is the cut at a distance.\<close>

lemma separatedbycorr_dist:
  "clusterizerseparatedbycorr rep r = (if -1 \<le> r \<and> r \<le> 1 then clusterizerseparatedbydist rep (1 - r) else Inl ApError)"
  by (simp add: clusterizerseparatedbycorr_def clusterizerseparatedbydist_def ae_assert_def)

section \<open>Properties of the clusterizer\<close>

text \<open>C34. The distances above the diagonal are checked when they are set: the call succeeds when all of them are
  non-negative numbers, and throws when one is negative or not a number. What the other cells hold does
  not matter.\<close>

theorem setdistances_checks:
  assumes "square n c" "\<forall>i < n. \<forall>j < n. i < j \<longrightarrow> c ! i ! j \<noteq> Junk"
  shows "if \<forall>i < n. \<forall>j < n. i < j \<longrightarrow> (\<exists>v \<ge> 0. c ! i ! j = Val v) then \<exists>s'. clusterizersetdistances c n n True s = Inr s'
    else clusterizersetdistances c n n True s = Inl ApError"
  using clusterizersetdistances_checked[OF assms, of s] unfolding good_cell_def .

theorem setdistances_checks_witness:
  "clusterizersetdistances [[Junk, NotANumber], [Junk, Junk]] 2 2 True clusterizercreate = Inl ApError"
proof -
  have "square 2 [[Junk, NotANumber], [Junk, Junk]]" by (auto simp: square_def less_Suc_eq numeral_2_eq_2)
  moreover have "\<forall>i < 2. \<forall>j < 2. i < j \<longrightarrow> [[Junk, NotANumber], [Junk, Junk]] ! i ! j \<noteq> Junk" by (auto simp: less_Suc_eq numeral_2_eq_2)
  moreover have "\<not> (\<forall>i < 2. \<forall>j < 2. i < j \<longrightarrow> (\<exists>v \<ge> 0. [[Junk, NotANumber], [Junk, Junk]] ! i ! j = Val v))"
    by (intro notI, drule spec[of _ 0], drule mp, simp, drule spec[of _ 1]) simp
  ultimately show ?thesis using setdistances_checks[of 2 "[[Junk, NotANumber], [Junk, Junk]]" clusterizercreate] by simp
qed

text \<open>C30. The run of the clusterizer is complete linkage. From a matrix of distances, the report lists one merge
  less than there are points; every merge joins two clusters that are present, at the smallest distance
  of any two, where the distance of two clusters is the largest of their points; the recorded distance is
  that one, and the recorded distances grow.\<close>

theorem clusterizer_complete_linkage:
  assumes "distances n D" "square n c" "\<forall>i < n. \<forall>j < n. i < j \<longrightarrow> c ! i ! j = Val (D i j)"
  shows "\<exists>s rep s' zs. clusterizersetdistances c n n True clusterizercreate = Inr s \<and> clusterizerrunahc s = Inr (rep, s') \<and>
    rp_npoints rep = n \<and> rp_z rep = int_merges zs \<and> length zs = n - 1 \<and> complete_linkage D n zs (rp_mergedist rep) \<and> sorted (rp_mergedist rep)"
proof -
  obtain s rep s' zs where rep: "clusterizersetdistances c n n True clusterizercreate = Inr s" "clusterizerrunahc s = Inr (rep, s')"
    "report n zs rep" "complete_linkage D n zs (rp_mergedist rep)"
    using set_run_complete_linkage[OF assms] by blast
  have "sorted (rp_mergedist rep)"
    using merge_distances_sorted[OF rep(4)] complete_linkageD(2)[OF rep(4)] assms(1) by (auto simp: sorted_iff_nth_mono distances_def)
  then show ?thesis using rep by (auto simp: report_def)
qed

text \<open>Three points on a line, for the concrete runs.\<close>

definition three_matrix :: matrix where
  "three_matrix = [[0, 1 / 2, 1], [1 / 2, 0, 3 / 5], [1, 3 / 5, 0]]"

definition three_points :: clusterizerstate where
  "three_points = clusterizercreate\<lparr>cl_npoints := 3, cl_disttype := -1, cl_d := three_matrix\<rparr>"

abbreviation three_dist :: "nat \<Rightarrow> nat \<Rightarrow> real" where
  "three_dist i j \<equiv> three_matrix ! i ! j"

lemma less_3: "i < 3 \<longleftrightarrow> i = 0 \<or> i = 1 \<or> i = (2 :: nat)"
  by auto

lemma three_distances: "distances 3 three_dist"
  by (auto simp: distances_def dissimilarity_def less_3 three_matrix_def ae_maxrealnumber_def)

lemma three_holds: "holds_dist 3 three_dist (cl_d three_points)" "cl_npoints three_points = 3" "cl_ahcalgo three_points = 0"
  by (auto simp: holds_dist_def square_def less_3 three_points_def three_matrix_def clusterizercreate_def)

theorem clusterizer_complete_linkage_witness:
  "\<exists>s rep s'. clusterizersetdistances (map (map Val) three_matrix) 3 3 True clusterizercreate = Inr s \<and> clusterizerrunahc s = Inr (rep, s') \<and>
    length (rp_z rep) = 2 \<and> sorted (rp_mergedist rep)"
proof -
  have "square 3 (map (map Val) three_matrix)" "\<forall>i < 3. \<forall>j < 3. i < j \<longrightarrow> map (map Val) three_matrix ! i ! j = Val (three_dist i j)"
    by (auto simp: square_def less_3 three_matrix_def)
  from clusterizer_complete_linkage[OF three_distances this] show ?thesis by auto
qed

text \<open>C33. The report lays the clusters out: its permutation numbers the points from 0 on, and the points of every
  cluster of the tree get consecutive numbers.\<close>

theorem runahc_layout:
  assumes "distances n D" "holds_dist n D (cl_d s)" "cl_npoints s = n" "cl_ahcalgo s = 0" "0 < n"
  shows "\<exists>rep s' zs. clusterizerrunahc s = Inr (rep, s') \<and> rp_z rep = int_merges zs \<and> complete_linkage D n zs (rp_mergedist rep) \<and>
    bij_betw (\<lambda>i. rp_p rep ! i) {..<n} {0..<int n} \<and>
    (\<forall>l < n + length zs. \<exists>b. (\<lambda>i. rp_p rep ! i) ` (clusters n zs ! l) = {b..<b + int (card (clusters n zs ! l))})"
proof (cases "n = 1")
  case True
  then have "clusterizerrunahc s = Inr (\<lparr>rp_terminationtype = 1, rp_npoints = 1, rp_p = [0], rp_z = [], rp_pz = [], rp_pm = [], rp_mergedist = []\<rparr>, s)"
    using assms(3) by (simp add: clusterizerrunahc_def empty_report_def)
  then show ?thesis by (simp add: True complete_linkage_Nil clusters_leaf) (auto simp: bij_betw_def inj_on_def)
next
  case False
  then have "2 \<le> n" using assms(5) by simp
  obtain rep d zs where rep: "clusterizerrunahc s = Inr (rep, s\<lparr>cl_d := d\<rparr>)" "report n zs rep" "complete_linkage D n zs (rp_mergedist rep)"
    using runahc_complete_linkage[OF assms(1-4)] by blast
  moreover from rep(2) have "rp_z rep = int_merges zs" by (simp add: report_def)
  ultimately show ?thesis using report_layout[OF rep(2) \<open>2 \<le> n\<close>] by blast
qed

theorem runahc_layout_witness:
  "\<exists>rep s'. clusterizerrunahc three_points = Inr (rep, s') \<and> bij_betw (\<lambda>i. rp_p rep ! i) {..<3} {0..<3}"
  using runahc_layout[OF three_distances three_holds] by auto

text \<open>C32. Asking for \<open>k\<close> clusters gives the clusters that are present when all but the last \<open>k - 1\<close> merges are done:
  \<open>cz\<close> lists their labels in order, and \<open>cidx\<close> gives the position of the cluster of each point in that
  list. A number of clusters that is zero or larger than the number of points is an error.\<close>

theorem getkclusters_level:
  assumes "distances n D" "holds_dist n D (cl_d s)" "cl_npoints s = n" "cl_ahcalgo s = 0" "0 < n"
  shows "\<exists>rep s' zs. clusterizerrunahc s = Inr (rep, s') \<and> complete_linkage D n zs (rp_mergedist rep) \<and>
    (\<forall>k. if 0 < k \<and> k \<le> n
       then \<exists>cidx ls. clusterizergetkclusters rep k = Inr (cidx, map int ls) \<and> ls = sorted_list_of_set (tops n zs (n - k)) \<and>
         length ls = k \<and> length cidx = n \<and>
         (\<forall>i < n. \<exists>c < k. cidx ! i = int c) \<and> (\<forall>i < n. \<forall>c < k. cidx ! i = int c \<longleftrightarrow> i \<in> clusters n zs ! (ls ! c))
       else clusterizergetkclusters rep k = Inl ApError)"
proof -
  obtain rep d zs where rep: "clusterizerrunahc s = Inr (rep, s\<lparr>cl_d := d\<rparr>)" "report n zs rep" "complete_linkage D n zs (rp_mergedist rep)"
    using runahc_complete_linkage[OF assms(1-4)] by blast
  have "clusterizergetkclusters rep k = Inl ApError" if "\<not> (0 < k \<and> k \<le> n)" for k
  proof -
    have "\<not> (k \<le> n \<and> (k > 0 \<or> n = 0))" "rp_npoints rep = n" using that assms(5) rep(2) by (auto simp: report_def)
    then show ?thesis by (simp only: clusterizergetkclusters_def Let_def ae_assert_def if_False bindE_simps)
  qed
  moreover have "\<exists>cidx ls. clusterizergetkclusters rep k = Inr (cidx, map int ls) \<and> ls = sorted_list_of_set (tops n zs (n - k)) \<and>
         length ls = k \<and> length cidx = n \<and>
         (\<forall>i < n. \<exists>c < k. cidx ! i = int c) \<and> (\<forall>i < n. \<forall>c < k. cidx ! i = int c \<longleftrightarrow> i \<in> clusters n zs ! (ls ! c))"
    if "0 < k" "k \<le> n" for k using getkclusters_partition[OF rep(2) that] by blast
  ultimately show ?thesis using rep(1,3) by (intro exI[of _ rep] exI[of _ zs] exI[of _ "s\<lparr>cl_d := d\<rparr>"]) (simp only: if_bool_eq_conj, blast)
qed

theorem getkclusters_level_witness:
  "\<exists>rep s' cidx ls. clusterizerrunahc three_points = Inr (rep, s') \<and> clusterizergetkclusters rep 2 = Inr (cidx, map int ls) \<and> length ls = 2 \<and>
    clusterizergetkclusters rep 4 = Inl ApError"
proof -
  have "0 < (3 :: nat)" by simp
  from getkclusters_level[OF three_distances three_holds this] obtain rep s' zs where rep: "clusterizerrunahc three_points = Inr (rep, s')"
    and k: "\<forall>k. if 0 < k \<and> k \<le> 3
       then \<exists>cidx ls. clusterizergetkclusters rep k = Inr (cidx, map int ls) \<and> ls = sorted_list_of_set (tops 3 zs (3 - k)) \<and>
         length ls = k \<and> length cidx = 3 \<and>
         (\<forall>i < 3. \<exists>c < k. cidx ! i = int c) \<and> (\<forall>i < 3. \<forall>c < k. cidx ! i = int c \<longleftrightarrow> i \<in> clusters 3 zs ! (ls ! c))
       else clusterizergetkclusters rep k = Inl ApError" by blast
  from spec[OF k, of 2] spec[OF k, of 4] rep show ?thesis by auto
qed

text \<open>C31. The cut at a distance \<open>r\<close>: two points of a cluster are closer than \<open>r\<close>, any two clusters have points at a
  distance of \<open>r\<close> or more, every cluster has a point, and the number of clusters is returned. A negative
  distance is an error.\<close>

theorem separatedbydist_separates:
  assumes "distances n D" "holds_dist n D (cl_d s)" "cl_npoints s = n" "cl_ahcalgo s = 0" "0 < n"
  shows "\<exists>rep s'. clusterizerrunahc s = Inr (rep, s') \<and>
    (\<forall>r. if 0 \<le> r
       then \<exists>k cidx cz. clusterizerseparatedbydist rep r = Inr (k, cidx, cz) \<and> length cidx = n \<and> set cidx = int ` {..<k} \<and>
         (\<forall>i < n. \<forall>j < n. i \<noteq> j \<and> cidx ! i = cidx ! j \<longrightarrow> D i j < r) \<and>
         (\<forall>c < k. \<forall>c' < k. c \<noteq> c' \<longrightarrow> (\<exists>i < n. \<exists>j < n. cidx ! i = int c \<and> cidx ! j = int c' \<and> r \<le> D i j))
       else clusterizerseparatedbydist rep r = Inl ApError)"
proof -
  obtain rep d zs where rep: "clusterizerrunahc s = Inr (rep, s\<lparr>cl_d := d\<rparr>)" "report n zs rep" "complete_linkage D n zs (rp_mergedist rep)"
    using runahc_complete_linkage[OF assms(1-4)] by blast
  have D: "dissimilarity n D" using assms(1) by (simp add: distances_def)
  have "clusterizerseparatedbydist rep r = Inl ApError" if "\<not> 0 \<le> r" for r using that by (simp add: clusterizerseparatedbydist_def ae_assert_def)
  then show ?thesis
    using rep(1) separated_clusters[OF rep(2,3) D assms(5), unfolded separated_def] by (intro exI[of _ rep] exI[of _ "s\<lparr>cl_d := d\<rparr>"]) (simp only: if_bool_eq_conj, blast)
qed

text \<open>On three points the distance between two clusters, in the sense of their closest points, is below the cut.\<close>

theorem separatedbydist_separates_witness:
  "\<exists>rep s' k cidx cz. clusterizerrunahc three_points = Inr (rep, s') \<and> clusterizerseparatedbydist rep (3 / 4) = Inr (k, cidx, cz) \<and>
    (\<exists>i < 3. \<exists>j < 3. cidx ! i \<noteq> cidx ! j \<and> three_dist i j < 3 / 4)"
proof -
  have "0 < (3 :: nat)" by simp
  from separatedbydist_separates[OF three_distances three_holds this] obtain rep s' where rep: "clusterizerrunahc three_points = Inr (rep, s')"
    and cut: "\<forall>r. if 0 \<le> r
       then \<exists>k cidx cz. clusterizerseparatedbydist rep r = Inr (k, cidx, cz) \<and> length cidx = 3 \<and> set cidx = int ` {..<k} \<and>
         (\<forall>i < 3. \<forall>j < 3. i \<noteq> j \<and> cidx ! i = cidx ! j \<longrightarrow> three_dist i j < r) \<and>
         (\<forall>c < k. \<forall>c' < k. c \<noteq> c' \<longrightarrow> (\<exists>i < 3. \<exists>j < 3. cidx ! i = int c \<and> cidx ! j = int c' \<and> r \<le> three_dist i j))
       else clusterizerseparatedbydist rep r = Inl ApError" by blast
  have "(0 :: real) \<le> 3 / 4" by simp
  with spec[OF cut, of "3 / 4"] obtain k cidx cz where c: "clusterizerseparatedbydist rep (3 / 4) = Inr (k, cidx, cz)"
    "\<forall>i < 3. \<forall>j < 3. i \<noteq> j \<and> cidx ! i = cidx ! j \<longrightarrow> three_dist i j < 3 / 4"
    by (simp only: if_True) blast
  have "\<not> three_dist 0 2 < 3 / 4" "three_dist 0 1 < 3 / 4" "three_dist 1 2 < 3 / 4" by (simp_all add: three_matrix_def)
  moreover have "cidx ! 0 \<noteq> cidx ! 2" using c(2)[rule_format, of 0 2] calculation(1) by auto
  ultimately have "cidx ! 0 \<noteq> cidx ! 1 \<and> three_dist 0 1 < 3 / 4 \<or> cidx ! 1 \<noteq> cidx ! 2 \<and> three_dist 1 2 < 3 / 4" by auto
  moreover have "(0 :: nat) < 3" "(1 :: nat) < 3" "(2 :: nat) < 3" by simp_all
  ultimately show ?thesis using rep c(1) by blast
qed

end
