(* ===== verification/CSlicePipeline.thy ===== *)
theory CSlicePipeline
  imports CSlice ClusterCut Duplicate
begin

text \<open>
  \<open>cslice.cc\<close> from the trace to the slices: the segments of the trace, the matrix of their Jaccard
  distances, the clusterizer on the matrix, its cut at the distance given on the command line, the
  store of slices and the test at the end.
\<close>

section \<open>The segments\<close>

lemma segments_nonempty: "sq \<noteq> [] \<Longrightarrow> seg \<in> set (segments sq sz cs) \<Longrightarrow> seg \<noteq> []"
  by (induction sq sz cs rule: segments.induct) (auto split: if_splits)

lemma length_segments: "length (segments sq sz cs) \<le> Suc (length cs)"
  by (induction sq sz cs rule: segments.induct) auto

lemma segments_of_trace:
  assumes "csize c \<le> SEG_SIZE"
  shows "\<forall>seg \<in> set (segments [] 0 (c # cs)). seg \<noteq> []" "length (segments [] 0 (c # cs)) \<le> length (c # cs)"
  using assms segments_nonempty[of "[c]" _ "csize c" cs] length_segments[of "[c]" "csize c" cs] by auto

section \<open>The clustering of the segments\<close>

lemma seg_distances:
  assumes "\<forall>seg \<in> set segs. seg \<noteq> []"
  shows "distances (length segs) (seg_distance segs)"
proof -
  have "seg_distance segs i j < ae_maxrealnumber" for i j
    using seg_distance_props(3)[of segs i j] by (simp add: ae_maxrealnumber_def)
  then show ?thesis using assms seg_distance_props by (simp add: distances_def dissimilarity_def)
qed

lemma clustering_matrix: "clustering s = cluster_matrix (unat (cseg_count s)) (cdist s)"
  by (simp add: clustering_def cluster_matrix_def Let_def)

section \<open>The slices\<close>

text \<open>A store of slices: one entry per cluster, with the ids of its segments in order; every segment is in one slice.\<close>

definition sliced :: "(bytes \<rightharpoonup> bytes) \<Rightarrow> nat \<Rightarrow> nat \<Rightarrow> (nat \<Rightarrow> nat list) \<Rightarrow> bool" where
  "sliced tab n k ids \<longleftrightarrow> dom tab = (\<lambda>c. slice_key (int c)) ` {..<k} \<and> inj_on (\<lambda>c. slice_key (int c)) {..<k} \<and>
     (\<forall>c < k. tab (slice_key (int c)) = Some (concat (map id_bytes (ids c))) \<and> ids c \<noteq> [] \<and> sorted_wrt (<) (ids c) \<and> set (ids c) \<subseteq> {..<n}) \<and>
     (\<forall>i < n. \<exists>!c. c < k \<and> i \<in> set (ids c))"

lemma members_cluster:
  assumes "set cidx = int ` {..<k}" "k \<le> 2 ^ 32" "c < k"
  shows "members (slice_key (int c)) cidx = filter (\<lambda>i. cidx ! i = int c) [0..<length cidx]"
  unfolding members_def
proof (rule filter_cong[OF refl])
  fix i assume "i \<in> set [0..<length cidx]"
  then obtain x where "x < k" "cidx ! i = int x" using assms(1) nth_mem[of i cidx] by auto
  then show "(slice_key (cidx ! i) = slice_key (int c)) = (cidx ! i = int c)"
    using slice_key_inject[of "int x" "int c"] assms(2,3) by simp
qed

lemma cluster_table_sliced:
  assumes "set cidx = int ` {..<k}" "k \<le> 2 ^ 32"
  shows "sliced (cluster_table cidx) (length cidx) k (\<lambda>c. filter (\<lambda>i. cidx ! i = int c) [0..<length cidx])"
    (is "sliced _ ?n k ?slice")
proof -
  have key: "slice_key (int c) = slice_key (int c') \<longleftrightarrow> c = c'" if "c < k" "c' < k" for c c'
    using slice_key_inject[of "int c" "int c'"] that assms(2) by simp
  have idx: "\<exists>c < k. cidx ! i = int c" if "i < ?n" for i using assms(1) nth_mem[OF that] by auto
  note mem = members_cluster[OF assms]
  have ne: "?slice c \<noteq> []" if "c < k" for c
  proof -
    have "int c \<in> set cidx" using assms(1) that by simp
    then show ?thesis by (auto simp: in_set_conv_nth filter_empty_conv)
  qed
  have "dom (cluster_table cidx) = (\<lambda>c. slice_key (int c)) ` {..<k}"
  proof (intro set_eqI iffI)
    fix x assume "x \<in> dom (cluster_table cidx)"
    then obtain i where "i < ?n" "slice_key (cidx ! i) = x" by (auto simp: cluster_table_def members_def filter_empty_conv split: if_splits)
    then show "x \<in> (\<lambda>c. slice_key (int c)) ` {..<k}" using idx[of i] by auto
  next
    fix x assume "x \<in> (\<lambda>c. slice_key (int c)) ` {..<k}"
    then show "x \<in> dom (cluster_table cidx)" using mem ne by (auto simp: cluster_table_def)
  qed
  moreover have "\<exists>!c. c < k \<and> i \<in> set (?slice c)" if "i < ?n" for i using idx[OF that] that by auto
  moreover have "sorted_wrt (<) (?slice c)" for c by (simp add: sorted_wrt_filter)
  ultimately show ?thesis using key mem ne by (auto simp: sliced_def inj_on_def cluster_table_def)
qed

definition slices_apart :: "(nat \<Rightarrow> nat \<Rightarrow> real) \<Rightarrow> real \<Rightarrow> nat \<Rightarrow> (nat \<Rightarrow> nat list) \<Rightarrow> bool" where
  "slices_apart D r k ids \<longleftrightarrow>
     (\<forall>x < k. \<forall>i \<in> set (ids x). \<forall>j \<in> set (ids x). i \<noteq> j \<longrightarrow> D i j < r) \<and>
     (\<forall>x < k. \<forall>y < k. x \<noteq> y \<longrightarrow> (\<exists>i \<in> set (ids x). \<exists>j \<in> set (ids y). r \<le> D i j))"

context distance_clusterizer
begin

lemma slices_of_cut:
  assumes n: "0 < n" "n \<le> 2 ^ 32" and D: "distances n D" "length mat = n * n" "\<forall>i < n. \<forall>j < n. mat ! (i * n + j) = Val (D i j)" and r: "0 \<le> r"
  shows "\<exists>rep k cidx cz ids. run n mat = Inr rep \<and> cut rep r = Inr (k, cidx, cz) \<and> length cidx = n \<and> 0 < k \<and> k \<le> n \<and>
    sliced (cluster_table cidx) n k ids \<and> (\<forall>x < k. members (slice_key (int x)) cidx = ids x) \<and> slices_apart D r k ids"
proof -
  obtain rep k cidx cz where c: "run n mat = Inr rep" "cut rep r = Inr (k, cidx, cz)" "separated n D r k cidx"
    using run_cut[OF n(1) D] r by blast
  note sep = c(3)[unfolded separated_def]
  define ids where "ids x = filter (\<lambda>i. cidx ! i = int x) [0..<n]" for x
  have k: "set cidx = int ` {..<k}" "k \<le> 2 ^ 32" "length cidx = n" using sep n(2) by auto
  have mem: "i \<in> set (ids x) \<longleftrightarrow> i < n \<and> cidx ! i = int x" for i x by (auto simp: ids_def)
  have "slices_apart D r k ids" using sep unfolding slices_apart_def Bex_def Ball_def mem by metis
  moreover have "sliced (cluster_table cidx) n k ids" "\<forall>x < k. members (slice_key (int x)) cidx = ids x"
    using cluster_table_sliced[OF k(1,2)] members_cluster[OF k(1,2)] k(3) by (auto simp: ids_def[abs_def])
  ultimately show ?thesis using c(1,2) sep by blast
qed

end

lemma unanimous_slices:
  assumes sl: "sliced (cluster_table cidx) n k ids" and mem: "\<And>x. x < k \<Longrightarrow> members (slice_key (int x)) cidx = ids x"
  shows "card {key \<in> dom (cluster_table cidx). unanimous segs (members key cidx)} = card {x. x < k \<and> unanimous segs (ids x)}"
proof -
  have "{key \<in> dom (cluster_table cidx). unanimous segs (members key cidx)} = (\<lambda>x. slice_key (int x)) ` {x. x < k \<and> unanimous segs (ids x)}"
    using sl mem by (auto simp: sliced_def)
  moreover have "inj_on (\<lambda>x. slice_key (int x)) {x. x < k \<and> unanimous segs (ids x)}"
    using sl unfolding sliced_def by (blast intro: inj_on_subset)
  ultimately show ?thesis by (simp add: card_image)
qed

text \<open>The clustering and the slices of the segments that were read.\<close>

lemma cluster_slices:
  assumes L: "leveldb_laws L view" and s: "cslice_stored view m0 segs s" and segs: "\<forall>seg \<in> set segs. wf_seg seg" "segs \<noteq> []" "length segs < 2 ^ 32" and r: "0 \<le> r"
  shows "\<exists>s1 rep k d t ids. port2cluster s = Inr s1 \<and> clustering s1 = Inr rep \<and> port2slice L rep r s1 = Inr (k, s1\<lparr>cslice_db := d\<rparr>) \<and>
    test_cluster L rnd (s1\<lparr>cslice_db := d\<rparr>) = Inr t \<and> cseg_db s1 = cseg_db s \<and> cchunksize s1 = cchunksize s \<and>
    0 < k \<and> k \<le> length segs \<and> sliced (view d) (length segs) k ids \<and> slices_apart (seg_distance segs) r k ids \<and>
    ratio_sum t = real (card {x. x < k \<and> unanimous segs (ids x)})"
proof -
  let ?n = "length segs" and ?D = "seg_distance segs"
  have ne: "\<forall>seg \<in> set segs. seg \<noteq> []" using segs(1) by (auto simp: wf_seg_def)
  have n2: "?n * ?n < 2 ^ 64" using mult_strict_mono'[OF segs(3) segs(3)] by simp
  have n: "unat (cseg_count s) = ?n" "0 < ?n" "?n \<le> 2 ^ 32"
    using s segs(2,3) by (auto simp: cslice_stored_def unsigned_of_nat take_bit_nat_eq_self)
  obtain mat where mat: "port2cluster s = Inr (s\<lparr>cdist := mat\<rparr>)" "length mat = ?n * ?n" "\<forall>i < ?n. \<forall>j < ?n. mat ! (i * ?n + j) = Val (?D i j)"
    using port2cluster_distances[OF s ne refl n2] by blast
  obtain rep k cidx cz ids where c: "cluster_matrix ?n mat = Inr rep" "clusterizerseparatedbydist rep r = Inr (k, cidx, cz)" "length cidx = ?n" "0 < k" "k \<le> ?n"
    and sl: "sliced (cluster_table cidx) ?n k ids" "\<forall>x < k. members (slice_key (int x)) cidx = ids x" "slices_apart ?D r k ids"
    using ahc.slices_of_cut[OF n(2,3) seg_distances[OF ne] mat(2,3) r] by blast
  have s1: "cslice_stored view m0 segs (s\<lparr>cdist := mat\<rparr>)" using s by (simp add: cslice_stored_def)
  obtain d where d: "port2slice L rep r (s\<lparr>cdist := mat\<rparr>) = Inr (k, s\<lparr>cdist := mat, cslice_db := d\<rparr>)" "view d = cluster_table cidx"
    using port2slice_table[OF L s1 _ c(2,3)] segs(3) by auto
  obtain t where t: "test_cluster L rnd (s\<lparr>cdist := mat, cslice_db := d\<rparr>) = Inr t"
    "ratio_sum t = real (card {key \<in> dom (cluster_table cidx). unanimous segs (members key cidx)})"
    using test_cluster_unanimous[OF L, of "s\<lparr>cdist := mat, cslice_db := d\<rparr>" segs cidx rnd] s d(2) c(3) segs by (auto simp: cslice_stored_def)
  have "ratio_sum t = real (card {x. x < k \<and> unanimous segs (ids x)})" using t(2) unanimous_slices[OF sl(1), of segs] sl(2) by simp
  moreover have "clustering (s\<lparr>cdist := mat\<rparr>) = Inr rep" using c(1) n(1) by (simp add: clustering_matrix)
  ultimately show ?thesis
    using mat(1) d t(1) c(4,5) sl(1,3)
    by (intro exI[of _ "s\<lparr>cdist := mat\<rparr>"] exI[of _ rep] exI[of _ k] exI[of _ d] exI[of _ t] exI[of _ ids]) simp
qed

lemma wf_segments:
  assumes "trace_entries file = Inr cs" "length cs < 2 ^ 32" "\<forall>seg \<in> set (segments [] 0 cs). seg \<noteq> []" "seg \<in> set (segments [] 0 cs)"
  shows "wf_seg seg"
proof -
  obtain a b where "segments [] 0 cs = a @ seg # b" using split_list[OF assms(4)] by blast
  then have "cs = concat a @ seg @ concat b" using concat_segments[of "[]" 0 cs] by simp
  then have "length seg \<le> length cs" "\<forall>c \<in> set seg. length (ckey c) = FP_SIZE" using trace_entries_keys[OF assms(1)] by auto
  then show ?thesis using assms(2-4) by (auto simp: wf_seg_def)
qed

lemma init_dbs_csl_fresh:
  assumes "\<forall>name \<in> {seg, slc}. \<exists>db. ldb_open L name = (StOk, Some db) \<and> view db = Map.empty" "ldb_open L sz = (StOk, Some sizes)"
    "cseg_count s = 0" "ccount_map s = []"
  shows "\<exists>s'. init_dbs_csl L seg slc sz s = Inr s' \<and> cslice_stored view (view sizes) [] s' \<and> cnrand s' = cnrand s"
  using assms by (auto simp: init_dbs_csl_def open_db_def cslice_stored_def count_entries_def)

section \<open>The whole program\<close>

lemma main_csl_run:
  assumes L: "leveldb_laws L view"
    and fresh: "\<forall>name \<in> {''./output/cipher/seg'', ''./output/cipher/slice''}. \<exists>db. ldb_open L name = (StOk, Some db) \<and> view db = Map.empty"
    and sizes: "ldb_open L ''./output/chunksize'' = (StOk, Some sizes)"
    and args: "length argv = 3" "fs (argv ! 1) = Some file" "r = atof (argv ! 2)" "0 \<le> r"
    and trace: "trace_entries file = Inr (c # cs)" "csize c \<le> SEG_SIZE" "length (c # cs) < 2 ^ 32"
    and s: "cseg_count s = 0" "ccount_map s = []" and segs: "segs = segments [] 0 (c # cs)"
  shows "\<exists>k t s' ids. main_csl L rnd fs argv s = Inr (k, t, s') \<and> concat segs = c # cs \<and> view (cseg_db s') = seg_table segs \<and> view (cchunksize s') = fold size_upd (c # cs) (view sizes) \<and>
    0 < k \<and> k \<le> length segs \<and> sliced (view (cslice_db s')) (length segs) k ids \<and> slices_apart (seg_distance segs) r k ids \<and>
    ratio_sum t = real (card {x. x < k \<and> unanimous segs (ids x)})"
proof -
  have ne: "\<forall>seg \<in> set segs. seg \<noteq> []" "length segs < 2 ^ 32" "segs \<noteq> []" using segments_of_trace[OF trace(2), of cs] trace(3) segs by auto
  have wf: "\<forall>seg \<in> set segs. wf_seg seg" using wf_segments[OF trace(1,3)] ne(1) unfolding segs by blast
  obtain s1 where s1: "init_dbs_csl L ''./output/cipher/seg'' ''./output/cipher/slice'' ''./output/chunksize'' s = Inr s1" "cslice_stored view (view sizes) [] s1"
    using init_dbs_csl_fresh[OF fresh sizes s] by blast
  obtain s2 where s2: "read_hashes_csl L file s1 = Inr s2" "cslice_stored view (view sizes) segs s2"
    using read_hashes_csl_stored[OF L s1(2) trace(1)] segs by blast
  from cluster_slices[OF L s2(2) wf ne(3,2) args(4), of rnd] obtain s3 rep k d t ids where
    s3: "port2cluster s2 = Inr s3" "clustering s3 = Inr rep" "port2slice L rep r s3 = Inr (k, s3\<lparr>cslice_db := d\<rparr>)"
      "test_cluster L rnd (s3\<lparr>cslice_db := d\<rparr>) = Inr t" "cseg_db s3 = cseg_db s2" "cchunksize s3 = cchunksize s2"
    and sl: "0 < k" "k \<le> length segs" "sliced (view d) (length segs) k ids" "slices_apart (seg_distance segs) r k ids"
      "ratio_sum t = real (card {x. x < k \<and> unanimous segs (ids x)})" by (elim exE conjE) (rule that)
  have "main_csl L rnd fs argv s = Inr (k, t, s3\<lparr>cslice_db := d\<rparr>)"
    using s1(1) s2(1) s3(1-4) args(1-3) by (simp add: main_csl_def)
  moreover have "view (cseg_db s3) = seg_table segs" "view (cchunksize s3) = fold size_upd (c # cs) (view sizes)"
    using s3(5,6) s2(2) concat_segments[of "[]" 0 "c # cs"] segs by (simp_all add: cslice_stored_def)
  ultimately show ?thesis
    using sl concat_segments[of "[]" 0 "c # cs"] segs
    by (intro exI[of _ k] exI[of _ t] exI[of _ "s3\<lparr>cslice_db := d\<rparr>"] exI[of _ ids]) simp
qed

text \<open>C6. Ciphertext slicing, from the command line to the slices. On a trace of fewer than \<open>2 ^ 32\<close>
  chunks whose first chunk fits into a segment, with fresh stores of segments and slices, the program succeeds: its slices
  partition the segments of the trace, two segments of a slice have a Jaccard distance below the
  parameter, and any two slices contain segments at that distance or more. The number of slices is
  returned, and the sum of the ratios that the test prints is the number of slices whose segments
  all have the same minimum fingerprint.\<close>

theorem main_csl_slices:
  assumes L: "leveldb_laws L view"
    and fresh: "\<forall>name \<in> {''./output/cipher/seg'', ''./output/cipher/slice''}. \<exists>db. ldb_open L name = (StOk, Some db) \<and> view db = Map.empty"
    and sizes: "ldb_open L ''./output/chunksize'' = (StOk, Some sizes)"
    and args: "length argv = 3" "fs (argv ! 1) = Some file" "r = atof (argv ! 2)" "0 \<le> r"
    and trace: "trace_entries file = Inr (c # cs)" "csize c \<le> SEG_SIZE" "length (c # cs) < 2 ^ 32"
    and s: "cseg_count s = 0" "ccount_map s = []" and segs: "segs = segments [] 0 (c # cs)"
  shows "\<exists>k t s' ids. main_csl L rnd fs argv s = Inr (k, t, s') \<and> concat segs = c # cs \<and> view (cseg_db s') = seg_table segs \<and>
    0 < k \<and> k \<le> length segs \<and> sliced (view (cslice_db s')) (length segs) k ids \<and> slices_apart (seg_distance segs) r k ids \<and>
    ratio_sum t = real (card {x. x < k \<and> unanimous segs (ids x)})"
  using main_csl_run[where fs = fs and argv = argv and rnd = rnd, OF assms] by blast

text \<open>Two chunks that fill a segment each and share nothing, cut at a distance of one half.\<close>

definition two_chunks :: "chunk list" where
  "two_chunks = [\<lparr>ckey = ''abcdef'', csize = 8388608\<rparr>, \<lparr>ckey = ''uvwxyz'', csize = 8388608\<rparr>]"

definition two_trace :: string where
  "two_trace = concat (map (\<lambda>c. dup_line (ckey c) (csize c)) two_chunks)"

lemma two_segments: "segments [] 0 two_chunks = [[two_chunks ! 0], [two_chunks ! 1]]"
  by (simp add: two_chunks_def SEG_SIZE_def)

lemma two_distance: "seg_distance (segments [] 0 two_chunks) 0 1 = 1"
  by (simp add: two_segments seg_distance_def jaccard_def fps_def) (simp add: two_chunks_def)

lemma two_trace_entries: "trace_entries two_trace = Inr (two_chunks ! 0 # tl two_chunks)" "csize (two_chunks ! 0) \<le> SEG_SIZE"
  "two_chunks ! 0 # tl two_chunks = two_chunks" "length two_chunks = 2"
proof -
  show "trace_entries two_trace = Inr (two_chunks ! 0 # tl two_chunks)"
    unfolding two_trace_def by (subst trace_entries_dup_lines) (auto simp: two_chunks_def)
qed (simp_all add: two_chunks_def SEG_SIZE_def)

lemma half: "atof ''0.5'' = 1 / 2"
  by (simp add: atof_def is_space_def digit_of_def)

theorem main_csl_slices_witness:
  "\<exists>t s'. main_csl (mem_leveldb (\<lambda>_. [])) (\<lambda>_. 0) [''trace'' \<mapsto> two_trace] [''cslice'', ''trace'', ''0.5''] demo_cslice = Inr (2, t, s')"
proof -
  let ?segs = "segments [] 0 two_chunks"
  obtain k t s' ids where k: "main_csl (mem_leveldb (\<lambda>_. [])) (\<lambda>_. 0) [''trace'' \<mapsto> two_trace] [''cslice'', ''trace'', ''0.5''] demo_cslice = Inr (k, t, s')"
    "0 < k" "k \<le> length ?segs" "sliced (map_of (cslice_db s')) (length ?segs) k ids"
    "slices_apart (seg_distance ?segs) (1 / 2) k ids"
    using main_csl_slices[OF mem.leveldb_laws_axioms[of "\<lambda>_. []"] _ _ _ _ _ _ two_trace_entries(1,2), where rnd = "\<lambda>_. 0" and argv = "[''cslice'', ''trace'', ''0.5'']"
      and fs = "[''trace'' \<mapsto> two_trace]" and r = "1 / 2" and s = demo_cslice and segs = ?segs]
    by (auto simp: mem_leveldb_def demo_cslice_def half two_trace_entries)
  have "k \<noteq> 1"
  proof
    assume "k = 1"
    then have "0 \<in> set (ids 0)" "1 \<in> set (ids 0)" using k(4) by (auto simp: sliced_def two_segments)
    then show False using k(5) two_distance \<open>k = 1\<close> by (fastforce simp: slices_apart_def)
  qed
  then have "k = 2" using k(2,3) by (auto simp: two_segments)
  then show ?thesis using k(1) by blast
qed

end
