(* ===== verification/SliceAttack.thy ===== *)
theory SliceAttack
  imports Pair PSlice CSlicePipeline
begin

text \<open>
  The first step of \<open>pair.cc\<close> on the stores that \<open>cslice.cc\<close> leaves: every slice becomes one element of
  the queue of slices, with the counts of its chunks, and together the slices account for the whole trace.
\<close>

section \<open>Stores of slices\<close>

text \<open>A store of slices with the names \<open>key c\<close>, for \<open>c\<close> in an index set: every slice lists some of the \<open>n\<close> segments, in order.
  Both slicing programs leave such a store.\<close>

definition indexed :: "(bytes \<rightharpoonup> bytes) \<Rightarrow> nat \<Rightarrow> 'i set \<Rightarrow> ('i \<Rightarrow> bytes) \<Rightarrow> ('i \<Rightarrow> nat list) \<Rightarrow> bool" where
  "indexed tab n I key ids \<longleftrightarrow> finite I \<and> dom tab = key ` I \<and> inj_on key I \<and>
     (\<forall>c \<in> I. tab (key c) = Some (concat (map id_bytes (ids c))) \<and> ids c \<noteq> [] \<and> sorted_wrt (<) (ids c) \<and> set (ids c) \<subseteq> {..<n})"

lemma sliced_indexed: "sliced tab n k ids \<Longrightarrow> indexed tab n {..<k} (\<lambda>c. slice_key (int c)) ids"
  by (simp add: sliced_def indexed_def)

definition ids_of :: "chunk list list \<Rightarrow> bytes \<Rightarrow> nat list" where
  "ids_of segs m = filter (\<lambda>i. min_key (segs ! i) = m) [0..<length segs]"

lemma slice_table_indexed: "indexed (slice_table segs) (length segs) (min_key ` set segs) (\<lambda>m. m) (ids_of segs)"
proof -
  have "ids_of segs m \<noteq> []" if "m \<in> min_key ` set segs" for m
    using that by (auto simp: ids_of_def filter_empty_conv set_conv_nth)
  then show ?thesis
    unfolding indexed_def dom_slice_table
    by (auto simp: slice_table_lookup Let_def sorted_wrt_filter simp flip: ids_of_def) (auto simp: ids_of_def sorted_wrt_filter)
qed

section \<open>The nodes of the slices\<close>

definition node_of :: "chunk list list \<Rightarrow> (bytes \<Rightarrow> u64) \<Rightarrow> bytes \<Rightarrow> nat list \<Rightarrow> sliceNode" where
  "node_of segs sz key ids =
     (let fs = seg_fps segs ids
      in \<lparr>skey = key, ssize = int (length fs), svalue = concat (map id_bytes ids), sliceEntropy = entropy_pair (count_map fs) MIN_ENTROPY_pair,
          sliceChunkCount = count_map fs, ssum_size = sum_list (map sz fs)\<rparr>)"

lemma foldE_push:
  assumes "\<forall>x \<in> set xs. f x = Inr (g x)"
  shows "\<exists>q'. foldE (\<lambda>x q. bindE (f x) (\<lambda>y. Inr (pq_push lt y q))) xs q = Inr q' \<and> mset q' = mset (map g xs) + mset q"
  using assms
proof (induction xs arbitrary: q)
  case (Cons x xs)
  then obtain q' where "foldE (\<lambda>x q. bindE (f x) (\<lambda>y. Inr (pq_push lt y q))) xs (pq_push lt (g x) q) = Inr q'"
    "mset q' = mset (map g xs) + mset (pq_push lt (g x) q)" by (meson list.set_intros(2))
  then show ?case using Cons.prems by simp
qed simp

lemma seg_fps_subset: "set ids \<subseteq> {..<length segs} \<Longrightarrow> set (seg_fps segs ids) \<subseteq> ckey ` set (concat segs)"
  by (fastforce simp: seg_fps_def)

text \<open>Slices that partition the segments have all the chunks.\<close>

lemma partition_chunks:
  fixes ids :: "nat \<Rightarrow> nat list"
  assumes "\<forall>c < k. sorted_wrt (<) (ids c) \<and> set (ids c) \<subseteq> {..<length segs}" "\<forall>i < length segs. \<exists>!c. c < k \<and> i \<in> set (ids c)"
  shows "(\<Sum>c<k. length (seg_fps segs (ids c))) = length (concat segs)"
proof -
  have len: "length (seg_fps segs (ids c)) = (\<Sum>i \<in> set (ids c). length (segs ! i))" if "c < k" for c
  proof -
    have "distinct (ids c)" using assms(1) that strict_sorted_iff by blast
    then show ?thesis by (simp add: seg_fps_def length_concat comp_def sum_list_distinct_conv_sum_set)
  qed
  have cover: "(\<Union>c \<in> {..<k}. set (ids c)) = {..<length segs}" using assms by (auto dest!: ex1_implies_ex)
  have "disjoint_family_on (\<lambda>c. set (ids c)) {..<k}" using assms unfolding disjoint_family_on_def by blast
  then have "(\<Sum>c<k. \<Sum>i \<in> set (ids c). length (segs ! i)) = (\<Sum>i \<in> {..<length segs}. length (segs ! i))"
    unfolding cover[symmetric] by (intro sum.UNION_disjoint[symmetric]) (auto simp: disjoint_family_on_def)
  also have "\<dots> = length (concat segs)"
    by (simp add: length_concat sum_list_sum_nth lessThan_atLeast0)
  finally show ?thesis using len by simp
qed

context leveldb_laws
begin

lemma slice_count:
  assumes db: "view (if flg then p_seg_db s else c_seg_db s) = seg_table segs" "length segs < 2 ^ 32"
    and keys: "\<forall>c \<in> set (concat segs). length (ckey c) = FP_SIZE" and ids: "ids \<noteq> []" "sorted_wrt (<) ids" "set ids \<subseteq> {..<length segs}"
    and sz: "\<forall>fp \<in> ckey ` set (concat segs). view (size_db s) fp = Some (u64_bytes (sz fp))"
  shows "count_chunk_pair L (concat (map id_bytes ids)) flg s =
    Inr (count_map (seg_fps segs ids), sum_list (map sz (seg_fps segs ids)), int (length (seg_fps segs ids)))"
proof -
  have "length ids = card (set ids)" using ids(2) strict_sorted_iff distinct_card by metis
  then have "length ids \<le> length segs" using card_mono[OF _ ids(3)] by simp
  then have "8 * length ids < 2 ^ 63" using db(2) by simp
  moreover have "\<forall>fp \<in> set (seg_fps segs ids). view (size_db s) fp = Some (u64_bytes (sz fp))"
    using seg_fps_subset[OF ids(3)] sz by blast
  ultimately show ?thesis using db keys ids by (intro count_chunk_fps) auto
qed

lemma load_slices:
  assumes db: "view (if flg then p_seg_db s else c_seg_db s) = seg_table segs" "length segs < 2 ^ 32"
    and keys: "\<forall>c \<in> set (concat segs). length (ckey c) = FP_SIZE"
    and sl: "indexed (view (if flg then p_slice_db s else c_slice_db s)) (length segs) I key ids"
    and sz: "\<forall>fp \<in> ckey ` set (concat segs). view (size_db s) fp = Some (u64_bytes (sz fp))"
  shows "\<exists>que. load_slice L flg s [] = Inr que \<and> mset que = image_mset (\<lambda>c. node_of segs sz (key c) (ids c)) (mset_set I)"
proof -
  let ?db = "if flg then p_slice_db s else c_slice_db s"
  let ?es = "fst (ldb_iter L ?db)" and ?e = "\<lambda>c. (key c, concat (map id_bytes (ids c)))" and ?n = "\<lambda>c. node_of segs sz (key c) (ids c)"
  note S = sl[unfolded indexed_def]
  have es: "set ?es = ?e ` I"
  proof (intro set_eqI iffI)
    fix e assume "e \<in> set ?es"
    then have e: "view ?db (fst e) = Some (snd e)" using iter_mem[of "fst e" "snd e"] by simp
    then have "fst e \<in> key ` I" using S by (metis domI)
    then obtain c where "c \<in> I" "fst e = key c" by blast
    then show "e \<in> ?e ` I" using e S by (intro image_eqI[of _ _ c]) (auto simp: prod_eq_iff)
  next
    fix e assume "e \<in> ?e ` I"
    then show "e \<in> set ?es" using S by (auto simp: iter_mem)
  qed
  have inj: "inj_on ?e I" using S by (auto simp: inj_on_def)
  have nodes: "slice_node L flg s (?e c) = Inr (?n c)" if "c \<in> I" for c
    using slice_count[OF db keys _ _ _ sz, of "ids c"] S that by (simp add: slice_node_def node_of_def Let_def)
  define g where "g e = ?n (the_inv_into I ?e e)" for e
  have g: "g (?e c) = ?n c" if "c \<in> I" for c using the_inv_into_f_f[OF inj that] by (simp add: g_def)
  have "\<forall>e \<in> set ?es. slice_node L flg s e = Inr (g e)" unfolding es using nodes g by simp
  from foldE_push[OF this, of slice_lt "[]"] obtain que where que: "load_slice L flg s [] = Inr que" "mset que = mset (map g ?es)"
    unfolding load_slice_def by auto
  have "mset ?es = mset_set (?e ` I)" using iter_distinct[of ?db] es by (metis distinct_map mset_set_set)
  also have "\<dots> = image_mset ?e (mset_set I)" by (rule image_mset_mset_set[OF inj, symmetric])
  finally have "mset (map g ?es) = image_mset (\<lambda>c. g (?e c)) (mset_set I)" by (simp add: multiset.map_comp comp_def)
  also have "\<dots> = image_mset ?n (mset_set I)" using S by (intro image_mset_cong) (simp add: g)
  finally show ?thesis using que by auto
qed

end

section \<open>From the trace to the queue of slices\<close>



end
