(* ===== verification/SliceInfer.thy ===== *)
theory SliceInfer
  imports SliceAttack
begin

text \<open>
  \<open>pair.cc\<close> as a whole, on the stores of two segmentations: the pairing of the slices, the frequency
  analysis and the comparison of segments never fail, and what they record is exact.
\<close>

section \<open>The entropy of a slice\<close>

lemma count_map_counts: "map snd (count_map xs) = map (\<lambda>k. word_of_nat (count_list xs k)) (map fst (count_map xs))"
proof -
  have "snd e = word_of_nat (count_list xs (fst e))" if "e \<in> set (count_map xs)" for e
  proof -
    have "map_of (count_map xs) (fst e) = Some (snd e)" using that count_map_distinct[of xs] by (simp add: map_of_eq_Some_iff)
    then show ?thesis by (simp add: count_map_lookup split: if_splits)
  qed
  then show ?thesis by simp
qed

lemma count_map_total:
  assumes "length xs < 2 ^ 64"
  shows "(\<Sum>w \<leftarrow> map snd (count_map xs). unat w) = length xs"
proof -
  have "unat (word_of_nat (count_list xs k) :: u64) = count_list xs k" for k
    using count_le_length[of xs k] assms by (simp add: unsigned_of_nat take_bit_nat_eq_self)
  then have "(\<Sum>w \<leftarrow> map snd (count_map xs). unat w) = (\<Sum>k \<leftarrow> map fst (count_map xs). count_list xs k)"
    unfolding count_map_counts by (simp add: comp_def)
  also have "\<dots> = (\<Sum>k \<in> set xs. count_list xs k)"
    by (simp only: sum_list_distinct_conv_sum_set[OF count_map_distinct] count_map_keys)
  finally show ?thesis by (simp add: sum_count_set)
qed

lemma entropy_pair_bounds:
  assumes "xs \<noteq> []" "length xs < 2 ^ 32"
  shows "0 \<le> entropy_pair (count_map xs) MIN_ENTROPY_pair" "entropy_pair (count_map xs) MIN_ENTROPY_pair \<le> 32"
proof -
  let ?ws = "map snd (count_map xs)"
  have n: "length ?ws = card (set xs)" by (simp add: length_count_map)
  have "card (set xs) \<le> 2 ^ 32" "0 < card (set xs)" using assms card_length[of xs] by (auto simp: card_gt_0_iff)
  then have l: "0 < real (length ?ws)" "real (length ?ws) \<le> 2 ^ 32" unfolding n by (simp, metis of_nat_le_numeral_power_cancel_iff)
  then have "?ws \<noteq> []" by auto
  then have b: "0 \<le> counts_entropy False ?ws \<and> counts_entropy False ?ws \<le> log 2 (real (length ?ws))"
    using counts_entropy_bounds[of ?ws] count_map_total[of xs] assms(2) by simp
  have "log 2 (2 ^ 32 :: real) = 32" by (subst log_nat_power) auto
  moreover have "log 2 (real (length ?ws)) \<le> log 2 (2 ^ 32)" by (rule log_mono[OF _ l]) simp
  ultimately have "log 2 (real (length ?ws)) \<le> 32" by linarith
  then show "0 \<le> entropy_pair (count_map xs) MIN_ENTROPY_pair" "entropy_pair (count_map xs) MIN_ENTROPY_pair \<le> 32"
    using b unfolding entropy_pair_def MIN_ENTROPY_pair_def by linarith+
qed

text \<open>The slices of a segmentation: the nodes of non-empty lists of segments, in order.\<close>

definition slice_nodes :: "chunk list list \<Rightarrow> (bytes \<Rightarrow> u64) \<Rightarrow> sliceNode set" where
  "slice_nodes segs sz = {node_of segs sz key ids | key ids. ids \<noteq> [] \<and> sorted_wrt (<) ids \<and> set ids \<subseteq> {..<length segs}}"

lemma indexed_nodes:
  "indexed tab (length segs) I key ids \<Longrightarrow> mset que = image_mset (\<lambda>c. node_of segs sz (key c) (ids c)) (mset_set I) \<Longrightarrow>
   set que \<subseteq> slice_nodes segs sz"
proof -
  assume a: "indexed tab (length segs) I key ids" "mset que = image_mset (\<lambda>c. node_of segs sz (key c) (ids c)) (mset_set I)"
  have "set_mset (mset que) = (\<lambda>c. node_of segs sz (key c) (ids c)) ` I" unfolding a(2) using a(1) by (simp add: indexed_def)
  moreover have "node_of segs sz (key c) (ids c) \<in> slice_nodes segs sz" if "c \<in> I" for c
    using a(1) that unfolding slice_nodes_def indexed_def by blast
  ultimately show ?thesis by auto
qed

lemma seg_fps_length:
  assumes "sorted_wrt (<) ids" "set ids \<subseteq> {..<length segs}"
  shows "length (seg_fps segs ids) \<le> length (concat segs)"
proof -
  have "distinct ids" using assms(1) strict_sorted_iff by blast
  then have "length (seg_fps segs ids) = (\<Sum>i \<in> set ids. length (segs ! i))"
    by (simp add: seg_fps_def length_concat comp_def sum_list_distinct_conv_sum_set)
  also have "\<dots> \<le> (\<Sum>i < length segs. length (segs ! i))" using assms(2) by (intro sum_mono2) auto
  finally show ?thesis by (simp add: length_concat sum_list_sum_nth lessThan_atLeast0)
qed

lemma seg_fps_ne: "ids \<noteq> [] \<Longrightarrow> set ids \<subseteq> {..<length segs} \<Longrightarrow> \<forall>seg \<in> set segs. seg \<noteq> [] \<Longrightarrow> seg_fps segs ids \<noteq> []"
  by (cases ids) (auto simp: seg_fps_def)

lemma slice_node_cases:
  assumes "node \<in> slice_nodes segs sz" "\<forall>seg \<in> set segs. seg \<noteq> []" "length (concat segs) < 2 ^ 32"
  obtains ids where "ids \<noteq> []" "sorted_wrt (<) ids" "set ids \<subseteq> {..<length segs}" "svalue node = concat (map id_bytes ids)"
    "sliceChunkCount node = count_map (seg_fps segs ids)" "0 \<le> sliceEntropy node" "sliceEntropy node \<le> 32"
proof -
  obtain key ids where n: "node = node_of segs sz key ids" "ids \<noteq> []" "sorted_wrt (<) ids" "set ids \<subseteq> {..<length segs}"
    using assms(1) by (auto simp: slice_nodes_def)
  moreover have "length (seg_fps segs ids) < 2 ^ 32" using seg_fps_length[OF n(3,4)] assms(3) by linarith
  ultimately show ?thesis
    using that[OF n(2-4)] entropy_pair_bounds[OF seg_fps_ne[OF n(2,4) assms(2)]] by (simp add: node_of_def Let_def)
qed

text \<open>A segmentation whose chunks have their sizes recorded in the store.\<close>

definition sized_segs :: "(bytes \<rightharpoonup> bytes) \<Rightarrow> (bytes \<Rightarrow> u64) \<Rightarrow> chunk list list \<Rightarrow> bool" where
  "sized_segs tab sz segs \<longleftrightarrow> length segs < 2 ^ 32 \<and> length (concat segs) < 2 ^ 32 \<and> (\<forall>seg \<in> set segs. seg \<noteq> []) \<and>
     (\<forall>c \<in> set (concat segs). length (ckey c) = FP_SIZE \<and> tab (ckey c) = Some (u64_bytes (sz (ckey c))))"

section \<open>The recorded pairs of slices\<close>

lemma smap_insert_mem: "e \<in> set (smap_insert lt k v m) \<Longrightarrow> e = (k, v) \<or> e \<in> set m"
  by (induction m) (auto simp: smap_insert_def split: if_splits)

lemma fold_record_ranks:
  "\<exists>a b. fold (record_ranks tars ori) ps s = s\<lparr>slice_pairing := a, segment_pairing := b\<rparr> \<and>
    set a \<union> set b \<subseteq> set (slice_pairing s) \<union> set (segment_pairing s) \<union> (\<lambda>(c, i). (tars ! c, ori ! i)) ` set ps"
proof (induction ps arbitrary: s)
  case Nil
  show ?case by (intro exI[of _ "slice_pairing s"] exI[of _ "segment_pairing s"]) simp
next
  case (Cons e ps)
  obtain c i where e: "e = (c, i)" by fastforce
  obtain a b where ab: "fold (record_ranks tars ori) ps (record_ranks tars ori e s) = (record_ranks tars ori e s)\<lparr>slice_pairing := a, segment_pairing := b\<rparr>"
    "set a \<union> set b \<subseteq> set (slice_pairing (record_ranks tars ori e s)) \<union> set (segment_pairing (record_ranks tars ori e s)) \<union>
      (\<lambda>(c, i). (tars ! c, ori ! i)) ` set ps"
    using Cons.IH by blast
  have "set (slice_pairing (record_ranks tars ori e s)) \<union> set (segment_pairing (record_ranks tars ori e s)) \<subseteq>
      insert (tars ! c, ori ! i) (set (slice_pairing s) \<union> set (segment_pairing s))"
    by (auto simp: e record_ranks_def record_pair_def dest: smap_insert_mem)
  then show ?case
    using ab by (intro exI[of _ a] exI[of _ b]) (auto simp: e record_ranks_def record_pair_def)
qed

section \<open>The chunks of a slice in a queue\<close>

lemma enqueue_chunks_keys:
  assumes "\<forall>x \<in> set xs. length x = FP_SIZE"
  shows "distinct (map kkey (enqueue_chunks (count_map xs)))" "kkey ` set (enqueue_chunks (count_map xs)) = set xs"
proof -
  have "take FP_SIZE (fst e) = fst e" if "e \<in> set (count_map xs)" for e
    using assms count_map_keys[of xs] imageI[OF that, of fst] by simp
  then have "map (\<lambda>e. take FP_SIZE (fst e)) (count_map xs) = map fst (count_map xs)" by simp
  moreover have "mset (map kkey (enqueue_chunks (count_map xs))) = mset (map (\<lambda>e. take FP_SIZE (fst e)) (count_map xs))"
    using mset_fold_push[of chunk_lt "map (\<lambda>e. \<lparr>kkey = take FP_SIZE (fst e), kcount = snd e\<rparr>) (count_map xs)" "[]"]
    by (simp add: enqueue_chunks_def fold_map image_mset.compositionality comp_def)
  ultimately have m: "mset (map kkey (enqueue_chunks (count_map xs))) = mset (map fst (count_map xs))" by argo
  show "distinct (map kkey (enqueue_chunks (count_map xs)))" using m count_map_distinct mset_eq_imp_distinct_iff by blast
  show "kkey ` set (enqueue_chunks (count_map xs)) = set xs"
    using mset_eq_setD[OF m] count_map_keys[of xs] by simp
qed

section \<open>What the attack records is exact\<close>

text \<open>Every inferred chunk is one of the ciphertext trace; it is mapped to a chunk of the plaintext trace, or to itself,
  of the same size. The counters of the two phases add up to the number of inferred chunks and of right ones.\<close>

definition exact :: "('db \<Rightarrow> bytes \<rightharpoonup> bytes) \<Rightarrow> bytes set \<Rightarrow> bytes set \<Rightarrow> (bytes \<Rightarrow> u64) \<Rightarrow> 'db pairing \<Rightarrow> bool" where
  "exact view C P sz s \<longleftrightarrow>
     (\<forall>k v. view (infer_db s) k = Some v \<longrightarrow> k \<in> C \<and> (v \<in> P \<or> v = k) \<and> sz k = sz v) \<and>
     n_infer s + word_of_nat (segmentInferChunk s) = word_of_nat (card (dom (view (infer_db s)))) \<and>
     n_correct s + word_of_nat (segmentInferChunk s) = word_of_nat (card {k. view (infer_db s) k = Some k})"

lemma card_map_add_new:
  assumes "finite (dom m)" "distinct (map fst new)" "\<forall>e \<in> set new. m (fst e) = None"
  shows "card (dom (m ++ map_of new)) = card (dom m) + length new"
    "card {k. (m ++ map_of new) k = Some k} = card {k. m k = Some k} + length (filter (\<lambda>(c, p). p = c) new)"
proof -
  let ?same = "filter (\<lambda>(c, p). p = c) new"
  have disj: "fst ` set new \<inter> dom m = {}" using assms(3) by auto
  have "card (fst ` set new \<union> dom m) = card (fst ` set new) + card (dom m)" using assms(1) disj by (intro card_Un_disjoint) auto
  moreover have "card (fst ` set new) = length new" using distinct_card[OF assms(2)] by simp
  ultimately show "card (dom (m ++ map_of new)) = card (dom m) + length new" by (simp add: dom_map_of_conv_image_fst)
  have "{k. (m ++ map_of new) k = Some k} = {k. m k = Some k} \<union> fst ` set ?same"
    using assms(2,3) by (force simp: map_add_Some_iff map_of_eq_Some_iff map_of_eq_None_iff)
  moreover have "{k. m k = Some k} \<inter> fst ` set ?same = {}" using assms(3) by force
  moreover have "card (fst ` set ?same) = length ?same" using distinct_map_filter[OF assms(2)] distinct_card by fastforce
  moreover have "finite {k. m k = Some k}" using assms(1) by (rule rev_finite_subset) auto
  ultimately show "card {k. (m ++ map_of new) k = Some k} = card {k. m k = Some k} + length ?same"
    by (simp add: card_Un_disjoint)
qed

lemma distinct_zip_keys: "distinct (map f xs) \<Longrightarrow> distinct (map (\<lambda>e. f (fst e)) (zip xs ys))"
proof (induction xs ys rule: list_induct2')
  case (4 x xs y ys)
  then show ?case by (auto dest: set_zip_leftD)
qed auto

context leveldb_laws
begin

lemma exact_freq:
  assumes "exact view C P sz s" "freq_result view new s s'" "distinct (map fst new)"
    "\<forall>(c, p) \<in> set new. view (infer_db s) c = None \<and> c \<in> C \<and> p \<in> P \<and> sz c = sz p" "\<forall>x \<in> C \<union> P. length x = FP_SIZE"
  shows "exact view C P sz s'"
proof -
  let ?m = "view (infer_db s)"
  have new: "\<forall>e \<in> set new. ?m (fst e) = None" using assms(4) by auto
  have same: "filter (\<lambda>(c, p). take FP_SIZE p = take FP_SIZE c) new = filter (\<lambda>(c, p). p = c) new"
    using assms(4,5) by (intro filter_cong) (auto simp: Ball_def)
  obtain d where d: "s' = s\<lparr>infer_db := d, n_infer := n_infer s + word_of_nat (length new),
     n_correct := n_correct s + word_of_nat (length (filter (\<lambda>(c, p). p = c) new))\<rparr>" "view d = ?m ++ map_of new"
    using assms(2) unfolding freq_result_def same by blast
  have "k \<in> C \<and> (v \<in> P \<or> v = k) \<and> sz k = sz v" if "view d k = Some v" for k v
  proof -
    consider "(k, v) \<in> set new" | "?m k = Some v" using \<open>view d k = Some v\<close> d(2) by (auto dest: map_of_SomeD)
    then show ?thesis using assms(1,4) by cases (auto simp: exact_def)
  qed
  then show ?thesis
    using assms(1) card_map_add_new[OF dom_view_finite assms(3) new] unfolding exact_def d(1) by (simp add: d(2) algebra_simps)
qed

text \<open>One pair of slices: the loop returns with an exact state, or two chunks of different sizes meet.\<close>

lemma freq_loop_exact:
  assumes ex: "exact view C P sz s" and fps: "\<forall>x \<in> C \<union> P. length x = FP_SIZE \<and> view (size_db s) x = Some (u64_bytes (sz x))"
    and sub: "set xs \<subseteq> C" "set ys \<subseteq> P"
  shows "case freq_loop L (enqueue_chunks (count_map xs)) (enqueue_chunks (count_map ys)) s of None \<Rightarrow> \<exists>x \<in> C. \<exists>y \<in> P. sz x \<noteq> sz y
    | Some r \<Rightarrow> \<exists>s'. r = Inr s' \<and> exact view C P sz s' \<and> (\<exists>d a b. s' = s\<lparr>infer_db := d, n_infer := a, n_correct := b\<rparr>)"
proof -
  let ?c = "enqueue_chunks (count_map xs)" and ?p = "enqueue_chunks (count_map ys)"
  let ?cps = "zip (drain chunk_lt ?c) (drain chunk_lt ?p)" and ?m = "view (infer_db s)"
  have len: "\<forall>x \<in> set xs. length x = FP_SIZE" "\<forall>x \<in> set ys. length x = FP_SIZE" using fps sub by auto
  note keys = enqueue_chunks_keys[OF len(1)] enqueue_chunks_keys[OF len(2)]
  have "mset (map kkey (drain chunk_lt ?c)) = mset (map kkey ?c)" by simp
  then have dist: "distinct (map kkey (drain chunk_lt ?c))" using keys(1) mset_eq_imp_distinct_iff by blast
  have in_cps: "kkey a \<in> C \<and> kkey b \<in> P" if "(a, b) \<in> set ?cps" for a b
    using set_zip_leftD[OF that] set_zip_rightD[OF that] keys(2,4) sub by (auto intro: imageI)
  have "\<forall>n \<in> set (?c @ ?p). kkey n \<in> C \<union> P" using keys(2,4) sub by auto
  then have known: "sizes_known view sz (?c @ ?p) s" using fps unfolding sizes_known_def by blast
  note run = freq_loop_cases[OF dist known]
  show ?thesis
  proof (cases "sizes_agree sz ?m ?cps")
    case True
    then obtain s' where s': "freq_loop L ?c ?p s = Some (Inr s')" "freq_result view (fresh_pairs ?m ?cps) s s'" using run by auto
    have "map fst (fresh_pairs ?m ?cps) = map (\<lambda>e. kkey (fst e)) (filter (\<lambda>(c, p). ?m (kkey c) = None) ?cps)"
      by (simp add: fresh_pairs_def case_prod_beta)
    moreover have "distinct (map (\<lambda>e. kkey (fst e)) ?cps)"
      by (rule distinct_zip_keys[OF dist])
    ultimately have "distinct (map fst (fresh_pairs ?m ?cps))" by (simp only: distinct_map_filter)
    moreover have "\<forall>(c, p) \<in> set (fresh_pairs ?m ?cps). ?m c = None \<and> c \<in> C \<and> p \<in> P \<and> sz c = sz p"
      using in_cps True by (fastforce simp: fresh_pairs_def sizes_agree_def)
    ultimately have "exact view C P sz s'" using exact_freq[OF ex s'(2)] fps by blast
    then show ?thesis using s' by (auto simp: freq_result_def)
  next
    case False
    then obtain a b where "(a, b) \<in> set ?cps" "sz (kkey a) \<noteq> sz (kkey b)" by (auto simp: sizes_agree_def)
    then show ?thesis using False run in_cps by auto
  qed
qed

lemma freq_pairs_exact:
  assumes "exact view C P sz s" "\<forall>x \<in> C \<union> P. length x = FP_SIZE \<and> view (size_db s) x = Some (u64_bytes (sz x))"
    "\<forall>(c, p) \<in> set ps. (\<exists>xs. sliceChunkCount c = count_map xs \<and> set xs \<subseteq> C) \<and> (\<exists>ys. sliceChunkCount p = count_map ys \<and> set ys \<subseteq> P)"
  shows "case freq_pairs L ps s of None \<Rightarrow> \<exists>x \<in> C. \<exists>y \<in> P. sz x \<noteq> sz y
    | Some r \<Rightarrow> \<exists>s'. r = Inr s' \<and> exact view C P sz s' \<and> (\<exists>d a b. s' = s\<lparr>infer_db := d, n_infer := a, n_correct := b\<rparr>)"
  using assms
proof (induction ps arbitrary: s)
  case Nil
  have "\<exists>d a b. s = s\<lparr>infer_db := d, n_infer := a, n_correct := b\<rparr>"
    by (intro exI[of _ "infer_db s"] exI[of _ "n_infer s"] exI[of _ "n_correct s"]) simp
  then show ?case using Nil by simp
next
  case (Cons e ps)
  obtain c p where e: "e = (c, p)" by fastforce
  obtain xs ys where xy: "sliceChunkCount c = count_map xs" "set xs \<subseteq> C" "sliceChunkCount p = count_map ys" "set ys \<subseteq> P"
    using Cons.prems(3) by (auto simp: e)
  let ?run = "freq_loop L (enqueue_chunks (count_map xs)) (enqueue_chunks (count_map ys)) s"
  note first = freq_loop_exact[OF Cons.prems(1,2) xy(2,4)]
  show ?case
  proof (cases ?run)
    case None
    then show ?thesis using first by (simp add: e xy)
  next
    case (Some r)
    then obtain s1 d a b where s1: "?run = Some (Inr s1)" "exact view C P sz s1" "s1 = s\<lparr>infer_db := d, n_infer := a, n_correct := b\<rparr>"
      using first by auto
    have "size_db s1 = size_db s" by (simp add: s1(3))
    then have "case freq_pairs L ps s1 of None \<Rightarrow> \<exists>x \<in> C. \<exists>y \<in> P. sz x \<noteq> sz y
      | Some r \<Rightarrow> \<exists>s'. r = Inr s' \<and> exact view C P sz s' \<and> (\<exists>d a b. s' = s1\<lparr>infer_db := d, n_infer := a, n_correct := b\<rparr>)"
      using Cons.IH[OF s1(2)] Cons.prems(2,3) by simp
    moreover have "freq_pairs L (e # ps) s = freq_pairs L ps s1" using s1(1) by (simp add: e xy)
    moreover have "\<exists>d' a' b'. s1\<lparr>infer_db := d, n_infer := a, n_correct := b\<rparr> = s\<lparr>infer_db := d', n_infer := a', n_correct := b'\<rparr>" for d a b
      by (intro exI[of _ d] exI[of _ a] exI[of _ b]) (simp add: s1(3))
    ultimately show ?thesis by (auto split: option.splits)
  qed
qed

section \<open>The comparison of segments\<close>

text \<open>What the comparison leaves as it is.\<close>

definition same_stores :: "'x pairing \<Rightarrow> 'x pairing \<Rightarrow> bool" where
  "same_stores s s' \<longleftrightarrow> p_seg_db s' = p_seg_db s \<and> c_seg_db s' = c_seg_db s \<and> size_db s' = size_db s"

lemma infer_chunk_exact:
  assumes "exact view C P sz s" "take FP_SIZE (fst it) \<in> C"
  shows "exact view C P sz (infer_chunk L it s)" "same_stores s (infer_chunk L it s)"
proof -
  let ?k = "take FP_SIZE (fst it)" and ?m = "view (infer_db s)"
  show "same_stores s (infer_chunk L it s)" by (simp add: same_stores_def infer_chunk_def Let_def)
  show "exact view C P sz (infer_chunk L it s)"
  proof (cases "?m ?k")
    case None
    let ?s = "s\<lparr>segmentInferChunk := segmentInferChunk s + 1, infer_db := snd (ldb_put L (infer_db s) ?k ?k)\<rparr>"
    have s: "infer_chunk L it s = ?s" using None by (simp add: infer_chunk_def Let_def get_cases)
    have m: "?m(?k \<mapsto> ?k) = ?m ++ map_of [(?k, ?k)]" by simp
    have "card (dom (?m(?k \<mapsto> ?k))) = card (dom ?m) + 1" "card {k. (?m(?k \<mapsto> ?k)) k = Some k} = card {k. ?m k = Some k} + 1"
      unfolding m using card_map_add_new[OF dom_view_finite[of "infer_db s"], of "[(?k, ?k)]"] None by simp_all
    then show ?thesis
      unfolding s using assms by (simp add: exact_def view_put algebra_simps)
  next
    case (Some v)
    then show ?thesis using assms(1) by (simp add: infer_chunk_def Let_def get_cases)
  qed
qed

lemma fold_infer_chunk_exact:
  "exact view C P sz s \<Longrightarrow> \<forall>it \<in> set its. take FP_SIZE (fst it) \<in> C \<Longrightarrow>
   exact view C P sz (fold (infer_chunk L) its s) \<and> same_stores s (fold (infer_chunk L) its s)"
proof (induction its arbitrary: s)
  case (Cons it its)
  then show ?case using infer_chunk_exact[of C P sz s it] Cons.IH[of "infer_chunk L it s"] by (simp add: same_stores_def)
qed (simp add: same_stores_def)

lemma segment_eq_total: "\<exists>b. segment_eq L s m1 m2 = Inr b"
  by (induction L s m1 m2 rule: segment_eq.induct) (auto simp: equal_pair_def E_ATTACK_pair_def)

lemma closer_segment_best:
  "fold (closer_segment c pv) js (MAXIMUM_ENTROPY, None) = (d, b) \<Longrightarrow> b = None \<Longrightarrow> d = MAXIMUM_ENTROPY"
proof (induction js arbitrary: d b rule: rev_induct)
  case (snoc j js)
  obtain d' b' where "fold (closer_segment c pv) js (MAXIMUM_ENTROPY, None) = (d', b')" by fastforce
  then show ?case using snoc by (auto simp: closer_segment_def Let_def split: if_splits)
qed simp

lemma match_segments_exact:
  assumes "minP \<le> MAXIMUM_ENTROPY" "exact view C P sz s" "\<forall>c \<in> set cv. \<forall>it \<in> set (segmentChunkCount c). take FP_SIZE (fst it) \<in> C"
  shows "\<exists>s'. match_segments L minP cv pv s = Inr s' \<and> exact view C P sz s' \<and> same_stores s s'"
  using assms(2,3)
proof (induction cv arbitrary: pv s)
  case Nil
  then show ?case by (simp add: same_stores_def)
next
  case (Cons c cv)
  obtain d b where best: "fold (closer_segment c pv) [0..<length pv] (MAXIMUM_ENTROPY, None) = (d, b)" by fastforce
  show ?case
  proof (cases "d < minP")
    case True
    then obtain j where j: "b = Some j" using closer_segment_best[OF best] assms(1) by (cases b) auto
    let ?pv = "pv[j := (pv ! j)\<lparr>segmentEntropy := MAXIMUM_ENTROPY\<rparr>]" and ?s = "s\<lparr>segmentcount := segmentcount s + 1\<rparr>"
    obtain eq where eq: "segment_eq L ?s (segmentChunkCount c) (segmentChunkCount (?pv ! j)) = Inr eq" using segment_eq_total by blast
    define s1 where "s1 = (if eq then fold (infer_chunk L) (segmentChunkCount c) (?s\<lparr>infersegment := infersegment ?s + 1\<rparr>) else ?s)"
    have run: "match_segments L minP (c # cv) pv s = match_segments L minP cv ?pv s1"
      unfolding match_segments.simps best Let_def j prod.case option.case if_P[OF True] eq bindE_simps s1_def ..
    have "exact view C P sz (?s\<lparr>infersegment := infersegment ?s + 1\<rparr>)" "exact view C P sz ?s" using Cons.prems(1) by (simp_all add: exact_def)
    then have s1: "exact view C P sz s1" "same_stores s s1"
      using fold_infer_chunk_exact[of C P sz "?s\<lparr>infersegment := infersegment ?s + 1\<rparr>" "segmentChunkCount c"] Cons.prems(2)
      by (auto simp: s1_def same_stores_def)
    then show ?thesis using Cons.IH[OF s1(1), of ?pv] Cons.prems(2) unfolding run by (auto simp: same_stores_def)
  next
    case False
    then show ?thesis using Cons.IH[OF Cons.prems(1), of pv] Cons.prems(2) best by simp
  qed
qed

lemma load_segments_chunks:
  assumes db: "view (if flg then p_seg_db s else c_seg_db s) = seg_table segs" "length segs < 2 ^ 32"
    and keys: "\<forall>c \<in> set (concat segs). length (ckey c) = FP_SIZE" and ids: "ids \<noteq> []" "sorted_wrt (<) ids" "set ids \<subseteq> {..<length segs}"
    and sz: "\<forall>fp \<in> ckey ` set (concat segs). view (size_db s) fp = Some (u64_bytes (sz fp))"
  shows "\<exists>que. load_segments L flg s (concat (map id_bytes ids)) = Inr que \<and>
    (\<forall>n \<in> set que. \<forall>it \<in> set (segmentChunkCount n). take FP_SIZE (fst it) \<in> ckey ` set (concat segs))"
proof -
  let ?g = "\<lambda>i. let fs = seg_fps segs [i] in \<lparr>gsum_size = sum_list (map sz fs), gID = id_bytes i, gsize = int (length fs),
    segmentEntropy = entropy_pair (count_map fs) MIN_ENTROPY_pair, segmentChunkCount = count_map fs\<rparr>"
  have "length ids = card (set ids)" using ids(2) strict_sorted_iff distinct_card by metis
  then have len: "8 * length ids < 2 ^ 63" using card_mono[OF _ ids(3)] db(2) by simp
  have nodes: "\<forall>i \<in> set ids. segment_node L flg s (id_bytes i) = Inr (?g i)"
  proof
    fix i assume "i \<in> set ids"
    then show "segment_node L flg s (id_bytes i) = Inr (?g i)"
      using slice_count[OF db keys _ _ _ sz, of "[i]"] ids(3) by (auto simp: segment_node_def Let_def)
  qed
  have "load_segments L flg s (concat (map id_bytes ids)) =
      foldE (\<lambda>tmps que. bindE (segment_node L flg s tmps) (\<lambda>n. Inr (pq_push segment_lt n que))) (map id_bytes ids) []"
    unfolding load_segments_def using ids(1) len by (intro for_step_blocks) (auto simp: id_bytes_def)
  also have "\<dots> = foldE (\<lambda>i que. bindE (segment_node L flg s (id_bytes i)) (\<lambda>n. Inr (pq_push segment_lt n que))) ids []"
    by (rule foldE_map)
  finally obtain que where que: "load_segments L flg s (concat (map id_bytes ids)) = Inr que" "mset que = mset (map ?g ids)"
    using foldE_push[OF nodes, of segment_lt "[]"] by auto
  have "take FP_SIZE (fst it) \<in> ckey ` set (concat segs)" if "n \<in> set que" "it \<in> set (segmentChunkCount n)" for n it
  proof -
    have "n \<in> ?g ` set ids" using that(1) mset_eq_setD[OF que(2)] by (simp only: set_map)
    then obtain i where i: "n = ?g i" "i \<in> set ids" by (rule imageE)
    then have "fst it \<in> set (seg_fps segs [i])" using that(2) count_map_keys[of "seg_fps segs [i]"] by (auto simp: Let_def)
    then have "fst it \<in> ckey ` set (concat segs)" using seg_fps_subset[of "[i]" segs] i(2) ids(3) by auto
    then show ?thesis using keys by auto
  qed
  then show ?thesis using que(1) by blast
qed

lemma segment_pair_exact:
  assumes "minP \<le> MAXIMUM_ENTROPY" "exact view (ckey ` set (concat csegs)) P sz s"
    and stores: "view (p_seg_db s) = seg_table psegs" "view (c_seg_db s) = seg_table csegs"
    and segs: "\<forall>segs \<in> {psegs, csegs}. sized_segs (view (size_db s)) sz segs"
    and pairs: "\<forall>(c, p) \<in> set (segment_pairing s). c \<in> slice_nodes csegs sz \<and> p \<in> slice_nodes psegs sz"
  shows "\<exists>s'. segment_pair L minP s = Inr s' \<and> exact view (ckey ` set (concat csegs)) P sz s'"
proof -
  let ?C = "ckey ` set (concat csegs)"
  define I where "I s' \<longleftrightarrow> exact view ?C P sz s' \<and> same_stores s s'" for s'
  have "\<exists>s2. (case cp of (c, p) \<Rightarrow> \<lambda>s. bindE (load_segments L False s (svalue c)) (\<lambda>c_segment.
       bindE (load_segments L True s (svalue p)) (\<lambda>p_segment.
         match_segments L minP (drain segment_lt c_segment) (drain segment_lt p_segment) s))) s1 = Inr s2 \<and> I s2"
    if cp: "cp \<in> set (segment_pairing s)" and s1: "I s1" for cp s1
  proof -
    obtain c p where e: "cp = (c, p)" by fastforce
    then have nodes: "c \<in> slice_nodes csegs sz" "p \<in> slice_nodes psegs sz" using pairs cp by auto
    have same: "view (c_seg_db s1) = seg_table csegs" "view (p_seg_db s1) = seg_table psegs" "size_db s1 = size_db s"
      using s1 stores by (auto simp: I_def same_stores_def)
    have ready: "length segs < 2 ^ 32" "\<forall>seg \<in> set segs. seg \<noteq> []" "length (concat segs) < 2 ^ 32" "\<forall>c \<in> set (concat segs). length (ckey c) = FP_SIZE"
      "\<forall>fp \<in> ckey ` set (concat segs). view (size_db s1) fp = Some (u64_bytes (sz fp))" if "segs \<in> {psegs, csegs}" for segs
      using bspec[OF segs that] same(3) by (auto simp: sized_segs_def)
    obtain ci where ci: "ci \<noteq> []" "sorted_wrt (<) ci" "set ci \<subseteq> {..<length csegs}" "svalue c = concat (map id_bytes ci)"
      using slice_node_cases[OF nodes(1) ready(2,3)] by blast
    obtain pi where pi: "pi \<noteq> []" "sorted_wrt (<) pi" "set pi \<subseteq> {..<length psegs}" "svalue p = concat (map id_bytes pi)"
      using slice_node_cases[OF nodes(2) ready(2,3)] by blast
    obtain cq where cq: "load_segments L False s1 (svalue c) = Inr cq" "\<forall>n \<in> set cq. \<forall>it \<in> set (segmentChunkCount n). take FP_SIZE (fst it) \<in> ?C"
      using load_segments_chunks[of False s1 csegs ci sz, OF _ ready(1,4) ci(1-3) ready(5)] same ci(4) by auto
    obtain pq where pq: "load_segments L True s1 (svalue p) = Inr pq"
      using load_segments_chunks[of True s1 psegs pi sz, OF _ ready(1,4) pi(1-3) ready(5)] same pi(4) by auto
    obtain s2 where s2: "match_segments L minP (drain segment_lt cq) (drain segment_lt pq) s1 = Inr s2" "exact view ?C P sz s2" "same_stores s1 s2"
      using match_segments_exact[OF assms(1), of ?C P sz s1 "drain segment_lt cq" "drain segment_lt pq"] s1 cq(2) by (auto simp: I_def)
    then show ?thesis using cq(1) pq s1 by (auto simp: e I_def same_stores_def)
  qed
  moreover have "I s" using assms(2) by (simp add: I_def same_stores_def)
  ultimately show ?thesis unfolding segment_pair_def using foldE_succeeds[of I s "segment_pairing s"] I_def by blast
qed

section \<open>The whole attack\<close>

text \<open>The two queues of slices and the pairs of slices.\<close>

lemma slices_paired:
  assumes p: "view (p_seg_db s) = seg_table psegs" "indexed (view (p_slice_db s)) (length psegs) I key ids"
    and c: "view (c_seg_db s) = seg_table csegs" "indexed (view (c_slice_db s)) (length csegs) J key' ids'"
    and segs: "\<forall>segs \<in> {psegs, csegs}. sized_segs (view (size_db s)) sz segs" and t: "0 \<le> t" "t \<le> 1"
    and start: "slice_pairing s = []" "segment_pairing s = []"
  shows "\<exists>pq cq a b st. load_slice L True s [] = Inr pq \<and> load_slice L False s [] = Inr cq \<and>
    pair_slices pq cq u r t s = Inr (s\<lparr>slice_pairing := a, segment_pairing := b\<rparr>, st) \<and>
    (\<forall>(c, p) \<in> set a \<union> set b. c \<in> slice_nodes csegs sz \<and> p \<in> slice_nodes psegs sz)"
proof -
  have ready: "length segs < 2 ^ 32" "\<forall>seg \<in> set segs. seg \<noteq> []" "length (concat segs) < 2 ^ 32" "\<forall>c \<in> set (concat segs). length (ckey c) = FP_SIZE"
    "\<forall>fp \<in> ckey ` set (concat segs). view (size_db s) fp = Some (u64_bytes (sz fp))" if "segs \<in> {psegs, csegs}" for segs
    using bspec[OF segs that] by (auto simp: sized_segs_def)
  obtain pq where pq: "load_slice L True s [] = Inr pq" "mset pq = image_mset (\<lambda>c. node_of psegs sz (key c) (ids c)) (mset_set I)"
    using load_slices[of True s psegs I key ids sz, OF _ ready(1,4) _ ready(5)] p by auto
  obtain cq where cq: "load_slice L False s [] = Inr cq" "mset cq = image_mset (\<lambda>c. node_of csegs sz (key' c) (ids' c)) (mset_set J)"
    using load_slices[of False s csegs J key' ids' sz, OF _ ready(1,4) _ ready(5)] c by auto
  note nodes = indexed_nodes[OF p(2) pq(2)] indexed_nodes[OF c(2) cq(2)]
  let ?tars = "drain slice_lt cq" and ?ori = "drain slice_lt pq"
  have "sliceEntropy node + t \<le> MAXIMUM_ENTROPY" if "node \<in> set ?tars" for node
  proof -
    have "node \<in> slice_nodes csegs sz" using that nodes(2) by auto
    then have "sliceEntropy node \<le> 32" by (rule slice_node_cases) (use ready(2,3)[of csegs] in auto)
    then show ?thesis using t by (simp add: MAXIMUM_ENTROPY_def)
  qed
  moreover have "t \<le> MAXIMUM_ENTROPY" using t by (simp add: MAXIMUM_ENTROPY_def)
  ultimately obtain ps st where ps: "pair_slices pq cq u r t s = Inr (fold (record_ranks ?tars ?ori) ps s, st)" "good_pairs t r ?tars ?ori 0 {} ps"
    using pair_slices_pairs[of t ?tars cq ?ori pq u r s] by blast
  obtain a b where ab: "fold (record_ranks ?tars ?ori) ps s = s\<lparr>slice_pairing := a, segment_pairing := b\<rparr>"
    "set a \<union> set b \<subseteq> (\<lambda>(c, i). (?tars ! c, ?ori ! i)) ` set ps" using fold_record_ranks[of ?tars ?ori ps s] start by auto
  have "?tars ! c \<in> slice_nodes csegs sz \<and> ?ori ! i \<in> slice_nodes psegs sz" if "(c, i) \<in> set ps" for c i
  proof -
    have "c < length ?tars" "i \<in> set (window (word_of_nat c) r (length ?ori))" using good_pairs_facts[OF ps(2)] that by auto
    then have "c < length ?tars" "i < length ?ori" by (auto intro: window_less)
    then show ?thesis using nodes nth_mem[of c ?tars] nth_mem[of i ?ori] by (auto simp del: length_drain)
  qed
  then have "\<forall>(c, p) \<in> set a \<union> set b. c \<in> slice_nodes csegs sz \<and> p \<in> slice_nodes psegs sz" using ab(2) by fastforce
  then show ?thesis using pq(1) cq(1) ps(1) ab(1) by metis
qed

lemma node_counts:
  assumes "node \<in> slice_nodes segs sz"
  shows "\<exists>xs. sliceChunkCount node = count_map xs \<and> set xs \<subseteq> ckey ` set (concat segs)"
  using assms seg_fps_subset by (fastforce simp: slice_nodes_def node_of_def Let_def)

lemma main_pair_exact:
  assumes opens: "ldb_open L ''output/plain/seg'' = (StOk, Some pseg)" "ldb_open L ''output/plain/slice'' = (StOk, Some pslice)"
      "ldb_open L ''output/cipher/seg'' = (StOk, Some cseg)" "ldb_open L ''output/cipher/slice'' = (StOk, Some cslice)"
      "ldb_open L ''output/referdb'' = (StOk, Some refer)" "ldb_open L ''output/chunksize'' = (StOk, Some sizes)"
    and p: "view pseg = seg_table psegs" "indexed (view pslice) (length psegs) I key ids"
    and c: "view cseg = seg_table csegs" "indexed (view cslice) (length csegs) J key' ids'"
    and segs: "\<forall>segs \<in> {psegs, csegs}. sized_segs (view sizes) sz segs" and refer: "view refer = Map.empty"
    and s: "slice_pairing s = []" "segment_pairing s = []" "n_infer s = 0" "n_correct s = 0" "segmentInferChunk s = 0"
  shows "case main_pair L s of None \<Rightarrow> \<exists>x \<in> ckey ` set (concat csegs). \<exists>y \<in> ckey ` set (concat psegs). sz x \<noteq> sz y
    | Some r \<Rightarrow> \<exists>s' st. r = Inr (s', st) \<and> exact view (ckey ` set (concat csegs)) (ckey ` set (concat psegs)) sz s'"
proof -
  let ?C = "ckey ` set (concat csegs)" and ?P = "ckey ` set (concat psegs)"
  define s0 where "s0 = s\<lparr>p_seg_db := pseg, p_slice_db := pslice, c_seg_db := cseg, c_slice_db := cslice, infer_db := refer, size_db := sizes\<rparr>"
  have init: "init_dbs_pair L ''output/plain/seg'' ''output/plain/slice'' ''output/cipher/seg''
      ''output/cipher/slice'' ''output/referdb'' ''output/chunksize'' s = Inr s0"
    using opens by (simp add: init_dbs_pair_def open_db_def s0_def)
  have st0: "view (p_seg_db s0) = seg_table psegs" "indexed (view (p_slice_db s0)) (length psegs) I key ids"
    "view (c_seg_db s0) = seg_table csegs" "indexed (view (c_slice_db s0)) (length csegs) J key' ids'"
    "\<forall>segs \<in> {psegs, csegs}. sized_segs (view (size_db s0)) sz segs" "slice_pairing s0 = []" "segment_pairing s0 = []"
    using p c segs s by (simp_all add: s0_def)
  obtain pq cq a b st where q: "load_slice L True s0 [] = Inr pq" "load_slice L False s0 [] = Inr cq"
    "pair_slices pq cq 4000 536 (1 / 5) s0 = Inr (s0\<lparr>slice_pairing := a, segment_pairing := b\<rparr>, st)"
    "\<forall>(c, p) \<in> set a \<union> set b. c \<in> slice_nodes csegs sz \<and> p \<in> slice_nodes psegs sz"
    using slices_paired[OF st0(1-5) _ _ st0(6,7), of "1 / 5" 4000 536] by auto
  define s1 where "s1 = s0\<lparr>slice_pairing := a, segment_pairing := b\<rparr>"
  have st1: "view (p_seg_db s1) = seg_table psegs" "view (c_seg_db s1) = seg_table csegs" "size_db s1 = sizes" "slice_pairing s1 = a" "segment_pairing s1 = b"
    using st0(1,3) by (simp_all add: s1_def s0_def)
  have ex1: "exact view ?C ?P sz s1" using s refer by (simp add: exact_def s1_def s0_def)
  have counts: "\<forall>(c, p) \<in> set a. (\<exists>xs. sliceChunkCount c = count_map xs \<and> set xs \<subseteq> ?C) \<and> (\<exists>ys. sliceChunkCount p = count_map ys \<and> set ys \<subseteq> ?P)"
    using q(4) node_counts by fast
  have known: "\<forall>x \<in> ?C \<union> ?P. length x = FP_SIZE \<and> view (size_db s1) x = Some (u64_bytes (sz x))"
    using segs unfolding st1(3) sized_segs_def by blast
  have main: "main_pair L s = (case freq_pairs L a s1 of None \<Rightarrow> None
      | Some r \<Rightarrow> Some (bindE r (\<lambda>s. bindE (segment_pair L (1 / 10) s) (\<lambda>s. Inr (s, st)))))"
    using q(1-3) st1(4) by (simp add: main_pair_def init freq_analysis_def flip: s1_def)
  note freq = freq_pairs_exact[OF ex1 known counts]
  show ?thesis
  proof (cases "freq_pairs L a s1")
    case None
    then show ?thesis using freq main by simp
  next
    case (Some r)
    then obtain s2 d n m where s2: "r = Inr s2" "exact view ?C ?P sz s2" "s2 = s1\<lparr>infer_db := d, n_infer := n, n_correct := m\<rparr>"
      using freq by auto
    have st2: "view (p_seg_db s2) = seg_table psegs" "view (c_seg_db s2) = seg_table csegs" "size_db s2 = sizes" "segment_pairing s2 = b"
      using st1 by (simp_all add: s2(3))
    have "\<exists>s'. segment_pair L (1 / 10) s2 = Inr s' \<and> exact view ?C ?P sz s'"
      using segs q(4) by (intro segment_pair_exact[OF _ s2(2) st2(1,2)]) (auto simp: st2(3,4) MAXIMUM_ENTROPY_def)
    then show ?thesis using Some s2(1) main by auto
  qed
qed

end

section \<open>The three programs one after the other\<close>

text \<open>A store stays on disk under its name: what a program left there is what the next one opens. The names are
  written with and without the current directory.\<close>

definition plain_path :: "string \<Rightarrow> string" where
  "plain_path name = (if take 2 name = ''./'' then drop 2 name else name)"

definition on_disk :: "(string \<rightharpoonup> 'db) \<Rightarrow> 'db leveldb \<Rightarrow> 'db leveldb" where
  "on_disk D L = L\<lparr>ldb_open := \<lambda>name. case D (plain_path name) of None \<Rightarrow> ldb_open L name | Some db \<Rightarrow> (StOk, Some db)\<rparr>"

lemma on_disk_laws: "leveldb_laws L view \<Longrightarrow> leveldb_laws (on_disk D L) view"
  by (simp add: leveldb_laws_def on_disk_def)

lemma open_on_disk: "ldb_open (on_disk D L) name = (case D (plain_path name) of None \<Rightarrow> ldb_open L name | Some db \<Rightarrow> (StOk, Some db))"
  by (simp add: on_disk_def)

lemma main_psl_run:
  assumes L: "leveldb_laws L view"
    and fresh: "\<forall>name \<in> {''./output/plain/seg'', ''./output/plain/slice''}. \<exists>db. ldb_open L name = (StOk, Some db) \<and> view db = Map.empty"
    and sizes: "ldb_open L ''./output/chunksize'' = (StOk, Some sizes)"
    and args: "length argv = 2" "fs (argv ! 1) = Some file"
    and trace: "trace_entries file = Inr (c # cs)" "csize c \<le> SEG_SIZE"
    and s: "pseg_count s = 0" "pslice_count s = 0" and segs: "segs = segments [] 0 (c # cs)"
  shows "\<exists>s'. main_psl L rnd fs argv s = Inr s' \<and> view (pseg_db s') = seg_table segs \<and> view (pslice_db s') = slice_table segs \<and>
    view (pchunk_size s') = fold size_upd (c # cs) (view sizes)"
proof -
  obtain s1 where s1: "init_dbs_psl L ''./output/plain/seg'' ''./output/plain/slice'' ''./output/chunksize'' s = Inr s1"
    "pslice_stored view (view sizes) [] s1"
    using fresh sizes s by (auto simp: init_dbs_psl_def open_db_def pslice_stored_def)
  obtain s2 where "read_hashes_psl L rnd file s1 = Inr s2" "pslice_stored view (view sizes) segs s2"
    using leveldb_laws.psl_run_stored[OF L s1(2) segments_of_trace(1)[OF trace(2)], of rnd] read_hashes_psl_seg_run[OF trace(1)] segs by metis
  then show ?thesis
    using s1(1) args concat_segments[of "[]" 0 "c # cs"] segs by (auto simp: main_psl_def pslice_stored_def)
qed

lemma sized_trace:
  assumes "trace_entries file = Inr (c # cs)" "csize c \<le> SEG_SIZE" "length (c # cs) < 2 ^ 32"
    "\<forall>x \<in> set (c # cs). tab (ckey x) = Some (u64_bytes (sz (ckey x)))"
  shows "sized_segs tab sz (segments [] 0 (c # cs))"
proof -
  let ?segs = "segments [] 0 (c # cs)"
  have c: "concat ?segs = c # cs" using concat_segments[of "[]" 0 "c # cs"] by simp
  show ?thesis
    unfolding sized_segs_def c using segments_of_trace[OF assms(2), of cs] assms(3,4) trace_entries_keys[OF assms(1)] by auto
qed

end
