(* ===== verification/Bucket.thy ===== *)
theory Bucket
  imports Segment CppLib
begin

text \<open>
  The stores of the size-bucket programs (\<open>Bucket/src\<close>): a store from fingerprints to counts, kept as
  decimal text, and a store from sizes to the fingerprints that were first seen with that size. The
  programs \<open>readChunksToDBs.cc\<close> and \<open>testDBs.cc\<close> fill them from a trace, \<open>countDB.cc\<close> sums a count
  store up, and \<open>encryptFSL.cc\<close> prints the trace with every fingerprint encrypted. The filling is
  proved once, for a sequence of insertions, through the contract \<open>sequence_store\<close>; as the counts go
  through \<open>atoi\<close>, they have to stay below \<open>2 ^ 31\<close>. MD5 is a parameter \<open>md5\<close>.
\<close>

section \<open>The stores\<close>

text \<open>\<open>insertFCdb\<close>: the updated store and the result, an \<open>int\<close>.\<close>

definition insertFCdb :: "'db leveldb \<Rightarrow> bytes \<Rightarrow> 'db \<Rightarrow> int \<times> 'db" where
  "insertFCdb L key db =
     (let (status, exs) = ldb_get L db key []
      in if status \<noteq> StOk then (1, snd (ldb_put L db key ''1''))
         else let count = word_of_int (atoi exs) + 1 :: u64
              in (sint (ucast count :: 32 word), snd (ldb_put L db key (to_string count))))"

definition insertSFdb :: "'db leveldb \<Rightarrow> string \<Rightarrow> bytes \<Rightarrow> 'db \<Rightarrow> cpp_error + 'db" where
  "insertSFdb L sz key db =
     (let (status, exs) = ldb_get L db sz []
      in if status \<noteq> StOk then Inr (snd (ldb_put L db sz key))
         else let insertKey = exs @ key
              in if length insertKey mod 6 \<noteq> 0 then Inl (ExitCall 0)
                 else Inr (snd (ldb_put L db sz insertKey)))"

text \<open>The two together: a key that is counted for the first time enters the bucket of its size.\<close>

definition bucket_insert ::
  "'db leveldb \<Rightarrow> bytes \<times> string \<times> bytes \<Rightarrow> 'db \<times> 'db \<Rightarrow> cpp_error + (bool \<times> 'db \<times> 'db)" where
  "bucket_insert L = (\<lambda>(key, sz, fp) (fc, sf).
     (let (r, fc) = insertFCdb L key fc
      in if r = 1 then bindE (insertSFdb L sz fp sf) (\<lambda>sf. Inr (True, fc, sf))
         else Inr (False, fc, sf)))"

section \<open>readChunksToDBs\<close>

record 'db buckets =
  FCdb :: 'db
  SFdb :: 'db
  totalLogicChunkNumber :: u64
  totalUniqueChunkNumber :: u64

definition initDB_rc :: "'db leveldb \<Rightarrow> string \<Rightarrow> string \<Rightarrow> 'db buckets \<Rightarrow> cpp_error + 'db buckets" where
  "initDB_rc L db1 db2 s =
     bindE (open_db L db1) (\<lambda>d1. bindE (open_db L db2) (\<lambda>d2. Inr (s\<lparr>FCdb := d1, SFdb := d2\<rparr>)))"

definition read_one :: "'db leveldb \<Rightarrow> chunk \<Rightarrow> 'db buckets \<Rightarrow> cpp_error + 'db buckets" where
  "read_one L c s =
     bindE (bucket_insert L (ckey c, to_string (csize c), ckey c) (FCdb s, SFdb s)) (\<lambda>(new, fc, sf).
       Inr (s\<lparr>FCdb := fc, SFdb := sf, totalLogicChunkNumber := totalLogicChunkNumber s + 1,
              totalUniqueChunkNumber := totalUniqueChunkNumber s + (if new then 1 else 0)\<rparr>))"

text \<open>The first line is skipped whatever it holds.\<close>

definition readInChunks :: "'db leveldb \<Rightarrow> string \<Rightarrow> 'db buckets \<Rightarrow> cpp_error + 'db buckets" where
  "readInChunks L file s = foldE (\<lambda>l s. bindE (chunk_of_line l) (\<lambda>c. read_one L c s)) (drop 1 (fgets_lines file)) s"

definition main_rc :: "'db leveldb \<Rightarrow> (string \<rightharpoonup> string) \<Rightarrow> string list \<Rightarrow> 'db buckets \<Rightarrow> cpp_error + 'db buckets" where
  "main_rc L fs argv s =
     (if length argv < 4 then Inl AssertFail
      else bindE (initDB_rc L (argv ! 2) (argv ! 3) s) (\<lambda>s.
             case fs (argv ! 1) of None \<Rightarrow> Inl AssertFail | Some file \<Rightarrow> readInChunks L file s))"

section \<open>testDBs\<close>

definition DBNUM :: nat where
  "DBNUM = 3"

definition initDB_test :: "'db leveldb \<Rightarrow> cpp_error + 'db list" where
  "initDB_test L = mapE (\<lambda>i. open_db L (''./'' @ dec_nat i)) [0..<DBNUM]"

definition test_one :: "'db leveldb \<Rightarrow> chunk \<Rightarrow> 'db list \<times> u64 \<Rightarrow> 'db list \<times> u64" where
  "test_one L c = (\<lambda>(dbs, n). (map (\<lambda>db. snd (insertFCdb L (ckey c) db)) dbs, n + 1))"

definition readInChunks_test :: "'db leveldb \<Rightarrow> string \<Rightarrow> 'db list \<times> u64 \<Rightarrow> cpp_error + ('db list \<times> u64)" where
  "readInChunks_test L file s =
     foldE (\<lambda>l s. bindE (chunk_of_line l) (\<lambda>c. Inr (test_one L c s))) (drop 1 (fgets_lines file)) s"

definition main_test :: "'db leveldb \<Rightarrow> (string \<rightharpoonup> string) \<Rightarrow> string list \<Rightarrow> cpp_error + ('db list \<times> u64)" where
  "main_test L fs argv =
     bindE (initDB_test L) (\<lambda>dbs.
     bindE (argv_at argv 1) (\<lambda>a.
       case fs a of None \<Rightarrow> Inl AssertFail | Some file \<Rightarrow> readInChunks_test L file (dbs, 0)))"

section \<open>countDB\<close>

text \<open>\<open>MFC\<close>: the number of logical and of unique chunks of a count store.\<close>

definition MFC_count :: "'db leveldb \<Rightarrow> 'db \<Rightarrow> cpp_error + (u64 \<times> u64)" where
  "MFC_count L db =
     (let (es, st) = ldb_iter L db;
          r = fold (\<lambda>(k, v) (logic, unique). (logic + word_of_int (atoi v), unique + 1)) es (0, 0)
      in if st = StOk then Inr r else Inl AssertFail)"

definition main_countDB :: "'db leveldb \<Rightarrow> string list \<Rightarrow> cpp_error + (u64 \<times> u64)" where
  "main_countDB L argv = bindE (argv_at argv 1) (\<lambda>a. bindE (open_db L a) (MFC_count L))"

section \<open>encryptFSL\<close>

definition enc_title :: string where
  "enc_title = ''Chunk Hash   Chunk Size (bytes) '' @ [TAB] @ ''Compression Ratio (tenth)'' @ [LF]"

definition enc_fp :: "(bytes \<Rightarrow> bytes) \<Rightarrow> bytes \<Rightarrow> bytes" where
  "enc_fp md5 hash = take FP_SIZE (md5 hash)"

definition enc_line :: "(bytes \<Rightarrow> bytes) \<Rightarrow> chunk \<Rightarrow> string" where
  "enc_line md5 c = fp_text (enc_fp md5 (ckey c)) @ TAB # printf_d (csize c) @ TAB # ''10'' @ [LF]"

definition outPutChunks :: "(bytes \<Rightarrow> bytes) \<Rightarrow> string \<Rightarrow> cpp_error + string" where
  "outPutChunks md5 file =
     foldE (\<lambda>l mk. bindE (chunk_of_line l) (\<lambda>c. Inr (mk @ enc_line md5 c))) (drop 1 (fgets_lines file)) enc_title"

text \<open>The output file is named after the input; \<open>sprintf\<close> writes the name to a buffer of 256 bytes.\<close>

definition main_enc :: "(bytes \<Rightarrow> bytes) \<Rightarrow> (string \<rightharpoonup> string) \<Rightarrow> string list \<Rightarrow> cpp_error + (string \<times> string)" where
  "main_enc md5 fs argv =
     (if length argv < 2 then Inl AssertFail
      else case fs (argv ! 1) of
             None \<Rightarrow> Inl AssertFail
           | Some file \<Rightarrow>
               if length (argv ! 1 @ ''.enc'') + 1 > 256 then Inl BufferOverflow
               else bindE (outPutChunks md5 file) (\<lambda>mk. Inr (argv ! 1 @ ''.enc'', mk)))"

section \<open>The stores after a sequence of insertions\<close>

text \<open>The first occurrences of each key, in order.\<close>

fun first_occ :: "'k set \<Rightarrow> ('k \<times> 'v) list \<Rightarrow> ('k \<times> 'v) list" where
  "first_occ seen [] = []"
| "first_occ seen ((k, v) # xs) = (if k \<in> seen then first_occ seen xs else (k, v) # first_occ (insert k seen) xs)"

lemma first_occ_snoc:
  "first_occ seen (xs @ [(k, v)]) = first_occ seen xs @ (if k \<in> seen \<union> fst ` set xs then [] else [(k, v)])"
  by (induction seen xs rule: first_occ.induct) (auto simp: insert_absorb)

lemma keys_first_occ: "fst ` set (first_occ seen xs) = fst ` set xs - seen"
  by (induction seen xs rule: first_occ.induct) (auto simp: image_iff)

lemma distinct_first_occ: "distinct (map fst (first_occ seen xs))"
proof (induction seen xs rule: first_occ.induct)
  case (2 seen k v xs)
  then show ?case using keys_first_occ[of "insert k seen" xs] by auto
qed simp

definition fc_table :: "bytes list \<Rightarrow> bytes \<rightharpoonup> bytes" where
  "fc_table ks k = (if k \<in> set ks then Some (dec_nat (count_list ks k)) else None)"

definition sf_table :: "(bytes \<times> string \<times> bytes) list \<Rightarrow> string \<rightharpoonup> bytes" where
  "sf_table xs sz =
     (let fps = map (\<lambda>(k, z, fp). fp) (filter (\<lambda>(k, z, fp). z = sz) (first_occ {} xs))
      in if fps = [] then None else Some (concat fps))"

lemma fc_table_snoc: "fc_table (ks @ [k]) = (fc_table ks)(k \<mapsto> dec_nat (Suc (count_list ks k)))"
  by (auto simp: fun_eq_iff fc_table_def)

lemma sf_table_snoc:
  "sf_table (xs @ [(k, sz, fp)]) =
     (if k \<in> fst ` set xs then sf_table xs
      else (sf_table xs)(sz \<mapsto> (case sf_table xs sz of None \<Rightarrow> [] | Some v \<Rightarrow> v) @ fp))"
  by (auto simp: fun_eq_iff sf_table_def first_occ_snoc Let_def)

lemma sint_int_of_nat: "n < 2 ^ 31 \<Longrightarrow> sint (ucast (word_of_nat n :: u64) :: 32 word) = int n"
proof -
  assume n: "n < 2 ^ 31"
  then have "(ucast (word_of_nat n :: u64) :: 32 word) = word_of_nat n"
    by (simp add: unsigned_of_nat take_bit_nat_eq_self)
  then show ?thesis using n by (simp add: signed_of_nat signed_take_bit_int_eq_self)
qed

lemma dec_nat_1: "dec_nat (Suc 0) = ''1''"
  by (simp add: dec_nat.simps digit_char_def) code_simp

context leveldb_laws
begin

lemma insertFCdb_table:
  assumes "view db = fc_table ks" "length ks < 2 ^ 31 - 1"
  shows "view (snd (insertFCdb L k db)) = fc_table (ks @ [k]) \<and> (fst (insertFCdb L k db) = 1 \<longleftrightarrow> k \<notin> set ks)"
proof (cases "k \<in> set ks")
  case False
  then show ?thesis
    by (simp add: insertFCdb_def get_cases assms(1) fc_table_snoc view_put) (simp add: fc_table_def dec_nat_1 view_put assms(1) fc_table_snoc)
next
  case True
  let ?n = "count_list ks k"
  have n: "0 < ?n" "Suc ?n < 2 ^ 31"
    using True count_le_length[of ks k] assms(2) by (auto simp: count_list_0_iff intro!: Nat.gr0I)
  have "atoi (dec_nat ?n) = int ?n" using atoi_dec_nat[of ?n "[]"] n by simp
  then have c: "(word_of_int (atoi (dec_nat ?n)) + 1 :: u64) = word_of_nat (Suc ?n)" by simp
  have "to_string (word_of_nat (Suc ?n)) = dec_nat (Suc ?n)"
    using n by (simp add: to_string_def unsigned_of_nat take_bit_nat_eq_self del: of_nat_Suc)
  moreover have "sint (ucast (word_of_nat (Suc ?n) :: u64) :: 32 word) \<noteq> 1"
    using sint_int_of_nat[OF n(2)] n(1) by simp
  ultimately show ?thesis
    using True c by (simp add: insertFCdb_def get_cases assms(1) fc_table_snoc view_put fc_table_def del: of_nat_Suc)
qed

end

definition bucket_follows :: "('db \<Rightarrow> bytes \<rightharpoonup> bytes) \<Rightarrow> (bytes \<times> string \<times> bytes) list \<Rightarrow> 'db \<times> 'db \<Rightarrow> bool" where
  "bucket_follows view xs = (\<lambda>(fc, sf). view fc = fc_table (map fst xs) \<and> view sf = sf_table xs)"

definition bucket_fits :: "(bytes \<times> string \<times> bytes) list \<Rightarrow> bool" where
  "bucket_fits xs \<longleftrightarrow> length xs < 2 ^ 31 \<and> (\<forall>(k, z, fp) \<in> set xs. length fp = FP_SIZE)"

lemma set_first_occ: "set (first_occ seen xs) \<subseteq> set xs"
  by (induction seen xs rule: first_occ.induct) auto

lemma sf_table_length:
  assumes "\<forall>(k, z, fp) \<in> set xs. length fp = FP_SIZE" "sf_table xs z = Some v"
  shows "length v mod 6 = 0"
proof -
  let ?fps = "map (\<lambda>(k, z, fp). fp) (filter (\<lambda>(k, z', fp). z' = z) (first_occ {} xs))"
  have "\<forall>fp \<in> set ?fps. length fp = FP_SIZE" using assms(1) set_first_occ[of "{}" xs] by fastforce
  from length_concat_blocks[OF this] have "length (concat ?fps) mod 6 = 0" by presburger
  moreover have "v = concat ?fps" using assms(2) by (auto simp: sf_table_def Let_def split: if_splits)
  ultimately show ?thesis by simp
qed

context leveldb_laws
begin

lemma insertSFdb_put:
  assumes "\<forall>v. view db z = Some v \<longrightarrow> length v mod 6 = 0" "length fp = FP_SIZE"
  shows "\<exists>d. insertSFdb L z fp db = Inr d \<and> view d = (view db)(z \<mapsto> (case view db z of None \<Rightarrow> [] | Some v \<Rightarrow> v) @ fp)"
proof (cases "view db z")
  case None
  then show ?thesis by (simp add: insertSFdb_def get_cases view_put)
next
  case (Some v)
  then have "length (v @ fp) mod 6 = 0" using assms by (simp add: mod_add_left_eq[symmetric])
  then show ?thesis using Some by (simp add: insertSFdb_def get_cases view_put)
qed

lemma bucket_insert_follows:
  assumes "bucket_follows view xs st" "bucket_fits (xs @ [x])"
  shows "\<exists>st'. bucket_insert L x st = Inr (fst x \<notin> fst ` set xs, st') \<and> bucket_follows view (xs @ [x]) st'"
proof -
  obtain fc sf where st: "st = (fc, sf)" by (cases st)
  obtain k z fp where x: "x = (k, z, fp)" by (cases x)
  have v: "view fc = fc_table (map fst xs)" "view sf = sf_table xs" using assms(1) by (simp_all add: bucket_follows_def st)
  have len: "length (map fst xs) < 2 ^ 31 - 1" "length fp = FP_SIZE" "\<forall>(k, z, fp) \<in> set xs. length fp = FP_SIZE"
    using assms(2) by (auto simp: bucket_fits_def x)
  have fc: "view (snd (insertFCdb L k fc)) = fc_table (map fst (xs @ [x]))" "fst (insertFCdb L k fc) = 1 \<longleftrightarrow> k \<notin> fst ` set xs"
    using insertFCdb_table[OF v(1) len(1), of k] by (simp_all add: x)
  obtain d where d: "insertSFdb L z fp sf = Inr d" "view d = (sf_table xs)(z \<mapsto> (case sf_table xs z of None \<Rightarrow> [] | Some v \<Rightarrow> v) @ fp)"
    using insertSFdb_put[of sf z fp] sf_table_length[OF len(3), of z] len(2) v(2) by auto
  show ?thesis
    using fc d v by (cases "k \<in> fst ` set xs")
      (auto simp: bucket_insert_def st x case_prod_beta bucket_follows_def sf_table_snoc)
qed

end

section \<open>Reading a trace\<close>

definition rc_entry :: "chunk \<Rightarrow> bytes \<times> string \<times> bytes" where
  "rc_entry c = (ckey c, to_string (csize c), ckey c)"

definition rc_follows :: "('db \<Rightarrow> bytes \<rightharpoonup> bytes) \<Rightarrow> chunk list \<Rightarrow> 'db buckets \<Rightarrow> bool" where
  "rc_follows view cs s \<longleftrightarrow> bucket_follows view (map rc_entry cs) (FCdb s, SFdb s) \<and>
     totalLogicChunkNumber s = word_of_nat (length cs) \<and> totalUniqueChunkNumber s = word_of_nat (card (ckey ` set cs))"

definition rc_fits :: "chunk list \<Rightarrow> bool" where
  "rc_fits cs \<longleftrightarrow> length cs < 2 ^ 31 \<and> (\<forall>c \<in> set cs. length (ckey c) = FP_SIZE)"

lemma fst_rc_entry [simp]: "fst (rc_entry c) = ckey c"
  by (simp add: rc_entry_def)

lemma fst_comp_rc_entry [simp]: "fst \<circ> rc_entry = ckey"
  by (simp add: fun_eq_iff)

lemma rc_entry_keys: "fst ` rc_entry ` S = ckey ` S" "map fst (map rc_entry cs) = map ckey cs"
  by (auto simp: rc_entry_def image_image)

lemma rc_fits_bucket_fits: "rc_fits cs \<Longrightarrow> bucket_fits (map rc_entry cs)"
  by (auto simp: rc_fits_def bucket_fits_def rc_entry_def)

context leveldb_laws
begin

lemma read_one_follows:
  assumes "rc_follows view cs s" "rc_fits (cs @ [c])"
  shows "\<exists>s'. read_one L c s = Inr s' \<and> rc_follows view (cs @ [c]) s'"
proof -
  have "bucket_fits (map rc_entry cs @ [rc_entry c])" using rc_fits_bucket_fits[OF assms(2)] by simp
  then obtain st where st: "bucket_insert L (rc_entry c) (FCdb s, SFdb s) = Inr (ckey c \<notin> ckey ` set cs, st)"
    "bucket_follows view (map rc_entry (cs @ [c])) st"
    using bucket_insert_follows[of "map rc_entry cs" "(FCdb s, SFdb s)" "rc_entry c"] assms(1)
    by (auto simp: rc_follows_def rc_entry_keys fst_rc_entry)
  obtain fc sf where "st = (fc, sf)" by (cases st)
  then show ?thesis
    using st assms(1) by (auto simp: read_one_def rc_entry_def rc_follows_def insert_absorb)
qed

end

sublocale leveldb_laws \<subseteq> rc: sequence_store "read_one L" rc_fits "rc_follows view"
  by unfold_locales (auto simp: rc_fits_def intro!: read_one_follows)

definition body_entries :: "string \<Rightarrow> cpp_error + chunk list" where
  "body_entries file = mapE chunk_of_line (drop 1 (fgets_lines file))"

lemma foldE_body_entries:
  "body_entries file = Inr cs \<Longrightarrow>
   foldE (\<lambda>l s. bindE (chunk_of_line l) (\<lambda>c. f c s)) (drop 1 (fgets_lines file)) s = foldE f cs s"
  unfolding body_entries_def by (rule foldE_mapE)

lemma body_entries_keys:
  assumes "body_entries file = Inr cs"
  shows "\<forall>c \<in> set cs. length (ckey c) = FP_SIZE"
  by (rule mapE_chunk_keys[OF assms[unfolded body_entries_def]])

context leveldb_laws
begin

lemma readInChunks_follows:
  assumes "body_entries file = Inr cs" "length cs < 2 ^ 31" "rc_follows view [] s"
  shows "\<exists>s'. readInChunks L file s = Inr s' \<and> rc_follows view cs s'"
proof -
  have "rc_fits ([] @ cs)" using assms(2) body_entries_keys[OF assms(1)] by (simp add: rc_fits_def)
  from rc.absorb_all[OF assms(3) this] show ?thesis
    unfolding readInChunks_def foldE_body_entries[OF assms(1)] by simp
qed

end

section \<open>The printed trace\<close>

lemma printf_d_to_string: "unat w < 2 ^ 31 \<Longrightarrow> printf_d w = to_string w"
  using printf_d_of_nat[of "unat w"] by (simp add: to_string_def)

lemma enc_line_trace_line:
  assumes "unat (csize c) < 2 ^ 31"
  shows "enc_line md5 c = trace_line (enc_fp md5 (ckey c)) (to_string (csize c) @ TAB # ''10'')"
    "plain_cols (to_string (csize c) @ TAB # ''10'')"
  using to_string_plain[of "csize c"]
  by (simp_all add: enc_line_def trace_line_def printf_d_to_string[OF assms] plain_cols_def strpbrk_def)

lemma enc_title_text_line: "text_line enc_title"
  by (simp add: text_line_def enc_title_def)

definition encrypt_chunk :: "(bytes \<Rightarrow> bytes) \<Rightarrow> chunk \<Rightarrow> chunk" where
  "encrypt_chunk md5 c = c\<lparr>ckey := enc_fp md5 (ckey c)\<rparr>"

lemma body_entries_enc:
  assumes "\<forall>c \<in> set cs. unat (csize c) < 2 ^ 31" "\<forall>x. length (md5 x) = 16"
  shows "body_entries (enc_title @ concat (map (enc_line md5) cs)) = Inr (map (encrypt_chunk md5) cs)"
proof -
  have fp: "length (enc_fp md5 x) = FP_SIZE" for x using assms(2) by (simp add: enc_fp_def)
  have "\<forall>l \<in> set (enc_title # map (enc_line md5) cs). text_line l"
    using enc_title_text_line trace_line_text(1)[OF fp] enc_line_trace_line assms(1) by auto
  from fgets_lines_concat[OF this] have "fgets_lines (enc_title @ concat (map (enc_line md5) cs)) = enc_title # map (enc_line md5) cs"
    by simp
  moreover have "chunk_of_line (enc_line md5 c) = Inr (encrypt_chunk md5 c)" if "c \<in> set cs" for c
  proof -
    have "enc_line md5 c = fp_text (ckey (encrypt_chunk md5 c)) @ TAB # to_string (csize (encrypt_chunk md5 c)) @ TAB # ''10'' @ [LF]"
      using that assms(1) by (simp add: enc_line_def encrypt_chunk_def printf_d_to_string)
    then show ?thesis
      using that assms(1) fp by (simp only:) (rule chunk_of_trace_line, simp_all add: encrypt_chunk_def)
  qed
  ultimately show ?thesis unfolding body_entries_def by (simp add: mapE_all)
qed

lemma outPutChunks_text:
  assumes "body_entries file = Inr cs"
  shows "outPutChunks md5 file = Inr (enc_title @ concat (map (enc_line md5) cs))"
proof -
  have "foldE (\<lambda>c mk. Inr (mk @ enc_line md5 c)) cs t = (Inr (t @ concat (map (enc_line md5) cs)) :: cpp_error + string)" for t
    by (induction cs arbitrary: t) auto
  then show ?thesis unfolding outPutChunks_def foldE_body_entries[OF assms] by simp
qed

definition demo_body :: string where
  "demo_body = enc_title @ concat (map (enc_line (\<lambda>x. x @ replicate 10 NUL)) [demo_chunk])"

lemma demo_body_entries: "body_entries demo_body = Inr [demo_chunk]"
proof -
  have "body_entries (enc_title @ concat (map (enc_line (\<lambda>x. take 16 (x @ replicate 16 NUL))) [demo_chunk])) =
      Inr (map (encrypt_chunk (\<lambda>x. take 16 (x @ replicate 16 NUL))) [demo_chunk])"
    by (rule body_entries_enc) (auto simp: demo_chunk_def min_def)
  moreover have "enc_fp (\<lambda>x. take 16 (x @ replicate 16 NUL)) (ckey demo_chunk) = ckey demo_chunk"
    "enc_fp (\<lambda>x. x @ replicate 10 NUL) (ckey demo_chunk) = ckey demo_chunk"
    by (simp_all add: enc_fp_def demo_chunk_def)
  ultimately show ?thesis by (simp add: demo_body_def enc_line_def encrypt_chunk_def)
qed

section \<open>Properties of the bucket stores\<close>

text \<open>C36. Reading a trace into empty stores: the count store holds the decimal number of occurrences of
  every fingerprint, the bucket of a size lists, in order, the fingerprints whose first occurrence has
  that size, and the two counters are the numbers of chunks and of distinct fingerprints.\<close>

theorem readInChunks_tables:
  assumes "leveldb_laws L view" "body_entries file = Inr cs" "length cs < 2 ^ 31"
    "view (FCdb s) = Map.empty" "view (SFdb s) = Map.empty" "totalLogicChunkNumber s = 0" "totalUniqueChunkNumber s = 0"
  shows "\<exists>s'. readInChunks L file s = Inr s' \<and>
    (\<forall>fp. view (FCdb s') fp = (if fp \<in> ckey ` set cs then Some (dec_nat (count_list (map ckey cs) fp)) else None)) \<and>
    (\<forall>z. view (SFdb s') z = (let fps = map fst (filter (\<lambda>(fp, w). to_string w = z) (first_occ {} (map (\<lambda>c. (ckey c, csize c)) cs)))
       in if fps = [] then None else Some (concat fps))) \<and>
    totalLogicChunkNumber s' = word_of_nat (length cs) \<and> totalUniqueChunkNumber s' = word_of_nat (card (ckey ` set cs))"
proof -
  have start: "rc_follows view [] s"
    using assms(4-7) by (auto simp: rc_follows_def bucket_follows_def fc_table_def sf_table_def fun_eq_iff)
  obtain s' where s': "readInChunks L file s = Inr s'" "rc_follows view cs s'"
    using leveldb_laws.readInChunks_follows[OF assms(1-3) start] by blast
  have "map (\<lambda>(k, z, fp). fp) (filter (\<lambda>(k, z', fp). z' = z) (first_occ seen (map rc_entry cs))) =
      map fst (filter (\<lambda>(fp, w). to_string w = z) (first_occ seen (map (\<lambda>c. (ckey c, csize c)) cs)))" for z seen
    by (induction cs arbitrary: seen) (auto simp: rc_entry_def)
  then show ?thesis
    using s' by (auto simp: rc_follows_def bucket_follows_def fc_table_def sf_table_def rc_entry_keys Let_def)
qed

definition demo_buckets :: "mem_db buckets" where
  "demo_buckets = \<lparr>FCdb = [], SFdb = [], totalLogicChunkNumber = 0, totalUniqueChunkNumber = 0\<rparr>"

theorem readInChunks_tables_witness:
  "\<exists>s'. readInChunks (mem_leveldb (\<lambda>_. [])) demo_body demo_buckets = Inr s' \<and> totalLogicChunkNumber s' = 1 \<and>
    map_of (FCdb s') ''abcdef'' = Some ''1''"
proof -
  have "dec_nat 1 = ''1''" using dec_nat_1 by simp
  then show ?thesis
    using readInChunks_tables[OF mem.leveldb_laws_axioms demo_body_entries, of demo_buckets "\<lambda>_. []"]
    by (auto simp: demo_buckets_def demo_chunk_def)
qed

text \<open>Summing up a count store gives back the length of the trace and the number of distinct
  fingerprints.\<close>

lemma countDB_totals:
  assumes "leveldb_laws L view" "view db = fc_table ks" "length ks < 2 ^ 31"
  shows "MFC_count L db = Inr (word_of_nat (length ks), word_of_nat (card (set ks)))"
proof -
  let ?es = "fst (ldb_iter L db)"
  have it: "distinct (map fst ?es)" "fst ` set ?es = set ks" "snd (ldb_iter L db) = StOk"
    using leveldb_laws.iter_distinct[OF assms(1), of db] leveldb_laws.iter_keys[OF assms(1), of db] assms(2)
      leveldb_laws.iter_status[OF assms(1), of db] by (auto simp: fc_table_def dom_def split: if_splits)
  have val: "atoi v = int (count_list ks k)" if "(k, v) \<in> set ?es" for k v
  proof -
    have "fc_table ks k = Some v" using that leveldb_laws.iter_mem[OF assms(1), of k v db] assms(2) by simp
    then have "v = dec_nat (count_list ks k)" by (simp add: fc_table_def split: if_splits)
    then show ?thesis using atoi_dec_nat[of "count_list ks k" "[]"] count_le_length[of ks k] assms(3) by simp
  qed
  have f: "fold (\<lambda>(k, v) (logic, unique). (logic + word_of_int (atoi v), unique + 1)) es (a, b) =
      (a + word_of_nat (\<Sum>k \<leftarrow> map fst es. count_list ks k), b + word_of_nat (length es) :: u64)"
    if "set es \<subseteq> set ?es" for es and a b :: u64
    using that
  proof (induction es arbitrary: a b)
    case (Cons e es)
    obtain k v where e: "e = (k, v)" by (cases e)
    then show ?case using Cons val[of k v] by (simp add: algebra_simps)
  qed simp
  have "(\<Sum>k \<leftarrow> map fst ?es. count_list ks k) = (\<Sum>k \<in> set (map fst ?es). count_list ks k)"
    by (rule sum_list_distinct_conv_sum_set[OF it(1)])
  also have "\<dots> = length ks" unfolding set_map it(2) by (rule sum_count_set) auto
  finally have "(\<Sum>k \<leftarrow> map fst ?es. count_list ks k) = length ks" .
  moreover have "length ?es = card (set ks)" using distinct_card[OF it(1)] it(2) by simp
  ultimately show ?thesis using f[of ?es 0 0] it(3) by (simp add: MFC_count_def case_prod_beta)
qed

lemma countDB_totals_witness: "MFC_count (mem_leveldb (\<lambda>_. [])) [(''abcdef'', ''2''), (''ghijkl'', ''1'')] = Inr (3, 2)"
proof -
  have "dec_nat (Suc 1) = ''2''" "dec_nat (Suc 0) = ''1''" by code_simp+
  then have "map_of [(''abcdef'', ''2''), (''ghijkl'', ''1'')] = fc_table [''abcdef'', ''ghijkl'', ''abcdef'']"
    by (auto simp: fun_eq_iff fc_table_def)
  then show ?thesis
    using countDB_totals[where L = "mem_leveldb (\<lambda>_. [])" and view = map_of and db = "[(''abcdef'', ''2''), (''ghijkl'', ''1'')]"
        and ks = "[''abcdef'', ''ghijkl'', ''abcdef'']"] mem.leveldb_laws_axioms by (simp add: card_insert_if)
qed

text \<open>C37. The encrypted trace is read back: the output of the encryption program has, line by line, the
  chunks of its input with the fingerprints encrypted and the sizes unchanged.\<close>

theorem encrypt_roundtrip:
  assumes "body_entries file = Inr cs" "\<forall>c \<in> set cs. unat (csize c) < 2 ^ 31" "\<forall>x. length (md5 x) = 16"
  shows "\<exists>mk. outPutChunks md5 file = Inr mk \<and> body_entries mk = Inr (map (\<lambda>c. c\<lparr>ckey := enc_fp md5 (ckey c)\<rparr>) cs)"
  using outPutChunks_text[OF assms(1), of md5] body_entries_enc[OF assms(2,3)] by (simp add: encrypt_chunk_def[abs_def])

theorem encrypt_roundtrip_witness:
  "\<exists>mk. outPutChunks (\<lambda>x. replicate 16 (CHR ''z'')) demo_body = Inr mk \<and> body_entries mk = Inr [\<lparr>ckey = ''zzzzzz'', csize = 4096\<rparr>]"
proof -
  have "replicate 6 (CHR ''z'') = ''zzzzzz''" by code_simp
  then show ?thesis
    using encrypt_roundtrip[OF demo_body_entries, of "\<lambda>x. replicate 16 (CHR ''z'')"]
    by (simp add: demo_chunk_def enc_fp_def)
qed

end
