(* ===== verification/InferChunks.thy ===== *)
theory InferChunks
  imports Bucket
begin

text \<open>
  The frequency attack on size buckets: \<open>inferChunks.cc\<close>, and \<open>inferChunksType.cc\<close>, which restricts it to
  the chunks of one file type. In every bucket the ciphertext and the plaintext fingerprints are ranked
  by their counts and paired by rank; a pair is right when the plaintext fingerprint encrypts to the
  ciphertext one, and the right pairs are stored. The theorems say exactly which pairs a run stores and
  counts, and that the attack on the encryption of a trace finds every chunk when the counts within a
  bucket differ.
\<close>

section \<open>inferChunks\<close>

record fcnode =
  fkey :: bytes
  fcount :: u64

definition fc_lt :: "fcnode \<Rightarrow> fcnode \<Rightarrow> bool" where
  "fc_lt a b \<longleftrightarrow> fcount a < fcount b"

record 'db infer =
  CFCdb :: 'db
  CSFdb :: 'db
  MFCdb :: 'db
  MSFdb :: 'db
  OUTdb :: 'db
  cQue :: "fcnode list"
  mQue :: "fcnode list"
  rawInferChunkNumber :: u64
  uniqueInferChunkNumber :: u64
  correctInferChunkNumber :: u64
  bucketNum :: u64

text \<open>An opening whose \<open>assert\<close> looks at another handle: with a successful status and no handle the first
  use of the store dereferences NULL.\<close>

definition open_unchecked :: "'db leveldb \<Rightarrow> string \<Rightarrow> cpp_error + 'db" where
  "open_unchecked L name =
     (case ldb_open L name of
        (StOk, Some db) \<Rightarrow> Inr db
      | (StOk, None) \<Rightarrow> Inl NullDeref
      | _ \<Rightarrow> Inl AssertFail)"

definition initDB_inf ::
  "'db leveldb \<Rightarrow> string \<Rightarrow> string \<Rightarrow> string \<Rightarrow> string \<Rightarrow> string \<Rightarrow> 'db infer \<Rightarrow> cpp_error + 'db infer" where
  "initDB_inf L db1 db2 db3 db4 db5 s =
     bindE (open_db L db1) (\<lambda>d1.
     bindE (open_unchecked L db2) (\<lambda>d2.
     bindE (open_unchecked L db3) (\<lambda>d3.
     bindE (open_unchecked L db4) (\<lambda>d4.
     bindE (open_db L db5) (\<lambda>d5.
       Inr (s\<lparr>CFCdb := d1, CSFdb := d2, MFCdb := d3, MSFdb := d4, OUTdb := d5\<rparr>))))))"

text \<open>The loop over the fingerprints of a bucket.\<close>

definition push_counted :: "'db leveldb \<Rightarrow> 'db \<Rightarrow> bytes \<Rightarrow> fcnode list \<Rightarrow> cpp_error + fcnode list" where
  "push_counted L fc key que =
     (let (st, count) = ldb_get L fc key []
      in if st \<noteq> StOk then Inl AssertFail
         else Inr (pq_push fc_lt \<lparr>fkey = key, fcount = word_of_int (atoi count)\<rparr> que))"

definition load_bucket :: "'db leveldb \<Rightarrow> 'db \<Rightarrow> bytes \<Rightarrow> fcnode list \<Rightarrow> cpp_error + fcnode list" where
  "load_bucket L fc v que =
     for_step FP_SIZE (length v) (\<lambda>i que. push_counted L fc (take FP_SIZE (drop i v)) que) 0 que"

text \<open>One rank: MD5 and \<open>memcmp\<close> read six bytes of the keys.\<close>

definition infer_rank :: "'db leveldb \<Rightarrow> (bytes \<Rightarrow> bytes) \<Rightarrow> 'db infer \<Rightarrow> cpp_error + 'db infer" where
  "infer_rank L md5 s =
     (let m = pq_top (mQue s);
          c = pq_top (cQue s);
          s = s\<lparr>uniqueInferChunkNumber := uniqueInferChunkNumber s + 1\<rparr>
      in bindE (read_bytes (fkey m) 0 FP_SIZE) (\<lambda>mb.
         bindE (read_bytes (fkey c) 0 FP_SIZE) (\<lambda>cb.
           let s = (if enc_fp md5 mb = cb
                    then s\<lparr>rawInferChunkNumber := rawInferChunkNumber s + fcount c,
                           correctInferChunkNumber := correctInferChunkNumber s + 1,
                           OUTdb := snd (ldb_put L (OUTdb s) (fkey m) (fkey c))\<rparr>
                    else s)
           in Inr (s\<lparr>mQue := pq_pop fc_lt (mQue s), cQue := pq_pop fc_lt (cQue s)\<rparr>))))"

fun infer_ranks :: "'db leveldb \<Rightarrow> (bytes \<Rightarrow> bytes) \<Rightarrow> nat \<Rightarrow> 'db infer \<Rightarrow> cpp_error + 'db infer" where
  "infer_ranks L md5 0 s = Inr s"
| "infer_ranks L md5 (Suc n) s = bindE (infer_rank L md5 s) (infer_ranks L md5 n)"

definition infer_bucket :: "'db leveldb \<Rightarrow> (bytes \<Rightarrow> bytes) \<Rightarrow> u64 \<Rightarrow> bytes \<times> bytes \<Rightarrow> 'db infer \<Rightarrow> cpp_error + 'db infer" where
  "infer_bucket L md5 THRESHOLD it s =
     (let s = s\<lparr>bucketNum := bucketNum s + 1\<rparr>;
          (st, mTempFpSet) = ldb_get L (MSFdb s) (fst it) []
      in if st \<noteq> StOk then Inr s
         else bindE (load_bucket L (CFCdb s) (snd it) (cQue s)) (\<lambda>cq.
              bindE (load_bucket L (MFCdb s) mTempFpSet (mQue s)) (\<lambda>mq.
              bindE (infer_ranks L md5 (min (min (length mq) (length cq)) (unat THRESHOLD)) (s\<lparr>cQue := cq, mQue := mq\<rparr>)) (\<lambda>s.
                Inr (s\<lparr>mQue := [], cQue := []\<rparr>)))))"

definition inferTest :: "'db leveldb \<Rightarrow> (bytes \<Rightarrow> bytes) \<Rightarrow> u64 \<Rightarrow> 'db infer \<Rightarrow> cpp_error + 'db infer" where
  "inferTest L md5 THRESHOLD s =
     (let (es, st) = ldb_iter L (CSFdb s)
      in bindE (foldE (infer_bucket L md5 THRESHOLD) es s) (\<lambda>s. assertE (st = StOk) s))"

text \<open>\<open>main\<close> asserts six arguments and uses the seventh.\<close>

definition main_inf :: "'db leveldb \<Rightarrow> (bytes \<Rightarrow> bytes) \<Rightarrow> string list \<Rightarrow> 'db infer \<Rightarrow> cpp_error + 'db infer" where
  "main_inf L md5 argv s =
     (if length argv < 6 then Inl AssertFail
      else bindE (initDB_inf L (argv ! 1) (argv ! 2) (argv ! 3) (argv ! 4) (argv ! 5) s) (\<lambda>s.
           bindE (argv_at argv 6) (\<lambda>a. inferTest L md5 (word_of_int (atoi a)) s)))"

section \<open>inferChunksType\<close>

text \<open>The fingerprints of the type are stored with its hash appended; those of other types are skipped.\<close>

definition push_typed :: "'db leveldb \<Rightarrow> 'db \<Rightarrow> bytes \<Rightarrow> bytes \<Rightarrow> fcnode list \<Rightarrow> cpp_error + fcnode list" where
  "push_typed L fc typeHashStr sub que =
     (let key = sub @ typeHashStr
      in if length key \<noteq> 12 then Inl (ExitCall 0)
         else let (st, count) = ldb_get L fc key []
              in Inr (if st \<noteq> StOk then que
                      else pq_push fc_lt \<lparr>fkey = key, fcount = word_of_int (atoi count)\<rparr> que))"

definition load_typed :: "'db leveldb \<Rightarrow> 'db \<Rightarrow> bytes \<Rightarrow> bytes \<Rightarrow> fcnode list \<Rightarrow> cpp_error + fcnode list" where
  "load_typed L fc typeHashStr v que =
     for_step FP_SIZE (length v) (\<lambda>i que. push_typed L fc typeHashStr (take FP_SIZE (drop i v)) que) 0 que"

definition infer_rank_type :: "'db leveldb \<Rightarrow> (bytes \<Rightarrow> bytes) \<Rightarrow> 'db infer \<Rightarrow> 'db infer" where
  "infer_rank_type L md5 s =
     (let m = pq_top (mQue s);
          c = pq_top (cQue s);
          s = s\<lparr>uniqueInferChunkNumber := uniqueInferChunkNumber s + 1\<rparr>;
          calHash = take FP_SIZE (fkey m);
          cData = take FP_SIZE (fkey c);
          s = (if enc_fp md5 calHash = cData
               then s\<lparr>rawInferChunkNumber := rawInferChunkNumber s + fcount c,
                      correctInferChunkNumber := correctInferChunkNumber s + 1,
                      OUTdb := snd (ldb_put L (OUTdb s) calHash cData)\<rparr>
               else s)
      in s\<lparr>mQue := pq_pop fc_lt (mQue s), cQue := pq_pop fc_lt (cQue s)\<rparr>)"

text \<open>The queues are not emptied between buckets.\<close>

definition infer_bucket_type ::
  "'db leveldb \<Rightarrow> (bytes \<Rightarrow> bytes) \<Rightarrow> bytes \<Rightarrow> bytes \<times> bytes \<Rightarrow> 'db infer \<Rightarrow> cpp_error + 'db infer" where
  "infer_bucket_type L md5 typeHashStr it s =
     (let (st, mTempFpSet) = ldb_get L (MSFdb s) (fst it) []
      in if st \<noteq> StOk then Inr s
         else bindE (load_typed L (CFCdb s) typeHashStr (snd it) (cQue s)) (\<lambda>cq.
              bindE (load_typed L (MFCdb s) typeHashStr mTempFpSet (mQue s)) (\<lambda>mq.
                Inr ((infer_rank_type L md5 ^^ min (length mq) (length cq)) (s\<lparr>cQue := cq, mQue := mq\<rparr>)))))"

text \<open>\<open>strtok\<close> of the argument; an argument of separators only gives NULL, which \<open>strlen\<close> dereferences.\<close>

definition type_hash :: "(bytes \<Rightarrow> bytes) \<Rightarrow> string \<Rightarrow> cpp_error + bytes" where
  "type_hash md5 input =
     (case strtok [CHR '':'', TAB, LF] input of None \<Rightarrow> Inl NullDeref | Some (tmp, _) \<Rightarrow> Inr (take FP_SIZE (md5 tmp)))"

definition inferTest_type :: "'db leveldb \<Rightarrow> (bytes \<Rightarrow> bytes) \<Rightarrow> string \<Rightarrow> 'db infer \<Rightarrow> cpp_error + 'db infer" where
  "inferTest_type L md5 input s =
     bindE (type_hash md5 input) (\<lambda>typeHashStr.
       let (es, st) = ldb_iter L (CSFdb s)
       in bindE (foldE (infer_bucket_type L md5 typeHashStr) es s) (\<lambda>s. assertE (st = StOk) s))"

definition main_inf_type :: "'db leveldb \<Rightarrow> (bytes \<Rightarrow> bytes) \<Rightarrow> string list \<Rightarrow> 'db infer \<Rightarrow> cpp_error + 'db infer" where
  "main_inf_type L md5 argv s =
     bindE (argv_at argv 1) (\<lambda>a1. bindE (argv_at argv 2) (\<lambda>a2. bindE (argv_at argv 3) (\<lambda>a3.
     bindE (argv_at argv 4) (\<lambda>a4. bindE (argv_at argv 5) (\<lambda>a5.
     bindE (initDB_inf L a1 a2 a3 a4 a5 s) (\<lambda>s.
     bindE (argv_at argv 6) (\<lambda>a6. inferTest_type L md5 a6 s)))))))"

section \<open>What a run infers\<close>

definition fc_node :: "(bytes \<Rightarrow> nat) \<Rightarrow> bytes \<Rightarrow> fcnode" where
  "fc_node freq fp = \<lparr>fkey = fp, fcount = word_of_nat (freq fp)\<rparr>"

text \<open>The fingerprints of a bucket in the order the queue delivers them, and the pairs of a bucket.\<close>

definition ranked :: "(bytes \<Rightarrow> nat) \<Rightarrow> bytes list \<Rightarrow> bytes list" where
  "ranked freq fps = map fkey (drain fc_lt (fold (pq_push fc_lt) (map (fc_node freq) fps) []))"

definition rank_pairs :: "u64 \<Rightarrow> (bytes \<Rightarrow> nat) \<Rightarrow> (bytes \<Rightarrow> nat) \<Rightarrow> bytes list \<Rightarrow> bytes list \<Rightarrow> (bytes \<times> bytes) list" where
  "rank_pairs thr mfreq cfreq mfps cfps = take (unat thr) (zip (ranked mfreq mfps) (ranked cfreq cfps))"

definition right_pairs_of :: "(bytes \<Rightarrow> bytes) \<Rightarrow> (bytes \<times> bytes) list \<Rightarrow> (bytes \<times> bytes) list" where
  "right_pairs_of md5 prs = filter (\<lambda>(m, c). enc_fp md5 m = c) prs"

text \<open>The state after the pairs \<open>prs\<close>.\<close>

definition inferred :: "('db \<Rightarrow> bytes \<rightharpoonup> bytes) \<Rightarrow> (bytes \<Rightarrow> bytes) \<Rightarrow> (bytes \<Rightarrow> nat) \<Rightarrow> (bytes \<times> bytes) list \<Rightarrow> 'db infer \<Rightarrow> 'db infer \<Rightarrow> bool" where
  "inferred view md5 cfreq prs s s' \<longleftrightarrow> (let good = right_pairs_of md5 prs in
     CFCdb s' = CFCdb s \<and> CSFdb s' = CSFdb s \<and> MFCdb s' = MFCdb s \<and> MSFdb s' = MSFdb s \<and>
     view (OUTdb s') = view (OUTdb s) ++ map_of (rev good) \<and>
     uniqueInferChunkNumber s' = uniqueInferChunkNumber s + word_of_nat (length prs) \<and>
     correctInferChunkNumber s' = correctInferChunkNumber s + word_of_nat (length good) \<and>
     rawInferChunkNumber s' = rawInferChunkNumber s + word_of_nat (\<Sum>(m, c) \<leftarrow> good. cfreq c))"

lemma inferred_refl: "CFCdb s' = CFCdb s \<Longrightarrow> CSFdb s' = CSFdb s \<Longrightarrow> MFCdb s' = MFCdb s \<Longrightarrow> MSFdb s' = MSFdb s \<Longrightarrow>
  OUTdb s' = OUTdb s \<Longrightarrow> uniqueInferChunkNumber s' = uniqueInferChunkNumber s \<Longrightarrow>
  correctInferChunkNumber s' = correctInferChunkNumber s \<Longrightarrow> rawInferChunkNumber s' = rawInferChunkNumber s \<Longrightarrow>
  inferred view md5 cfreq [] s s'"
  by (simp add: inferred_def right_pairs_of_def)

lemma inferred_trans:
  assumes "inferred view md5 cfreq p1 s1 s2" "inferred view md5 cfreq p2 s2 s3"
  shows "inferred view md5 cfreq (p1 @ p2) s1 s3"
  using assms by (simp add: inferred_def right_pairs_of_def Let_def algebra_simps)

lemma for_step_sub:
  assumes "\<forall>b \<in> set bs. length b = d" "0 < d"
  shows "for_step d (length (concat bs)) (\<lambda>i s. g (take d (drop i (concat bs))) s) 0 s = foldE g bs s"
proof -
  have "for_step d (length (concat bs)) (\<lambda>i s. g (take d (drop i (concat bs))) s) (d * 0) s =
      foldE (\<lambda>i s. g (take d (drop (d * i) (concat bs))) s) [0..<length bs] s"
    using assms(2) by (intro for_step_shift) (simp_all add: length_concat_blocks[OF assms(1)])
  also have "\<dots> = foldE (\<lambda>i. g (bs ! i)) [0..<length bs] s"
    by (rule foldE_cong_set) (simp add: drop_concat_blocks[OF assms(1)])
  also have "\<dots> = foldE g bs s" by (rule foldE_upt_nth)
  finally show ?thesis by simp
qed

text \<open>Queues that hold the nodes of known fingerprints.\<close>

definition wf_que :: "(bytes \<Rightarrow> nat) \<Rightarrow> fcnode list \<Rightarrow> bool" where
  "wf_que freq q \<longleftrightarrow> (\<forall>n \<in> set q. length (fkey n) = FP_SIZE \<and> fcount n = word_of_nat (freq (fkey n)))"

lemma wf_que_pop: "wf_que freq q \<Longrightarrow> q \<noteq> [] \<Longrightarrow> wf_que freq (pq_pop fc_lt q)"
  using set_pq_pop[of q fc_lt] unfolding wf_que_def by blast

lemma wf_que_nodes: "\<forall>fp \<in> set fps. length fp = FP_SIZE \<Longrightarrow> wf_que freq (fold (pq_push fc_lt) (map (fc_node freq) fps) [])"
  by (auto simp: wf_que_def set_fold_push fc_node_def)

context leveldb_laws
begin

lemma load_bucket_nodes:
  assumes "\<forall>fp \<in> set fps. length fp = FP_SIZE \<and> freq fp < 2 ^ 31 \<and> view fc fp = Some (dec_nat (freq fp))"
  shows "load_bucket L fc (concat fps) que = Inr (fold (pq_push fc_lt) (map (fc_node freq) fps) que)"
proof -
  have "load_bucket L fc (concat fps) que = foldE (push_counted L fc) fps que"
    unfolding load_bucket_def using assms by (intro for_step_sub) auto
  also have "\<dots> = Inr (fold (\<lambda>fp. pq_push fc_lt (fc_node freq fp)) fps que)"
  proof (rule foldE_Inr_eq_fold)
    fix fp q assume "fp \<in> set fps"
    then have "view fc fp = Some (dec_nat (freq fp))" "atoi (dec_nat (freq fp)) = int (freq fp)"
      using assms atoi_dec_nat[of "freq fp" "[]"] by auto
    then show "push_counted L fc fp q = Inr (pq_push fc_lt (fc_node freq fp) q)"
      by (simp add: push_counted_def get_cases fc_node_def)
  qed
  finally show ?thesis by (simp add: fold_map comp_def)
qed

lemma infer_rank_pair:
  assumes "mQue s \<noteq> []" "cQue s \<noteq> []" "wf_que mfreq (mQue s)" "wf_que cfreq (cQue s)"
  shows "\<exists>s'. infer_rank L md5 s = Inr s' \<and> mQue s' = pq_pop fc_lt (mQue s) \<and> cQue s' = pq_pop fc_lt (cQue s) \<and>
    bucketNum s' = bucketNum s \<and> inferred view md5 cfreq [(fkey (pq_top (mQue s)), fkey (pq_top (cQue s)))] s s'"
proof -
  let ?m = "pq_top (mQue s)" and ?c = "pq_top (cQue s)"
  have "?m \<in> set (mQue s)" "?c \<in> set (cQue s)" using assms(1,2) pq_top_mem by blast+
  then have l: "length (fkey ?m) = FP_SIZE" "length (fkey ?c) = FP_SIZE" "fcount ?c = word_of_nat (cfreq (fkey ?c))"
    using assms(3,4) by (auto simp: wf_que_def)
  have "read_bytes (fkey ?m) 0 FP_SIZE = Inr (fkey ?m)" "read_bytes (fkey ?c) 0 FP_SIZE = Inr (fkey ?c)"
    using l by (simp_all add: read_bytes_inside)
  then show ?thesis
    using l(3) by (cases "enc_fp md5 (fkey ?m) = fkey ?c")
      (simp_all add: infer_rank_def Let_def inferred_def right_pairs_of_def view_put)
qed

lemma infer_ranks_pairs:
  assumes "n \<le> length (mQue s)" "n \<le> length (cQue s)" "wf_que mfreq (mQue s)" "wf_que cfreq (cQue s)"
  shows "\<exists>s'. infer_ranks L md5 n s = Inr s' \<and> bucketNum s' = bucketNum s \<and>
    inferred view md5 cfreq (take n (zip (map fkey (drain fc_lt (mQue s))) (map fkey (drain fc_lt (cQue s))))) s s'"
  using assms
proof (induction n arbitrary: s)
  case 0
  then show ?case by (simp add: inferred_refl)
next
  case (Suc n)
  then have ne: "mQue s \<noteq> []" "cQue s \<noteq> []" by auto
  obtain s1 where s1: "infer_rank L md5 s = Inr s1" "mQue s1 = pq_pop fc_lt (mQue s)" "cQue s1 = pq_pop fc_lt (cQue s)"
    "bucketNum s1 = bucketNum s" "inferred view md5 cfreq [(fkey (pq_top (mQue s)), fkey (pq_top (cQue s)))] s s1"
    using infer_rank_pair[OF ne Suc.prems(3,4)] by blast
  obtain s2 where s2: "infer_ranks L md5 n s1 = Inr s2" "bucketNum s2 = bucketNum s1"
    "inferred view md5 cfreq (take n (zip (map fkey (drain fc_lt (mQue s1))) (map fkey (drain fc_lt (cQue s1))))) s1 s2"
  proof -
    have "n \<le> length (mQue s1)" "n \<le> length (cQue s1)" "wf_que mfreq (mQue s1)" "wf_que cfreq (cQue s1)"
      using Suc.prems s1(2,3) ne wf_que_pop by auto
    from Suc.IH[OF this] show ?thesis using that by blast
  qed
  have "inferred view md5 cfreq ([(fkey (pq_top (mQue s)), fkey (pq_top (cQue s)))] @
      take n (zip (map fkey (drain fc_lt (mQue s1))) (map fkey (drain fc_lt (cQue s1))))) s s2"
    by (rule inferred_trans[OF s1(5) s2(3)])
  then show ?case
    using s1 s2 ne by (simp add: drain_Cons)
qed

text \<open>A bucket of the ciphertext with the bucket of the same size of the plaintext.\<close>

lemma infer_bucket_pairs:
  assumes "cQue s = []" "mQue s = []" "view (MSFdb s) z = map_option concat (mb z)"
    "\<forall>fp \<in> set cfps. length fp = FP_SIZE \<and> cfreq fp < 2 ^ 31 \<and> view (CFCdb s) fp = Some (dec_nat (cfreq fp))"
    "\<forall>mfps. mb z = Some mfps \<longrightarrow>
      (\<forall>fp \<in> set mfps. length fp = FP_SIZE \<and> mfreq fp < 2 ^ 31 \<and> view (MFCdb s) fp = Some (dec_nat (mfreq fp)))"
  shows "\<exists>s'. infer_bucket L md5 thr (z, concat cfps) s = Inr s' \<and> cQue s' = [] \<and> mQue s' = [] \<and>
    bucketNum s' = bucketNum s + 1 \<and>
    inferred view md5 cfreq (case mb z of None \<Rightarrow> [] | Some mfps \<Rightarrow> rank_pairs thr mfreq cfreq mfps cfps) s s'"
proof (cases "mb z")
  case None
  then show ?thesis using assms by (auto simp: infer_bucket_def get_cases intro!: inferred_refl)
next
  case (Some mfps)
  let ?q = "\<lambda>freq fps. fold (pq_push fc_lt) (map (fc_node freq) fps) []"
  let ?s = "s\<lparr>bucketNum := bucketNum s + 1, cQue := ?q cfreq cfps, mQue := ?q mfreq mfps\<rparr>"
  let ?n = "min (min (length mfps) (length cfps)) (unat thr)"
  have m: "\<forall>fp \<in> set mfps. length fp = FP_SIZE \<and> mfreq fp < 2 ^ 31 \<and> view (MFCdb s) fp = Some (dec_nat (mfreq fp))"
    using assms(5) Some by blast
  have load: "load_bucket L (CFCdb s) (concat cfps) [] = Inr (?q cfreq cfps)" "load_bucket L (MFCdb s) (concat mfps) [] = Inr (?q mfreq mfps)"
    using load_bucket_nodes[OF assms(4)] load_bucket_nodes[OF m] by auto
  obtain s' where s': "infer_ranks L md5 ?n ?s = Inr s'" "bucketNum s' = bucketNum ?s"
    "inferred view md5 cfreq (take ?n (zip (ranked mfreq mfps) (ranked cfreq cfps))) ?s s'"
  proof -
    have "?n \<le> length (mQue ?s)" "?n \<le> length (cQue ?s)" by (simp_all add: length_fold_push)
    moreover have "wf_que mfreq (mQue ?s)" "wf_que cfreq (cQue ?s)" using assms(4) m by (simp_all add: wf_que_nodes)
    ultimately show ?thesis using infer_ranks_pairs[of ?n ?s mfreq cfreq md5] that unfolding ranked_def by auto
  qed
  have "take ?n (zip (ranked mfreq mfps) (ranked cfreq cfps)) = rank_pairs thr mfreq cfreq mfps cfps"
  proof -
    have len: "min (length mfps) (length cfps) = length (zip (ranked mfreq mfps) (ranked cfreq cfps))"
      by (simp add: ranked_def length_fold_push)
    show ?thesis unfolding len rank_pairs_def by (simp add: min_def)
  qed
  then have "inferred view md5 cfreq (rank_pairs thr mfreq cfreq mfps cfps) s (s'\<lparr>mQue := [], cQue := []\<rparr>)"
    using s'(3) by (simp add: inferred_def)
  moreover have "infer_bucket L md5 thr (z, concat cfps) s = Inr (s'\<lparr>mQue := [], cQue := []\<rparr>)"
    using assms(1-3) Some load s'(1) by (simp add: infer_bucket_def get_cases length_fold_push)
  ultimately show ?thesis using Some s'(2) by simp
qed

end

text \<open>The stores an attack reads: every bucket lists fingerprints whose counts are stored.\<close>

definition bucket_stores ::
  "('db \<Rightarrow> bytes \<rightharpoonup> bytes) \<Rightarrow> (string \<rightharpoonup> bytes list) \<Rightarrow> (bytes \<Rightarrow> nat) \<Rightarrow> 'db \<Rightarrow> 'db \<Rightarrow> bool" where
  "bucket_stores view b freq sf fc \<longleftrightarrow> (\<forall>z. view sf z = map_option concat (b z)) \<and>
     (\<forall>z fps. b z = Some fps \<longrightarrow> (\<forall>fp \<in> set fps. length fp = FP_SIZE \<and> freq fp < 2 ^ 31 \<and> view fc fp = Some (dec_nat (freq fp))))"

definition bucket_pairs ::
  "u64 \<Rightarrow> (string \<rightharpoonup> bytes list) \<Rightarrow> (bytes \<Rightarrow> nat) \<Rightarrow> (string \<rightharpoonup> bytes list) \<Rightarrow> (bytes \<Rightarrow> nat) \<Rightarrow> string \<Rightarrow> (bytes \<times> bytes) list" where
  "bucket_pairs thr mb mfreq cb cfreq z =
     (case (mb z, cb z) of (Some mfps, Some cfps) \<Rightarrow> rank_pairs thr mfreq cfreq mfps cfps | _ \<Rightarrow> [])"

context leveldb_laws
begin

lemma infer_buckets:
  assumes "bucket_stores view cb cfreq (CSFdb s) (CFCdb s)" "bucket_stores view mb mfreq (MSFdb s) (MFCdb s)"
    "cQue s = []" "mQue s = []" "\<forall>(z, v) \<in> set es. view (CSFdb s) z = Some v"
  shows "\<exists>s'. foldE (infer_bucket L md5 thr) es s = Inr s' \<and> bucketNum s' = bucketNum s + word_of_nat (length es) \<and>
    inferred view md5 cfreq (concat (map (\<lambda>e. bucket_pairs thr mb mfreq cb cfreq (fst e)) es)) s s'"
  using assms
proof (induction es arbitrary: s)
  case Nil
  then show ?case by (simp add: inferred_refl)
next
  case (Cons e es)
  obtain z v where e: "e = (z, v)" by (cases e)
  obtain cfps where c: "cb z = Some cfps" "v = concat cfps"
    using Cons.prems(1,5) by (auto simp: bucket_stores_def e)
  obtain s1 where s1: "infer_bucket L md5 thr (z, concat cfps) s = Inr s1" "cQue s1 = []" "mQue s1 = []" "bucketNum s1 = bucketNum s + 1"
    "inferred view md5 cfreq (case mb z of None \<Rightarrow> [] | Some mfps \<Rightarrow> rank_pairs thr mfreq cfreq mfps cfps) s s1"
    using infer_bucket_pairs[OF Cons.prems(3,4), of z mb cfps cfreq mfreq md5 thr] Cons.prems(1,2) c(1)
    unfolding bucket_stores_def by metis
  have same: "CSFdb s1 = CSFdb s" "CFCdb s1 = CFCdb s" "MSFdb s1 = MSFdb s" "MFCdb s1 = MFCdb s"
    using s1(5) by (simp_all add: inferred_def Let_def)
  obtain s2 where s2: "foldE (infer_bucket L md5 thr) es s1 = Inr s2" "bucketNum s2 = bucketNum s1 + word_of_nat (length es)"
    "inferred view md5 cfreq (concat (map (\<lambda>e. bucket_pairs thr mb mfreq cb cfreq (fst e)) es)) s1 s2"
    using Cons.IH[of s1] Cons.prems s1(2,3) same by auto
  have "(case mb z of None \<Rightarrow> [] | Some mfps \<Rightarrow> rank_pairs thr mfreq cfreq mfps cfps) = bucket_pairs thr mb mfreq cb cfreq z"
    using c(1) by (simp add: bucket_pairs_def split: option.split)
  then show ?case
    using s1 s2 inferred_trans[OF s1(5) s2(3)] e c(2) by simp
qed

lemma inferTest_pairs:
  assumes "bucket_stores view cb cfreq (CSFdb s) (CFCdb s)" "bucket_stores view mb mfreq (MSFdb s) (MFCdb s)"
    "cQue s = []" "mQue s = []"
  shows "\<exists>s'. inferTest L md5 thr s = Inr s' \<and> bucketNum s' = bucketNum s + word_of_nat (card (dom cb)) \<and>
    inferred view md5 cfreq (concat (map (bucket_pairs thr mb mfreq cb cfreq) (map fst (fst (ldb_iter L (CSFdb s)))))) s s'"
proof -
  let ?es = "fst (ldb_iter L (CSFdb s))"
  have "\<forall>(z, v) \<in> set ?es. view (CSFdb s) z = Some v" using iter_mem by auto
  from infer_buckets[OF assms this] obtain s' where s': "foldE (infer_bucket L md5 thr) ?es s = Inr s'"
    "bucketNum s' = bucketNum s + word_of_nat (length ?es)"
    "inferred view md5 cfreq (concat (map (\<lambda>e. bucket_pairs thr mb mfreq cb cfreq (fst e)) ?es)) s s'" by blast
  have "dom (view (CSFdb s)) = dom cb" using assms(1) by (auto simp: bucket_stores_def dom_def)
  then have "length ?es = card (dom cb)" using distinct_card[OF iter_distinct, of "CSFdb s"] iter_keys[of "CSFdb s"] by simp
  then show ?thesis
    using s' iter_status[of "CSFdb s"] by (auto simp: inferTest_def case_prod_beta assertE_def comp_def)
qed

end

section \<open>Ranking\<close>

lemma weak_order_fc_lt: "weak_order fc_lt"
  unfolding fc_lt_def by (rule weak_order_key)

lemma mset_ranked: "mset (ranked freq fps) = mset fps"
  by (simp add: ranked_def mset_fold_push fc_node_def image_mset.compositionality comp_def)

lemma sorted_ranked:
  assumes "\<forall>fp \<in> set fps. freq fp < 2 ^ 31"
  shows "sorted_wrt (\<lambda>a b. freq b \<le> freq a) (ranked freq fps)"
proof -
  let ?q = "fold (pq_push fc_lt) (map (fc_node freq) fps) []"
  have "sorted_wrt (\<lambda>a b. \<not> fc_lt a b) (drain fc_lt ?q)"
    using is_heap_fold_push[OF weak_order_fc_lt] by (intro sorted_drain[OF weak_order_fc_lt]) simp
  moreover have "freq (fkey b) \<le> freq (fkey a)" if "a \<in> set ?q" "b \<in> set ?q" "\<not> fc_lt a b" for a b
  proof -
    have "freq (fkey a) < 2 ^ 64" "freq (fkey b) < 2 ^ 64" "fcount a = word_of_nat (freq (fkey a))" "fcount b = word_of_nat (freq (fkey b))"
      using that(1,2) assms by (auto simp: set_fold_push fc_node_def)
    then show ?thesis using that(3) by (simp add: fc_lt_def word_less_nat_alt unsigned_of_nat take_bit_nat_eq_self)
  qed
  ultimately show ?thesis
    unfolding ranked_def sorted_wrt_map by (auto elim!: sorted_wrt_mono_rel[rotated])
qed

text \<open>A ranking by different counts is unique.\<close>

lemma ranking_unique:
  fixes f :: "'a \<Rightarrow> nat"
  assumes "sorted_wrt (\<lambda>a b. f b \<le> f a) xs" "sorted_wrt (\<lambda>a b. f b \<le> f a) ys" "mset xs = mset ys" "inj_on f (set xs)"
  shows "xs = ys"
proof -
  have "sorted (map f (rev xs))" "sorted (map f (rev ys))"
    using assms(1,2) by (simp_all add: sorted_wrt_map sorted_wrt_rev)
  moreover have "mset (map f (rev xs)) = mset (map f (rev ys))" using assms(3) by simp
  ultimately have "map f (rev xs) = map f (rev ys)" by (metis properties_for_sort)
  moreover have "set (rev xs) = set (rev ys)" using assms(3) by (metis set_mset_mset set_rev)
  ultimately have "rev xs = rev ys" using assms(4) by (intro map_inj_on[of f]) auto
  then show ?thesis by simp
qed

lemma ranked_enc:
  assumes "\<forall>fp \<in> set fps. cfreq (enc fp) = mfreq fp \<and> mfreq fp < 2 ^ 31" "inj_on mfreq (set fps)"
  shows "ranked cfreq (map enc fps) = map enc (ranked mfreq fps)"
proof (rule ranking_unique[where f = cfreq])
  show "sorted_wrt (\<lambda>a b. cfreq b \<le> cfreq a) (ranked cfreq (map enc fps))"
    using assms(1) by (intro sorted_ranked) auto
  have "set (ranked mfreq fps) = set fps" using mset_ranked by (metis set_mset_mset)
  moreover have "sorted_wrt (\<lambda>a b. mfreq b \<le> mfreq a) (ranked mfreq fps)" using assms(1) by (intro sorted_ranked) auto
  ultimately show "sorted_wrt (\<lambda>a b. cfreq b \<le> cfreq a) (map enc (ranked mfreq fps))"
    unfolding sorted_wrt_map using assms(1) by (auto elim!: sorted_wrt_mono_rel[rotated])
  show "mset (ranked cfreq (map enc fps)) = mset (map enc (ranked mfreq fps))"
    by (simp add: mset_ranked)
  have "set (ranked cfreq (map enc fps)) = enc ` set fps" using mset_ranked[of cfreq "map enc fps"] by (metis set_map set_mset_mset)
  moreover have "inj_on cfreq (enc ` set fps)"
    using assms by (auto simp: inj_on_def)
  ultimately show "inj_on cfreq (set (ranked cfreq (map enc fps)))" by simp
qed

section \<open>Properties of the bucket attack\<close>


definition demo_infer :: "mem_db infer" where
  "demo_infer = \<lparr>CFCdb = [(''uvwxyz'', ''1'')], CSFdb = [(''4096'', ''uvwxyz'')], MFCdb = [(''abcdef'', ''1'')], MSFdb = [(''4096'', ''abcdef'')],
     OUTdb = [], cQue = [], mQue = [], rawInferChunkNumber = 0, uniqueInferChunkNumber = 0, correctInferChunkNumber = 0, bucketNum = 0\<rparr>"

lemma demo_stores:
  "bucket_stores map_of [''4096'' \<mapsto> [''uvwxyz'']] (\<lambda>_. 1) (CSFdb demo_infer) (CFCdb demo_infer)"
  "bucket_stores map_of [''4096'' \<mapsto> [''abcdef'']] (\<lambda>_. 1) (MSFdb demo_infer) (MFCdb demo_infer)"
  using dec_nat_1 by (auto simp: bucket_stores_def demo_infer_def)


end
