(* ===== verification/InferTypes.thy ===== *)
theory InferTypes
  imports InferChunks
begin

text \<open>
  The attack of \<open>inferChunksType.cc\<close> on stores of one file type. Its queues survive the end of a bucket, so what one
  bucket leaves is paired in the next; the theorems say which pairs that gives and how many.
\<close>

section \<open>The queues of a type\<close>

definition fpk :: "fcnode \<Rightarrow> bytes" where
  "fpk n = take FP_SIZE (fkey n)"

definition typed_node :: "bytes \<Rightarrow> (bytes \<Rightarrow> nat) \<Rightarrow> bytes \<Rightarrow> fcnode" where
  "typed_node th freq fp = \<lparr>fkey = fp @ th, fcount = word_of_nat (freq fp)\<rparr>"

definition wf_typed :: "(bytes \<Rightarrow> nat) \<Rightarrow> fcnode list \<Rightarrow> bool" where
  "wf_typed freq q \<longleftrightarrow> (\<forall>n \<in> set q. fcount n = word_of_nat (freq (fpk n)))"

lemma fpk_typed_node: "length fp = FP_SIZE \<Longrightarrow> fpk (typed_node th freq fp) = fp"
  by (simp add: fpk_def typed_node_def)

lemma wf_typed_pop: "wf_typed freq q \<Longrightarrow> q \<noteq> [] \<Longrightarrow> wf_typed freq (pq_pop fc_lt q)"
  using set_pq_pop[of q fc_lt] unfolding wf_typed_def by blast

lemma mset_pops: "n \<le> length q \<Longrightarrow> mset (take n (drain lt q)) + mset ((pq_pop lt ^^ n) q) = mset q"
proof (induction n arbitrary: q)
  case (Suc n)
  then have q: "q \<noteq> []" "n \<le> length (pq_pop lt q)" by auto
  have "mset (take n (drain lt (pq_pop lt q))) + mset ((pq_pop lt ^^ n) (pq_pop lt q)) = mset (pq_pop lt q)" using Suc.IH[OF q(2)] .
  moreover have "add_mset (pq_top q) (mset (pq_pop lt q)) = mset q" using mset_pq_pop[OF q(1), of lt] pq_top_mem[OF q(1)] by simp
  ultimately show ?case using q(1) by (simp add: drain_Cons funpow_swap1)
qed simp

lemma length_pops: "length ((pq_pop lt ^^ n) q) = length q - n"
  by (induction n) auto

lemma mset_push_typed:
  "\<forall>fp \<in> set fps. length fp = FP_SIZE \<Longrightarrow>
   mset (map fpk (fold (pq_push fc_lt) (map (typed_node th freq) fps) q)) = mset (map fpk q) + mset fps"
  by (induction fps arbitrary: q) (auto simp: fpk_typed_node)

text \<open>The fingerprints of a bucket that are recorded for the type.\<close>

definition of_type :: "(bytes \<rightharpoonup> bytes) \<Rightarrow> bytes \<Rightarrow> bytes list \<Rightarrow> bytes list" where
  "of_type tab th = filter (\<lambda>fp. tab (fp @ th) \<noteq> None)"

definition typed_stores ::
  "('db \<Rightarrow> bytes \<rightharpoonup> bytes) \<Rightarrow> bytes \<Rightarrow> (string \<rightharpoonup> bytes list) \<Rightarrow> (bytes \<Rightarrow> nat) \<Rightarrow> 'db \<Rightarrow> 'db \<Rightarrow> bool" where
  "typed_stores view th b freq sf fc \<longleftrightarrow> (\<forall>z. view sf z = map_option concat (b z)) \<and>
     (\<forall>z fps. b z = Some fps \<longrightarrow> (\<forall>fp \<in> set fps. length fp = FP_SIZE \<and>
        (view fc (fp @ th) \<noteq> None \<longrightarrow> freq fp < 2 ^ 31 \<and> view fc (fp @ th) = Some (dec_nat (freq fp)))))"

text \<open>The state between two buckets: one of the queues is empty, and what was pushed has been paired or is still there.\<close>

definition carried :: "bytes multiset \<Rightarrow> bytes multiset \<Rightarrow> (bytes \<times> bytes) list \<Rightarrow> 'db infer \<Rightarrow> bool" where
  "carried ms cs prs s \<longleftrightarrow> (mQue s = [] \<or> cQue s = []) \<and>
     mset (map fst prs) + mset (map fpk (mQue s)) = ms \<and> mset (map snd prs) + mset (map fpk (cQue s)) = cs"

text \<open>The sizes that occur on both sides, and the fingerprints of the type in their buckets.\<close>

definition common :: "(string \<rightharpoonup> bytes list) \<Rightarrow> (bytes \<times> bytes) list \<Rightarrow> string list" where
  "common mb es = filter (\<lambda>z. mb z \<noteq> None) (map fst es)"

definition in_buckets :: "(bytes \<rightharpoonup> bytes) \<Rightarrow> bytes \<Rightarrow> (string \<rightharpoonup> bytes list) \<Rightarrow> string list \<Rightarrow> bytes list" where
  "in_buckets tab th b zs = concat (map (\<lambda>z. of_type tab th (the (b z))) zs)"

context leveldb_laws
begin

lemma load_typed_nodes:
  assumes "length th = FP_SIZE" "\<forall>fp \<in> set fps. length fp = FP_SIZE \<and>
      (view fc (fp @ th) \<noteq> None \<longrightarrow> freq fp < 2 ^ 31 \<and> view fc (fp @ th) = Some (dec_nat (freq fp)))"
  shows "load_typed L fc th (concat fps) que = Inr (fold (pq_push fc_lt) (map (typed_node th freq) (of_type (view fc) th fps)) que)"
proof -
  have "load_typed L fc th (concat fps) que = foldE (push_typed L fc th) fps que"
    unfolding load_typed_def using assms by (intro for_step_sub) auto
  also have "\<dots> = Inr (fold (\<lambda>fp q. if view fc (fp @ th) = None then q else pq_push fc_lt (typed_node th freq fp) q) fps que)"
  proof (rule foldE_Inr_eq_fold)
    fix fp q assume "fp \<in> set fps"
    then have fp: "length (fp @ th) = 12" "view fc (fp @ th) \<noteq> None \<longrightarrow> view fc (fp @ th) = Some (dec_nat (freq fp)) \<and> atoi (dec_nat (freq fp)) = int (freq fp)"
      using assms atoi_dec_nat[of "freq fp" "[]"] by auto
    show "push_typed L fc th fp q = Inr (if view fc (fp @ th) = None then q else pq_push fc_lt (typed_node th freq fp) q)"
      using fp by (cases "view fc (fp @ th)") (auto simp: push_typed_def get_cases typed_node_def)
  qed
  also have "fold (\<lambda>fp q. if view fc (fp @ th) = None then q else pq_push fc_lt (typed_node th freq fp) q) fps que =
      fold (pq_push fc_lt) (map (typed_node th freq) (of_type (view fc) th fps)) que"
    by (induction fps arbitrary: que) (auto simp: of_type_def)
  finally show ?thesis .
qed

lemma infer_rank_type_pair:
  assumes "mQue s \<noteq> []" "cQue s \<noteq> []" "wf_typed cfreq (cQue s)"
  shows "mQue (infer_rank_type L md5 s) = pq_pop fc_lt (mQue s)" "cQue (infer_rank_type L md5 s) = pq_pop fc_lt (cQue s)"
    "inferred view md5 cfreq [(fpk (pq_top (mQue s)), fpk (pq_top (cQue s)))] s (infer_rank_type L md5 s)"
proof -
  have "fcount (pq_top (cQue s)) = word_of_nat (cfreq (fpk (pq_top (cQue s))))"
    using assms(3) pq_top_mem[OF assms(2)] by (simp add: wf_typed_def)
  then show "mQue (infer_rank_type L md5 s) = pq_pop fc_lt (mQue s)" "cQue (infer_rank_type L md5 s) = pq_pop fc_lt (cQue s)"
    "inferred view md5 cfreq [(fpk (pq_top (mQue s)), fpk (pq_top (cQue s)))] s (infer_rank_type L md5 s)"
    by (auto simp: infer_rank_type_def Let_def inferred_def right_pairs_of_def view_put fpk_def)
qed

lemma infer_ranks_type_pairs:
  assumes "n \<le> length (mQue s)" "n \<le> length (cQue s)" "wf_typed cfreq (cQue s)"
  shows "mQue ((infer_rank_type L md5 ^^ n) s) = (pq_pop fc_lt ^^ n) (mQue s) \<and> cQue ((infer_rank_type L md5 ^^ n) s) = (pq_pop fc_lt ^^ n) (cQue s) \<and>
    inferred view md5 cfreq (take n (zip (map fpk (drain fc_lt (mQue s))) (map fpk (drain fc_lt (cQue s))))) s ((infer_rank_type L md5 ^^ n) s)"
  using assms
proof (induction n arbitrary: s)
  case 0
  then show ?case by (simp add: inferred_refl)
next
  case (Suc n)
  then have ne: "mQue s \<noteq> []" "cQue s \<noteq> []" by auto
  let ?s1 = "infer_rank_type L md5 s"
  note r = infer_rank_type_pair[OF ne Suc.prems(3), of md5]
  have "n \<le> length (mQue ?s1)" "n \<le> length (cQue ?s1)" "wf_typed cfreq (cQue ?s1)"
    using Suc.prems ne r(1,2) wf_typed_pop by auto
  note IH = Suc.IH[OF this]
  have "(infer_rank_type L md5 ^^ Suc n) s = (infer_rank_type L md5 ^^ n) ?s1" by (simp add: funpow_swap1)
  then show ?case
    using IH r(1,2) ne inferred_trans[OF r(3) conjunct2[OF conjunct2[OF IH]]] by (simp add: drain_Cons funpow_swap1)
qed

lemma infer_bucket_type_pairs:
  assumes th: "length th = FP_SIZE" and m: "mb z = Some mfps" "typed_stores view th mb mfreq (MSFdb s) (MFCdb s)"
    and c: "cb z = Some cfps" "typed_stores view th cb cfreq (CSFdb s) (CFCdb s)"
    and q: "wf_typed cfreq (cQue s)" "carried ms cs prs s"
  shows "\<exists>s' new. infer_bucket_type L md5 th (z, concat cfps) s = Inr s' \<and> wf_typed cfreq (cQue s') \<and>
    carried (ms + mset (of_type (view (MFCdb s)) th mfps)) (cs + mset (of_type (view (CFCdb s)) th cfps)) (prs @ new) s' \<and> inferred view md5 cfreq new s s'"
proof -
  let ?mq = "fold (pq_push fc_lt) (map (typed_node th mfreq) (of_type (view (MFCdb s)) th mfps)) (mQue s)"
  let ?cq = "fold (pq_push fc_lt) (map (typed_node th cfreq) (of_type (view (CFCdb s)) th cfps)) (cQue s)"
  let ?s = "s\<lparr>cQue := ?cq, mQue := ?mq\<rparr>" and ?n = "min (length ?mq) (length ?cq)"
  have fps: "\<forall>fp \<in> set mfps. length fp = FP_SIZE \<and> (view (MFCdb s) (fp @ th) \<noteq> None \<longrightarrow> mfreq fp < 2 ^ 31 \<and> view (MFCdb s) (fp @ th) = Some (dec_nat (mfreq fp)))"
    "\<forall>fp \<in> set cfps. length fp = FP_SIZE \<and> (view (CFCdb s) (fp @ th) \<noteq> None \<longrightarrow> cfreq fp < 2 ^ 31 \<and> view (CFCdb s) (fp @ th) = Some (dec_nat (cfreq fp)))"
    using m c by (auto simp: typed_stores_def)
  have sub: "set (of_type tab th fps) \<subseteq> set fps" for tab fps by (auto simp: of_type_def)
  have mq: "mset (map fpk ?mq) = mset (map fpk (mQue s)) + mset (of_type (view (MFCdb s)) th mfps)"
    using fps(1) sub[of "view (MFCdb s)" mfps] by (intro mset_push_typed) blast
  have cq: "mset (map fpk ?cq) = mset (map fpk (cQue s)) + mset (of_type (view (CFCdb s)) th cfps)"
    using fps(2) sub[of "view (CFCdb s)" cfps] by (intro mset_push_typed) blast
  have wf: "wf_typed cfreq ?cq"
    using q(1) fps(2) sub[of "view (CFCdb s)" cfps] by (auto simp: wf_typed_def set_fold_push fpk_typed_node subset_iff) (simp add: typed_node_def)
  let ?s' = "(infer_rank_type L md5 ^^ ?n) ?s"
  let ?new = "take ?n (zip (map fpk (drain fc_lt ?mq)) (map fpk (drain fc_lt ?cq)))"
  have "mQue ?s' = (pq_pop fc_lt ^^ ?n) ?mq \<and> cQue ?s' = (pq_pop fc_lt ^^ ?n) ?cq \<and> inferred view md5 cfreq ?new ?s ?s'"
    using infer_ranks_type_pairs[of ?n ?s cfreq md5] wf by simp
  then have r: "mQue ?s' = (pq_pop fc_lt ^^ ?n) ?mq" "cQue ?s' = (pq_pop fc_lt ^^ ?n) ?cq" "inferred view md5 cfreq ?new ?s ?s'" by blast+
  have run: "infer_bucket_type L md5 th (z, concat cfps) s = Inr ?s'"
    using load_typed_nodes[OF th fps(1)] load_typed_nodes[OF th fps(2)] m by (simp add: infer_bucket_type_def get_cases typed_stores_def)
  have fst_new: "map fst ?new = map fpk (take ?n (drain fc_lt ?mq))" and snd_new: "map snd ?new = map fpk (take ?n (drain fc_lt ?cq))"
    by (simp_all add: take_map map_fst_zip_take map_snd_zip_take flip: take_zip)
  have left: "mset (map fst ?new) + mset (map fpk (mQue ?s')) = mset (map fpk ?mq)" "mset (map snd ?new) + mset (map fpk (cQue ?s')) = mset (map fpk ?cq)"
    unfolding r fst_new snd_new using mset_pops[of ?n ?mq fc_lt] mset_pops[of ?n ?cq fc_lt]
    by (simp_all only: mset_map min.cobounded1 min.cobounded2 simp_thms flip: image_mset_union)
  have "length (mQue ?s') = 0 \<or> length (cQue ?s') = 0" unfolding r length_pops by linarith
  then have "carried (ms + mset (of_type (view (MFCdb s)) th mfps)) (cs + mset (of_type (view (CFCdb s)) th cfps)) (prs @ ?new) ?s'"
    using q(2) left mq cq unfolding carried_def by (simp add: ac_simps)
  moreover have "set (cQue ?s') \<subseteq> set ?cq"
    using mset_pops[of ?n ?cq fc_lt] unfolding r by (metis min.cobounded2 mset_subset_eq_add_right set_mset_mono set_mset_mset)
  then have "wf_typed cfreq (cQue ?s')" using wf by (auto simp: wf_typed_def)
  moreover have "inferred view md5 cfreq ?new s ?s'" using r(3) by (simp add: inferred_def)
  ultimately show ?thesis using run by blast
qed

lemma infer_buckets_type:
  assumes th: "length th = FP_SIZE"
    and m: "typed_stores view th mb mfreq (MSFdb s) (MFCdb s)" and c: "typed_stores view th cb cfreq (CSFdb s) (CFCdb s)"
    and es: "\<forall>(z, v) \<in> set es. view (CSFdb s) z = Some v" and q: "wf_typed cfreq (cQue s)" "carried ms cs prs s"
  shows "\<exists>s' new. foldE (infer_bucket_type L md5 th) es s = Inr s' \<and>
    carried (ms + mset (in_buckets (view (MFCdb s)) th mb (common mb es))) (cs + mset (in_buckets (view (CFCdb s)) th cb (common mb es))) (prs @ new) s' \<and>
    inferred view md5 cfreq new s s'"
  using m c es q
proof (induction es arbitrary: s ms cs prs)
  case Nil
  then show ?case by (intro exI[of _ s] exI[of _ "[]"]) (simp add: inferred_refl in_buckets_def common_def)
next
  case (Cons e es)
  obtain z v where e: "e = (z, v)" by (cases e)
  obtain cfps where cf: "cb z = Some cfps" "v = concat cfps" using Cons.prems(2,3) by (auto simp: typed_stores_def e)
  show ?case
  proof (cases "mb z")
    case None
    have skip: "infer_bucket_type L md5 th e s = Inr s"
      using Cons.prems(1) None by (simp add: infer_bucket_type_def get_cases typed_stores_def e)
    have "common mb (e # es) = common mb es" using None by (simp add: common_def e)
    then show ?thesis using Cons.IH[OF Cons.prems(1,2) _ Cons.prems(4,5)] Cons.prems(3) skip by simp
  next
    case (Some mfps)
    obtain s1 new where s1: "infer_bucket_type L md5 th (z, concat cfps) s = Inr s1" "wf_typed cfreq (cQue s1)"
      "carried (ms + mset (of_type (view (MFCdb s)) th mfps)) (cs + mset (of_type (view (CFCdb s)) th cfps)) (prs @ new) s1" "inferred view md5 cfreq new s s1"
      using infer_bucket_type_pairs[where s = s, OF th Some Cons.prems(1) cf(1) Cons.prems(2,4,5)] by blast
    have same: "CSFdb s1 = CSFdb s" "CFCdb s1 = CFCdb s" "MSFdb s1 = MSFdb s" "MFCdb s1 = MFCdb s"
      using s1(4) by (simp_all add: inferred_def Let_def)
    obtain s2 new' where s2: "foldE (infer_bucket_type L md5 th) es s1 = Inr s2" "inferred view md5 cfreq new' s1 s2"
      "carried (ms + mset (of_type (view (MFCdb s)) th mfps) + mset (in_buckets (view (MFCdb s)) th mb (common mb es)))
        (cs + mset (of_type (view (CFCdb s)) th cfps) + mset (in_buckets (view (CFCdb s)) th cb (common mb es))) ((prs @ new) @ new') s2"
      using Cons.IH[of s1, unfolded same, OF Cons.prems(1,2) _ s1(2,3)] Cons.prems(3) by auto
    have "common mb (e # es) = z # common mb es" using Some by (simp add: common_def e)
    then show ?thesis
      using s1(1) s2 inferred_trans[OF s1(4) s2(2)] Some cf by (intro exI[of _ s2] exI[of _ "new @ new'"]) (simp add: in_buckets_def add.assoc e)
  qed
qed

end

section \<open>Properties of the attack on a type\<close>

text \<open>What the attack on a file type infers. On stores whose buckets list fingerprints with their counts for the type
  recorded or not, it looks at the sizes that both sides have. Every fingerprint of the type in these buckets takes part in
  at most one pair per listing; because the queues are carried from bucket to bucket, also across sizes, the number of
  pairs is the smaller of the two totals, not the sum of the smaller ones per bucket. The output gets exactly the right
  pairs, and the counters are the numbers of pairs, of right pairs, and of the occurrences of the latter.\<close>

lemma inferTest_type_pairs:
  assumes L: "leveldb_laws L view" and th: "type_hash md5 input = Inr th" "length th = FP_SIZE"
    and m: "typed_stores view th mb mfreq (MSFdb s) (MFCdb s)" and c: "typed_stores view th cb cfreq (CSFdb s) (CFCdb s)"
    and q: "cQue s = []" "mQue s = []"
  shows "\<exists>s' zs prs. inferTest_type L md5 input s = Inr s' \<and> distinct zs \<and> set zs = dom cb \<inter> dom mb \<and>
    (let ms = in_buckets (view (MFCdb s)) th mb zs; cs = in_buckets (view (CFCdb s)) th cb zs; good = filter (\<lambda>(m, c). enc_fp md5 m = c) prs in
     mset (map fst prs) \<subseteq># mset ms \<and> mset (map snd prs) \<subseteq># mset cs \<and> length prs = min (length ms) (length cs) \<and>
     view (OUTdb s') = view (OUTdb s) ++ map_of (rev good) \<and>
     uniqueInferChunkNumber s' = uniqueInferChunkNumber s + word_of_nat (length prs) \<and>
     correctInferChunkNumber s' = correctInferChunkNumber s + word_of_nat (length good) \<and>
     rawInferChunkNumber s' = rawInferChunkNumber s + word_of_nat (\<Sum>(m, c) \<leftarrow> good. cfreq c))"
proof -
  let ?es = "fst (ldb_iter L (CSFdb s))"
  let ?zs = "common mb ?es"
  let ?ms = "in_buckets (view (MFCdb s)) th mb ?zs" and ?cs = "in_buckets (view (CFCdb s)) th cb ?zs"
  have es: "\<forall>(z, v) \<in> set ?es. view (CSFdb s) z = Some v" using leveldb_laws.iter_mem[OF L] by auto
  have "carried {#} {#} [] s" "wf_typed cfreq (cQue s)" using q by (simp_all add: carried_def wf_typed_def)
  from leveldb_laws.infer_buckets_type[OF L th(2) m c es this(2,1), of md5] obtain s' prs where
    run: "foldE (infer_bucket_type L md5 th) ?es s = Inr s'" "inferred view md5 cfreq prs s s'"
    and carry: "mQue s' = [] \<or> cQue s' = []" "mset (map fst prs) + mset (map fpk (mQue s')) = mset ?ms" "mset (map snd prs) + mset (map fpk (cQue s')) = mset ?cs"
    by (auto simp: carried_def)
  have "inferTest_type L md5 input s = Inr s'"
    using th(1) run(1) leveldb_laws.iter_status[OF L, of "CSFdb s"] by (simp add: inferTest_type_def case_prod_beta assertE_def)
  moreover have "distinct ?zs" using leveldb_laws.iter_distinct[OF L] by (simp add: common_def)
  moreover have "set ?zs = dom cb \<inter> dom mb"
    using leveldb_laws.iter_keys[OF L, of "CSFdb s"] c by (auto simp: common_def typed_stores_def dom_def)
  moreover have "length prs + length (mQue s') = length ?ms" "length prs + length (cQue s') = length ?cs"
    using arg_cong[OF carry(2), of size] arg_cong[OF carry(3), of size] by simp_all
  then have "length prs = min (length ?ms) (length ?cs)" using carry(1) by auto
  moreover have "mset (map fst prs) \<subseteq># mset ?ms" "mset (map snd prs) \<subseteq># mset ?cs"
    unfolding carry(2,3)[symmetric] by simp_all
  ultimately show ?thesis
    using run(2) by (intro exI[of _ s'] exI[of _ ?zs] exI[of _ prs]) (simp add: inferred_def right_pairs_of_def Let_def)
qed

text \<open>Two plaintext chunks of the type in one bucket, one ciphertext chunk of it in each of two: bucket by bucket there is
  one pair, with the queues carried over there are two.\<close>

definition demo_typed :: "mem_db infer" where
  "demo_typed = \<lparr>CFCdb = [(''ijklmnuvwxyz'', ''3''), (''opqrstuvwxyz'', ''2'')], CSFdb = [(''1'', ''ijklmn''), (''2'', ''opqrst'')],
     MFCdb = [(''abcdefuvwxyz'', ''3''), (''ghijkluvwxyz'', ''2'')], MSFdb = [(''1'', ''abcdefghijkl''), (''2'', ''ABCDEF'')],
     OUTdb = [], cQue = [], mQue = [], rawInferChunkNumber = 0, uniqueInferChunkNumber = 0, correctInferChunkNumber = 0, bucketNum = 0\<rparr>"

lemma dec_nat_2_3: "dec_nat 2 = ''2''" "dec_nat 3 = ''3''"
  by code_simp+

lemma two_sizes: "distinct zs \<Longrightarrow> set zs = {a, b} \<Longrightarrow> a \<noteq> b \<Longrightarrow> zs = [a, b] \<or> zs = [b, a]"
proof -
  assume z: "distinct zs" "set zs = {a, b}" "a \<noteq> b"
  then have "length zs = 2" using distinct_card[OF z(1)] by simp
  then obtain x y where "zs = [x, y]" by (auto simp: numeral_2_eq_2 length_Suc_conv)
  then show ?thesis using z by (auto simp: doubleton_eq_iff)
qed

lemma inferTest_type_pairs_witness:
  "\<exists>s'. inferTest_type (mem_leveldb (\<lambda>_. [])) (\<lambda>_. ''uvwxyz0123456789'') ''doc'' demo_typed = Inr s' \<and> uniqueInferChunkNumber s' = 2"
proof -
  let ?mb = "[''1'' \<mapsto> [''abcdef'', ''ghijkl''], ''2'' \<mapsto> [''ABCDEF'']]" and ?cb = "[''1'' \<mapsto> [''ijklmn''], ''2'' \<mapsto> [''opqrst'']]"
  let ?mfreq = "\<lambda>fp. if fp = ''abcdef'' then 3 else 2 :: nat" and ?cfreq = "\<lambda>fp. if fp = ''ijklmn'' then 3 else 2 :: nat"
  have th: "type_hash (\<lambda>_. ''uvwxyz0123456789'') ''doc'' = Inr ''uvwxyz''" by (simp add: type_hash_def strtok_def)
  have m: "typed_stores map_of ''uvwxyz'' ?mb ?mfreq (MSFdb demo_typed) (MFCdb demo_typed)"
    and c: "typed_stores map_of ''uvwxyz'' ?cb ?cfreq (CSFdb demo_typed) (CFCdb demo_typed)"
    using dec_nat_2_3 by (auto simp: typed_stores_def demo_typed_def split: if_splits)
  have start: "length ''uvwxyz'' = FP_SIZE" "cQue demo_typed = []" "mQue demo_typed = []" by (simp_all add: demo_typed_def)
  obtain s' zs and prs :: "(bytes \<times> bytes) list" where r: "inferTest_type (mem_leveldb (\<lambda>_. [])) (\<lambda>_. ''uvwxyz0123456789'') ''doc'' demo_typed = Inr s'"
    "distinct zs" "set zs = dom ?cb \<inter> dom ?mb"
    "length prs = min (length (in_buckets (map_of (MFCdb demo_typed)) ''uvwxyz'' ?mb zs)) (length (in_buckets (map_of (CFCdb demo_typed)) ''uvwxyz'' ?cb zs))"
    "uniqueInferChunkNumber s' = uniqueInferChunkNumber demo_typed + word_of_nat (length prs)"
    using inferTest_type_pairs[OF mem.leveldb_laws_axioms[of "\<lambda>_. []"] th start(1) m c start(2,3), unfolded Let_def]
    by (elim exE conjE) (rule that)
  have "dom ?cb \<inter> dom ?mb = {''1'', ''2''}" by auto
  then have zs: "set zs = {''1'', ''2''}" using r(3) by argo
  have "length prs = 2" using two_sizes[OF r(2) zs] r(4) by (auto simp: in_buckets_def of_type_def demo_typed_def)
  then show ?thesis using r(1,5) by (auto simp: demo_typed_def)
qed

end
