(* ===== verification/FileChunks.thy ===== *)
theory FileChunks
  imports LocalityCount InferChunks
begin

text \<open>
  The programs of the bucket attack that know about files: \<open>readChunksFile.cc\<close> stores the chunks of
  every file, \<open>readInChunkToDBsFileType.cc\<close> fills the bucket stores with fingerprints that carry the
  hash of the file type, \<open>compareDB.cc\<close> compares the files of a type with the inferred pairs. The
  first two read a list of files (a line with the type, a line with the number of chunks) beside the
  trace; both buffers keep their content when a file ends early, and the model keeps it with them.
\<close>

section \<open>The list of files and the trace\<close>

text \<open>What a buffer holds as a C string after a first \<open>strtok\<close>: the token is cut off at its end.\<close>

definition after_strtok :: "string \<Rightarrow> string \<Rightarrow> string" where
  "after_strtok ds buf =
     takeWhile (\<lambda>c. c \<in> set ds) buf @ (case strtok ds buf of None \<Rightarrow> [] | Some (tok, _) \<Rightarrow> tok)"

text \<open>\<open>fgets\<close> into a buffer with the content \<open>buf\<close> (\<open>None\<close> before the first write): at the end of the file it
  stays as it is.\<close>

definition fgets_into :: "string \<Rightarrow> string option \<Rightarrow> string \<times> string option" where
  "fgets_into fp buf = (case fgets 256 fp of None \<Rightarrow> (fp, buf) | Some (l, r) \<Rightarrow> (r, Some (cstr l)))"

text \<open>The next entry of the list: the name of the type, the number of chunks, the rest of the list and
  the number buffer. The name buffer has 50 bytes, but \<open>fgets\<close> may write 256.\<close>

definition next_type ::
  "string \<Rightarrow> string option \<Rightarrow> cpp_error + (string \<times> u64 \<times> string \<times> string option) option" where
  "next_type typeFp numBuf =
     (case fgets 256 typeFp of
        None \<Rightarrow> Inr None
      | Some (l, r) \<Rightarrow>
          if length l + 1 > 50 then Inl BufferOverflow
          else case strtok [CHR '':'', TAB, LF] (cstr l) of
                 None \<Rightarrow> Inl NullDeref
               | Some (itemN, _) \<Rightarrow>
                   (case fgets_into r numBuf of
                      (r, None) \<Rightarrow> Inl Uninitialised
                    | (r, Some nb) \<Rightarrow>
                        (case strtok [CHR '':'', TAB, LF] nb of
                           None \<Rightarrow> Inl NullDeref
                         | Some (tmp, _) \<Rightarrow>
                             Inr (Some (itemN, word_of_int (atoi tmp), r, Some (after_strtok [CHR '':'', TAB, LF] nb))))))"

lemma fgets_shorter: "fgets 256 s = Some (l, r) \<Longrightarrow> length r < length s"
proof -
  assume a: "fgets 256 s = Some (l, r)"
  then have "s \<noteq> []" "r = snd (fgets_go (Suc 254) s)" by (auto simp: fgets_def split: if_splits)
  then show ?thesis using fgets_go_shorter[of s 254] by simp
qed

lemma fgets_into_length: "length (fst (fgets_into s b)) \<le> length s"
  using fgets_shorter[of s] by (cases "fgets 256 s") (auto simp: fgets_into_def less_imp_le)

lemma next_type_shorter: "next_type tf nb = Inr (Some (name, n, tf', nb')) \<Longrightarrow> length tf' < length tf"
proof -
  assume a: "next_type tf nb = Inr (Some (name, n, tf', nb'))"
  then obtain l r where l: "fgets 256 tf = Some (l, r)" by (cases "fgets 256 tf") (auto simp: next_type_def)
  have "tf' = fst (fgets_into r nb)"
    using a l by (auto simp: next_type_def split: if_splits option.splits prod.splits)
  then show ?thesis using fgets_shorter[OF l] fgets_into_length[of r nb] by simp
qed

function type_loop ::
  "(string \<Rightarrow> u64 \<Rightarrow> 's \<Rightarrow> cpp_error + 's) \<Rightarrow> string \<Rightarrow> string option \<Rightarrow> 's \<Rightarrow> cpp_error + 's" where
  "type_loop body typeFp numBuf s =
     (case next_type typeFp numBuf of
        Inl e \<Rightarrow> Inl e
      | Inr None \<Rightarrow> Inr s
      | Inr (Some (typeName, chunkNumber, typeFp', numBuf')) \<Rightarrow>
          (case body typeName chunkNumber s of Inl e \<Rightarrow> Inl e | Inr s \<Rightarrow> type_loop body typeFp' numBuf' s))"
  by pat_completeness auto
termination
  by (relation "measure (\<lambda>(_, tf, _, _). length tf)") (auto dest: next_type_shorter)

declare type_loop.simps [simp del]

text \<open>The trace, as the loops read it: the rest of the file and the line buffer.\<close>

type_synonym reader = "string \<times> string option"

definition next_line :: "reader \<Rightarrow> cpp_error + (string \<times> reader)" where
  "next_line = (\<lambda>(fp, buf).
     case fgets_into fp buf of
       (fp, None) \<Rightarrow> Inl Uninitialised
     | (fp, Some b) \<Rightarrow> Inr (b, fp, Some (after_strtok [CHR '':'', TAB, LF, CHR '' ''] b)))"

text \<open>\<open>for (i = 0; i < chunkNumber; i++)\<close> with a line of the trace for each.\<close>

fun line_loop :: "(string \<Rightarrow> 's \<Rightarrow> cpp_error + 's) \<Rightarrow> nat \<Rightarrow> reader \<times> 's \<Rightarrow> cpp_error + (reader \<times> 's)" where
  "line_loop body 0 st = Inr st"
| "line_loop body (Suc n) (rd, s) =
     bindE (next_line rd) (\<lambda>(b, rd). bindE (body b s) (\<lambda>s. line_loop body n (rd, s)))"

section \<open>readChunksFile\<close>

record 'db files =
  fileDb :: 'db
  fileLogic :: u64
  fileIndex :: u64

text \<open>The search through the records of a file, each of six bytes of hash and eight of count. The result
  is the value with the count of the chunk incremented, if it is there. \<open>substr\<close> beyond the end throws.\<close>

function bump_chunk :: "bytes \<Rightarrow> bytes \<Rightarrow> nat \<Rightarrow> cpp_error + bytes option" where
  "bump_chunk exs chunkHash i =
     (if i < length exs
      then let key = take 14 (drop i exs)
           in if length key < 6 then Inl StdOutOfRange
              else if take FP_SIZE key = take FP_SIZE chunkHash
                   then bindE (read_u64 (take 8 (drop 6 key)) 0) (\<lambda>count.
                          Inr (Some (take (i + FP_SIZE) exs @ u64_bytes (count + 1) @ drop (i + FP_SIZE + 8) exs)))
                   else bump_chunk exs chunkHash (i + 14)
      else Inr None)"
  by pat_completeness auto
termination
  by (relation "measure (\<lambda>(exs, _, i). length exs - i)") auto

declare bump_chunk.simps [simp del]

definition insertFCDB_file :: "'db leveldb \<Rightarrow> bytes \<Rightarrow> bytes \<Rightarrow> 'db \<Rightarrow> cpp_error + 'db" where
  "insertFCDB_file L metaStr chunkHash db =
     (let (status, exs) = ldb_get L db metaStr []
      in bindE (if status \<noteq> StOk then Inr (chunkHash @ u64_bytes 1)
                else bindE (bump_chunk exs chunkHash 0) (\<lambda>r.
                       Inr (case r of None \<Rightarrow> exs @ chunkHash @ u64_bytes 1 | Some v \<Rightarrow> v))) (\<lambda>insertKey.
           if length insertKey mod 14 \<noteq> 0 then Inl (ExitCall 0)
           else Inr (snd (ldb_put L db metaStr insertKey))))"

definition file_chunk :: "'db leveldb \<Rightarrow> bytes \<Rightarrow> string \<Rightarrow> 'db files \<Rightarrow> cpp_error + 'db files" where
  "file_chunk L metaStr b s =
     bindE (insertFCDB_file L metaStr (fst (parse_hash b)) (fileDb s)) (\<lambda>d.
       Inr (s\<lparr>fileDb := d, fileLogic := fileLogic s + 1\<rparr>))"

definition meta_str :: "u64 \<Rightarrow> u64 \<Rightarrow> bytes \<Rightarrow> bytes" where
  "meta_str idx chunkNumber typeHashStr = u64_bytes idx @ u64_bytes chunkNumber @ typeHashStr"

definition one_file ::
  "'db leveldb \<Rightarrow> (bytes \<Rightarrow> bytes) \<Rightarrow> string \<Rightarrow> u64 \<Rightarrow> reader \<times> 'db files \<Rightarrow> cpp_error + (reader \<times> 'db files)" where
  "one_file L md5 typeName chunkNumber = (\<lambda>(rd, s).
     line_loop (file_chunk L (meta_str (fileIndex s) chunkNumber (take FP_SIZE (md5 typeName)))) (unat chunkNumber)
       (rd, s\<lparr>fileIndex := fileIndex s + 1\<rparr>))"

text \<open>The first line of the trace is skipped.\<close>

definition readInChunks_file ::
  "'db leveldb \<Rightarrow> (bytes \<Rightarrow> bytes) \<Rightarrow> string \<Rightarrow> string \<Rightarrow> 'db files \<Rightarrow> cpp_error + 'db files" where
  "readInChunks_file L md5 fp typeFp s =
     bindE (type_loop (one_file L md5) typeFp None (fgets_into fp None, s)) (\<lambda>(rd, s). Inr s)"

definition main_file ::
  "'db leveldb \<Rightarrow> (bytes \<Rightarrow> bytes) \<Rightarrow> (string \<rightharpoonup> string) \<Rightarrow> string list \<Rightarrow> 'db files \<Rightarrow> cpp_error + 'db files" where
  "main_file L md5 fs argv s =
     bindE (argv_at argv 3) (\<lambda>a3. bindE (open_db L a3) (\<lambda>d.
       case (fs (argv ! 1), fs (argv ! 2)) of
         (Some fp, Some typeFp) \<Rightarrow> readInChunks_file L md5 fp typeFp (s\<lparr>fileDb := d, fileLogic := 0, fileIndex := 0\<rparr>)
       | _ \<Rightarrow> Inl AssertFail))"

section \<open>readInChunkToDBsFileType\<close>

record 'db ftypes =
  tFCdb :: 'db
  tSFdb :: 'db
  Tdb :: 'db
  TPdb :: 'db
  tLogic :: u64

definition initDB_type :: "'db leveldb \<Rightarrow> string \<Rightarrow> string \<Rightarrow> string \<Rightarrow> 'db ftypes \<Rightarrow> cpp_error + 'db ftypes" where
  "initDB_type L db1 db2 db3 s =
     bindE (open_db L db1) (\<lambda>d1. bindE (open_db L db2) (\<lambda>d2. bindE (open_db L db3) (\<lambda>d3. bindE (open_db L ''./TP'') (\<lambda>d4.
       Inr (s\<lparr>tFCdb := d1, tSFdb := d2, Tdb := d3, TPdb := d4\<rparr>)))))"

definition insertTypeDB :: "'db leveldb \<Rightarrow> string \<Rightarrow> u64 \<Rightarrow> 'db \<Rightarrow> 'db" where
  "insertTypeDB L typeName chunkNum db =
     (let (status, exs) = ldb_get L db typeName []
      in if status \<noteq> StOk then snd (ldb_put L db typeName (to_string chunkNum))
         else snd (ldb_put L db typeName (to_string (word_of_int (atoi exs) + chunkNum))))"

definition insertTypeDB_Pair :: "'db leveldb \<Rightarrow> string \<Rightarrow> bytes \<Rightarrow> 'db \<Rightarrow> 'db" where
  "insertTypeDB_Pair L typeName typeHash db =
     (if fst (ldb_get L db typeName []) \<noteq> StOk then snd (ldb_put L db typeName typeHash) else db)"

text \<open>\<open>(double)size\<close> of a number below \<open>2 ^ 64\<close>: the nearest multiple of the last place of 53 bits, the even one in
  the middle. A division by 16 is exact.\<close>

definition double_of_nat :: "nat \<Rightarrow> nat" where
  "double_of_nat n =
     (let k = length (takeWhile (\<lambda>k. 2 ^ (53 + k) \<le> n) [0..<11]); q = n div 2 ^ k; r = 2 * (n mod 2 ^ k)
      in (if r > 2 ^ k \<or> (r = 2 ^ k \<and> odd q) then q + 1 else q) * 2 ^ k)"

text \<open>\<open>ceil((double)size/16)\<close>.\<close>

definition bucket_size :: "u64 \<Rightarrow> u64" where
  "bucket_size sz = word_of_int \<lceil>real (double_of_nat (unat sz)) / 16\<rceil>"

lemma bucket_size_exact: "unat sz < 2 ^ 53 \<Longrightarrow> bucket_size sz = word_of_nat ((unat sz + 15) div 16)"
proof -
  assume a: "unat sz < 2 ^ 53"
  then have "takeWhile (\<lambda>k. 2 ^ (53 + k) \<le> unat sz) [0..<11] = []" by (simp add: takeWhile_eq_Nil_iff)
  then have "double_of_nat (unat sz) = unat sz" by (simp add: double_of_nat_def)
  moreover have "\<lceil>real (unat sz) / 16\<rceil> = int ((unat sz + 15) div 16)"
    by (rule ceiling_unique) linarith+
  ultimately show ?thesis by (simp add: bucket_size_def)
qed

definition typed_chunk :: "'db leveldb \<Rightarrow> bytes \<Rightarrow> string \<Rightarrow> 'db ftypes \<Rightarrow> cpp_error + 'db ftypes" where
  "typed_chunk L typeHashStr b s =
     bindE (chunk_of_line b) (\<lambda>c.
     bindE (bucket_insert L (ckey c @ typeHashStr, to_string (bucket_size (csize c)), ckey c) (tFCdb s, tSFdb s)) (\<lambda>(new, fc, sf).
       Inr (s\<lparr>tFCdb := fc, tSFdb := sf, tLogic := tLogic s + 1\<rparr>)))"

definition one_type ::
  "'db leveldb \<Rightarrow> (bytes \<Rightarrow> bytes) \<Rightarrow> string \<Rightarrow> u64 \<Rightarrow> reader \<times> 'db ftypes \<Rightarrow> cpp_error + (reader \<times> 'db ftypes)" where
  "one_type L md5 typeName chunkNumber = (\<lambda>(rd, s).
     let typeHashStr = take FP_SIZE (md5 typeName)
     in line_loop (typed_chunk L typeHashStr) (unat chunkNumber)
          (rd, s\<lparr>Tdb := insertTypeDB L typeName chunkNumber (Tdb s),
                 TPdb := insertTypeDB_Pair L typeName typeHashStr (TPdb s)\<rparr>))"

definition readInChunks_type ::
  "'db leveldb \<Rightarrow> (bytes \<Rightarrow> bytes) \<Rightarrow> string \<Rightarrow> string \<Rightarrow> 'db ftypes \<Rightarrow> cpp_error + 'db ftypes" where
  "readInChunks_type L md5 fp typeFp s =
     bindE (type_loop (one_type L md5) typeFp None (fgets_into fp None, s)) (\<lambda>(rd, s). Inr s)"

text \<open>\<open>main\<close> asserts five arguments and uses the sixth.\<close>

definition main_type ::
  "'db leveldb \<Rightarrow> (bytes \<Rightarrow> bytes) \<Rightarrow> (string \<rightharpoonup> string) \<Rightarrow> string list \<Rightarrow> 'db ftypes \<Rightarrow> cpp_error + 'db ftypes" where
  "main_type L md5 fs argv s =
     (if length argv < 5 then Inl AssertFail
      else bindE (argv_at argv 5) (\<lambda>a5. bindE (initDB_type L (argv ! 3) (argv ! 4) a5 s) (\<lambda>s.
             case (fs (argv ! 1), fs (argv ! 2)) of
               (Some fp, Some typeFp) \<Rightarrow> readInChunks_type L md5 fp typeFp s
             | _ \<Rightarrow> Inl AssertFail)))"

section \<open>compareDB\<close>

definition overHold :: u64 where
  "overHold = 10"

record comparison =
  correctLogic :: u64
  totalLogic :: u64
  correctUnique :: u64
  totalUnique :: u64
  uniqueOver10 :: u64
  logicOver10 :: u64
  allOver10 :: u64
  totalFile :: u64

text \<open>\<open>s.substr(pos, n)\<close>, and a \<open>uint64_t\<close> read from one.\<close>

definition substr :: "bytes \<Rightarrow> nat \<Rightarrow> nat \<Rightarrow> cpp_error + bytes" where
  "substr s p n = (if length s < p then Inl StdOutOfRange else Inr (take n (drop p s)))"

definition substr_u64 :: "bytes \<Rightarrow> nat \<Rightarrow> cpp_error + u64" where
  "substr_u64 s p = bindE (substr s p 8) (\<lambda>b. read_u64 b 0)"

text \<open>One record of a file: a chunk that is among the answers counts.\<close>

definition compare_chunk :: "'db leveldb \<Rightarrow> 'db \<Rightarrow> bytes \<Rightarrow> nat \<Rightarrow> u64 \<times> u64 \<Rightarrow> cpp_error + (u64 \<times> u64)" where
  "compare_chunk L ans mValue i = (\<lambda>(uniqueTmp, logicTmp).
     bindE (substr mValue i 6) (\<lambda>chunkHashTmp.
     bindE (substr_u64 mValue (i + 6)) (\<lambda>countTmp.
       Inr (if fst (ldb_get L ans chunkHashTmp []) \<noteq> StOk then (uniqueTmp, logicTmp)
            else (uniqueTmp + 1, logicTmp + countTmp)))))"

definition compare_file :: "'db leveldb \<Rightarrow> 'db \<Rightarrow> bytes \<Rightarrow> bytes \<times> bytes \<Rightarrow> comparison \<Rightarrow> cpp_error + comparison" where
  "compare_file L ans typeHashStr it t =
     bindE (substr_u64 (fst it) 0) (\<lambda>index.
     bindE (substr_u64 (fst it) 8) (\<lambda>count.
     bindE (substr (fst it) 16 6) (\<lambda>mKey.
     bindE (read_bytes mKey 0 FP_SIZE) (\<lambda>mb.
       if mb \<noteq> typeHashStr then Inr t
       else bindE (for_step 14 (length (snd it)) (compare_chunk L ans (snd it)) 0 (0, 0)) (\<lambda>(correctUniqueTmp, correctLogicTmp).
              let uniqueTmp = word_of_nat (length (snd it)) div 14;
                  logicOver = (correctLogicTmp * overHold \<ge> count);
                  uniqueOver = (correctUniqueTmp * overHold \<ge> uniqueTmp)
              in Inr (t\<lparr>totalFile := totalFile t + 1, totalLogic := totalLogic t + count,
                        totalUnique := totalUnique t + uniqueTmp,
                        correctUnique := correctUnique t + correctUniqueTmp, correctLogic := correctLogic t + correctLogicTmp,
                        logicOver10 := logicOver10 t + (if logicOver then 1 else 0),
                        uniqueOver10 := uniqueOver10 t + (if uniqueOver then 1 else 0),
                        allOver10 := allOver10 t + (if logicOver \<and> uniqueOver then 1 else 0)\<rparr>))))))"

definition compareDB :: "'db leveldb \<Rightarrow> (bytes \<Rightarrow> bytes) \<Rightarrow> 'db \<Rightarrow> 'db \<Rightarrow> string \<Rightarrow> comparison \<Rightarrow> cpp_error + comparison" where
  "compareDB L md5 fc ans input t =
     bindE (type_hash md5 input) (\<lambda>typeHashStr.
       let (es, st) = ldb_iter L fc
       in bindE (foldE (compare_file L ans typeHashStr) es t) (\<lambda>t. assertE (st = StOk) t))"

definition compare_start :: comparison where
  "compare_start = \<lparr>correctLogic = 0, totalLogic = 0, correctUnique = 0, totalUnique = 0, uniqueOver10 = 0,
     logicOver10 = 0, allOver10 = 0, totalFile = 0\<rparr>"

definition main_compare :: "'db leveldb \<Rightarrow> (bytes \<Rightarrow> bytes) \<Rightarrow> string list \<Rightarrow> cpp_error + comparison" where
  "main_compare L md5 argv =
     bindE (argv_at argv 1) (\<lambda>a1. bindE (argv_at argv 2) (\<lambda>a2.
     bindE (open_db L a1) (\<lambda>fc. bindE (open_db L a2) (\<lambda>ans.
     bindE (argv_at argv 3) (\<lambda>a3. compareDB L md5 fc ans a3 compare_start)))))"

section \<open>Reading well-formed files\<close>

lemma fgets_text_line: "text_line l \<Longrightarrow> fgets 256 (l @ rest) = Some (l, rest)"
proof -
  assume l: "text_line l"
  then have "l = butlast l @ [LF]" by (metis append_butlast_last_id text_line_def)
  moreover have "fgets_go 255 (butlast l @ LF # rest) = (butlast l @ [LF], rest)"
    using l by (intro fgets_go_line) (auto simp: text_line_def)
  ultimately show ?thesis
    using l by (simp add: fgets_def text_line_def) (metis append.assoc append_Cons append_Nil)
qed

lemma fgets_into_text_line: "text_line l \<Longrightarrow> fgets_into (l @ rest) buf = (rest, Some l)"
  by (simp add: fgets_into_def fgets_text_line cstr_no_nul text_line_def)

definition type_text :: "string \<Rightarrow> nat \<Rightarrow> string" where
  "type_text name n = (name @ [LF]) @ (dec_nat n @ [LF])"

definition plain_name :: "string \<Rightarrow> bool" where
  "plain_name name \<longleftrightarrow> name \<noteq> [] \<and> set name \<inter> {CHR '':'', TAB, LF, NUL} = {} \<and> length name \<le> 48"

lemma strtok_type: "tok \<noteq> [] \<Longrightarrow> set tok \<inter> {CHR '':'', TAB, LF, NUL} = {} \<Longrightarrow>
  strtok [CHR '':'', TAB, LF] (tok @ [LF]) = Some (tok, [])"
  using strtok_token[of tok "[CHR '':'', TAB, LF]" LF "[]"] by auto

lemma text_line_snoc: "set tok \<inter> {CHR '':'', TAB, LF, NUL} = {} \<Longrightarrow> length tok \<le> 254 \<Longrightarrow> text_line (tok @ [LF])"
  by (auto simp: text_line_def)

lemma next_type_text:
  assumes "plain_name name" "n < 2 ^ 31"
  shows "\<exists>nb'. next_type (type_text name n @ rest) nb = Inr (Some (name, word_of_nat n, rest, nb'))"
proof -
  have nm: "name \<noteq> []" "set name \<inter> {CHR '':'', TAB, LF, NUL} = {}" "length name \<le> 48" using assms(1) by (auto simp: plain_name_def)
  have num: "set (dec_nat n) \<inter> {CHR '':'', TAB, LF, NUL} = {}" using dec_nat_plain by blast
  have "length (dec_nat n) \<le> Suc 9" using assms(2) by (intro length_dec_nat) simp
  then have tl: "text_line (name @ [LF])" "text_line (dec_nat n @ [LF])"
    using text_line_snoc[OF nm(2)] text_line_snoc[OF num] nm(3) by auto
  have "atoi (dec_nat n) = int n" using atoi_dec_nat[of n "[]"] assms(2) by simp
  then show ?thesis
    using fgets_text_line[OF tl(1), of "dec_nat n @ [LF] @ rest"] fgets_into_text_line[OF tl(2), of rest nb] nm(3)
      strtok_type[OF nm(1,2)] strtok_type[OF dec_nat_neq_Nil num] tl(1)
    by (simp add: next_type_def type_text_def cstr_no_nul text_line_def)
qed

lemma type_loop_text:
  assumes "\<forall>(name, n) \<in> set fs. plain_name name \<and> n < 2 ^ 31"
  shows "type_loop body (concat (map (\<lambda>(name, n). type_text name n) fs)) nb s =
    foldE (\<lambda>(name, n). body name (word_of_nat n)) fs s"
  using assms
proof (induction fs arbitrary: nb s)
  case Nil
  then show ?case by (simp add: type_loop.simps[of body "[]"] next_type_def fgets_def)
next
  case (Cons f fs)
  obtain name n where f: "f = (name, n)" by (cases f)
  let ?rest = "concat (map (\<lambda>(name, n). type_text name n) fs)"
  obtain nb' where "next_type (type_text name n @ ?rest) nb = Inr (Some (name, word_of_nat n, ?rest, nb'))"
    using next_type_text Cons.prems f by fastforce
  then show ?case
    using Cons by (subst type_loop.simps) (simp add: f split: sum.split)
qed

lemma line_loop_lines:
  assumes "\<forall>l \<in> set ls. text_line l"
  shows "\<exists>buf'. line_loop body (length ls) ((concat ls @ rest, buf), s) =
    bindE (foldE body ls s) (\<lambda>s. Inr ((rest, buf'), s))"
  using assms
proof (induction ls arbitrary: buf s)
  case Nil
  then show ?case by auto
next
  case (Cons l ls)
  let ?b = "Some (after_strtok [CHR '':'', TAB, LF, CHR '' ''] l)"
  have n: "next_line (l @ concat ls @ rest, buf) = Inr (l, concat ls @ rest, ?b)"
    using Cons.prems by (simp add: next_line_def fgets_into_text_line)
  show ?case
  proof (cases "body l s")
    case (Inl e)
    then show ?thesis using n by auto
  next
    case (Inr s1)
    then show ?thesis using n Cons.IH[of ?b s1] Cons.prems by simp
  qed
qed

text \<open>A loop over files, each of which reads its own lines of the trace.\<close>

lemma files_loop:
  fixes step :: "string \<Rightarrow> u64 \<Rightarrow> reader \<times> 's \<Rightarrow> cpp_error + (reader \<times> 's)"
  assumes "\<forall>(name, ls) \<in> set fls. length ls < 2 ^ 31 \<and> (\<forall>l \<in> set ls. text_line l)"
    "\<And>name n rd s. step name n (rd, s) = line_loop (g name n s) (unat n) (rd, h name n s)"
  shows "\<exists>buf'. foldE (\<lambda>(name, ls). step name (word_of_nat (length ls))) fls ((concat (concat (map snd fls)) @ rest, buf), s) =
    bindE (foldE (\<lambda>(name, ls) s. let n = word_of_nat (length ls) in foldE (g name n s) ls (h name n s)) fls s) (\<lambda>s. Inr ((rest, buf'), s))"
  using assms(1)
proof (induction fls arbitrary: buf s)
  case Nil
  then show ?case by auto
next
  case (Cons f fls)
  obtain name ls where f: "f = (name, ls)" by (cases f)
  let ?n = "word_of_nat (length ls) :: u64" and ?rest = "concat (concat (map snd fls)) @ rest"
  have n: "unat ?n = length ls" using Cons.prems by (simp add: f unsigned_of_nat take_bit_nat_eq_self)
  obtain b1 where b1: "step name ?n ((concat ls @ ?rest, buf), s) = bindE (foldE (g name ?n s) ls (h name ?n s)) (\<lambda>s. Inr ((?rest, b1), s))"
    using line_loop_lines[of ls "g name ?n s" ?rest buf "h name ?n s"] Cons.prems assms(2) n by (auto simp: f)
  show ?case
  proof (cases "foldE (g name ?n s) ls (h name ?n s)")
    case (Inl e)
    then show ?thesis using b1 by (simp add: f)
  next
    case (Inr s1)
    then show ?thesis using b1 Cons.IH[of b1 s1] Cons.prems by (simp add: f Let_def)
  qed
qed

text \<open>The whole input: the trace with its title line, and the list of files.\<close>

definition trace_of :: "string \<Rightarrow> (string \<times> string list) list \<Rightarrow> string" where
  "trace_of title fls = title @ concat (concat (map snd fls))"

definition list_of :: "(string \<times> string list) list \<Rightarrow> string" where
  "list_of fls = concat (map (\<lambda>(name, ls). type_text name (length ls)) fls)"

definition plain_files :: "(string \<times> string list) list \<Rightarrow> bool" where
  "plain_files fls \<longleftrightarrow> (\<forall>(name, ls) \<in> set fls. plain_name name \<and> length ls < 2 ^ 31 \<and> (\<forall>l \<in> set ls. text_line l))"

lemma files_run:
  fixes step :: "string \<Rightarrow> u64 \<Rightarrow> reader \<times> 's \<Rightarrow> cpp_error + (reader \<times> 's)"
  assumes "plain_files fls" "text_line title"
    "\<And>name n rd s. step name n (rd, s) = line_loop (g name n s) (unat n) (rd, h name n s)"
  shows "bindE (type_loop step (list_of fls) None (fgets_into (trace_of title fls) None, s)) (\<lambda>(rd, s). Inr s) =
    foldE (\<lambda>(name, ls) s. let n = word_of_nat (length ls) in foldE (g name n s) ls (h name n s)) fls s"
proof -
  have l: "list_of fls = concat (map (\<lambda>(name, n). type_text name n) (map (\<lambda>(name, ls). (name, length ls)) fls))"
    by (simp add: list_of_def comp_def case_prod_unfold)
  have "type_loop step (list_of fls) None st = foldE (\<lambda>(name, n). step name (word_of_nat n)) (map (\<lambda>(name, ls). (name, length ls)) fls) st" for st
    unfolding l using assms(1) by (intro type_loop_text) (auto simp: plain_files_def)
  then have t: "type_loop step (list_of fls) None st = foldE (\<lambda>(name, ls). step name (word_of_nat (length ls))) fls st" for st
    by (simp add: foldE_map case_prod_unfold)
  have "\<forall>(name, ls) \<in> set fls. length ls < 2 ^ 31 \<and> (\<forall>l \<in> set ls. text_line l)" using assms(1) by (auto simp: plain_files_def)
  from files_loop[where step = step and g = g and h = h and fls = fls and rest = "[]" and buf = "Some title" and s = s, OF this assms(3)] show ?thesis
    unfolding t trace_of_def fgets_into_text_line[OF assms(2)]
    by (auto simp: bindE_assoc) (cases "foldE (\<lambda>(name, ls) s. let n = word_of_nat (length ls) in foldE (g name n s) ls (h name n s)) fls s", auto)
qed

section \<open>The chunks of the files\<close>

lemma bump_chunk_at:
  assumes "wf_nodes ns" "length fp = FP_SIZE"
  shows "bump_chunk (pre @ concat (map rec_bytes ns)) fp (length pre) =
    Inr (if fp \<in> nkey ` set ns then Some (pre @ concat (map rec_bytes (bump fp ns))) else None)"
  using assms(1)
proof (induction ns arbitrary: pre)
  case Nil
  then show ?case by (simp add: bump_chunk.simps)
next
  case (Cons n ns)
  let ?rest = "concat (map rec_bytes ns)" and ?v = "pre @ concat (map rec_bytes (n # ns))"
  have wf: "wf_node n" "wf_nodes ns" using Cons.prems by (auto simp: wf_nodes_def)
  have k: "length (nkey n) = 6" using wf(1) by (simp add: wf_node_def)
  have len: "length (rec_bytes n) = 14" using wf(1) length_rec_bytes by simp
  have key: "take 14 (drop (length pre) ?v) = rec_bytes n" using len by simp
  have lt: "length pre < length ?v" using len by simp
  have cut: "take FP_SIZE (rec_bytes n) = nkey n" "take 8 (drop 6 (rec_bytes n)) = u64_bytes (ncount n)"
    using k by (simp_all add: rec_bytes_def)
  show ?case
  proof (cases "nkey n = fp")
    case True
    have "bump_chunk ?v fp (length pre) = Inr (Some (take (length pre + FP_SIZE) ?v @ u64_bytes (ncount n + 1) @ drop (length pre + FP_SIZE + 8) ?v))"
      using lt key cut len True assms(2) by (subst bump_chunk.simps) (simp add: Let_def)
    moreover have "take (length pre + FP_SIZE) ?v = pre @ fp" "drop (length pre + FP_SIZE + 8) ?v = ?rest"
      using True k len by (simp_all add: rec_bytes_def)
    moreover have "concat (map rec_bytes (bump fp (n # ns))) = fp @ u64_bytes (ncount n + 1) @ ?rest"
      using True by (simp add: rec_bytes_def)
    moreover have "fp \<in> nkey ` set (n # ns)" using True by auto
    ultimately show ?thesis by (simp only: if_True append_assoc)
  next
    case False
    have v: "?v = (pre @ rec_bytes n) @ ?rest" "length pre + 14 = length (pre @ rec_bytes n)" using len by simp_all
    have "bump_chunk ?v fp (length pre) = bump_chunk ?v fp (length pre + 14)"
      using lt key cut len False assms(2) by (subst bump_chunk.simps) (simp add: Let_def)
    also have "\<dots> = Inr (if fp \<in> nkey ` set ns then Some ((pre @ rec_bytes n) @ concat (map rec_bytes (bump fp ns))) else None)"
      unfolding v using Cons.IH[OF wf(2)] .
    finally show ?thesis using False by auto
  qed
qed

lemma bump_new: "fp \<notin> nkey ` set ns \<Longrightarrow> bump fp ns = ns @ [\<lparr>nkey = fp, ncount = 1\<rparr>]"
  by (induction ns) auto

context leveldb_laws
begin

lemma insertFCDB_file_spec:
  assumes "view db = assoc_spec ps" "\<forall>p \<in> set ps. length (snd p) = FP_SIZE" "length fp = FP_SIZE"
  shows "\<exists>d. insertFCDB_file L m fp db = Inr d \<and> view d = assoc_spec (ps @ [(m, fp)])"
proof -
  let ?ns = "records_of ps m"
  have wf: "wf_nodes ?ns" using records_of_wf[OF assms(2)] by blast
  have new: "length (concat (map rec_bytes (bump fp ?ns))) mod 14 = 0"
    using length_concat_rec_bytes[of "bump fp ?ns"] wf_nodes_bump[OF wf assms(3)] by (simp add: wf_nodes_def)
  have upd: "bindE (if fst (ldb_get L db m []) \<noteq> StOk then Inr (fp @ u64_bytes 1)
      else bindE (bump_chunk (snd (ldb_get L db m [])) fp 0) (\<lambda>r.
        Inr (case r of None \<Rightarrow> snd (ldb_get L db m []) @ fp @ u64_bytes 1 | Some v \<Rightarrow> v))) f =
      f (concat (map rec_bytes (bump fp ?ns)))" for f :: "bytes \<Rightarrow> cpp_error + 'db"
  proof (cases "m \<in> fst ` set ps")
    case False
    then have "?ns = []" by (simp add: records_of_Nil_iff)
    then show ?thesis using False assms(1) by (simp add: get_cases assoc_spec_def rec_bytes_def)
  next
    case True
    then have "view db m = Some (concat (map rec_bytes ?ns))" using assms(1) by (simp add: assoc_spec_def)
    then show ?thesis
      using bump_chunk_at[OF wf assms(3), of "[]"] by (auto simp: get_cases bump_new rec_bytes_def)
  qed
  show ?thesis
    using upd new assms(1) by (simp add: insertFCDB_file_def case_prod_beta view_put assoc_spec_snoc)
qed

end

text \<open>The insertions a run makes: the key of a file is its number, its length and the hash of its type.\<close>

definition line_fp :: "string \<Rightarrow> bytes" where
  "line_fp l = fst (parse_hash l)"

definition file_key :: "(bytes \<Rightarrow> bytes) \<Rightarrow> nat \<Rightarrow> string \<times> string list \<Rightarrow> bytes" where
  "file_key md5 i f = meta_str (word_of_nat i) (word_of_nat (length (snd f))) (take FP_SIZE (md5 (fst f)))"

fun file_pairs :: "(bytes \<Rightarrow> bytes) \<Rightarrow> nat \<Rightarrow> (string \<times> string list) list \<Rightarrow> (bytes \<times> bytes) list" where
  "file_pairs md5 i [] = []"
| "file_pairs md5 i (f # fls) = map (\<lambda>l. (file_key md5 i f, line_fp l)) (snd f) @ file_pairs md5 (Suc i) fls"

lemma length_line_fp: "length (line_fp l) = FP_SIZE"
  by (simp add: line_fp_def)

lemma file_pairs_lengths: "\<forall>p \<in> set (file_pairs md5 i fls). length (snd p) = FP_SIZE"
  by (induction md5 i fls rule: file_pairs.induct) (auto simp: length_line_fp)

lemma file_key_index: "file_key md5 i f = file_key md5' j g \<Longrightarrow> i < 2 ^ 64 \<Longrightarrow> j < 2 ^ 64 \<Longrightarrow> i = j"
proof -
  assume "file_key md5 i f = file_key md5' j g" and ij: "i < 2 ^ 64" "j < 2 ^ 64"
  then have "take 8 (file_key md5 i f) = take 8 (file_key md5' j g)" by simp
  then have "id_bytes i = id_bytes j" by (simp add: file_key_def meta_str_def id_bytes_def)
  then show "i = j" using id_bytes_inject[OF ij] by simp
qed

lemma file_pairs_keys: "p \<in> set (file_pairs md5 i fls) \<Longrightarrow> \<exists>j f. fst p = file_key md5 j f \<and> i \<le> j \<and> j < i + length fls"
proof (induction md5 i fls rule: file_pairs.induct)
  case (2 md5 i f fls)
  show ?case
  proof (cases "p \<in> set (file_pairs md5 (Suc i) fls)")
    case True
    from "2.IH"[OF True] obtain j g where "fst p = file_key md5 j g" "Suc i \<le> j" "j < Suc i + length fls" by blast
    then show ?thesis by (intro exI[of _ j] exI[of _ g]) simp
  next
    case False
    then show ?thesis using "2.prems" by (intro exI[of _ i] exI[of _ f]) auto
  qed
qed simp

lemma count_file_pairs:
  assumes "i \<le> j" "j < i + length fls" "i + length fls \<le> 2 ^ 64"
  shows "count_list (file_pairs md5 i fls) (file_key md5 j (fls ! (j - i)), fp) = count_list (map line_fp (snd (fls ! (j - i)))) fp"
  using assms
proof (induction md5 i fls rule: file_pairs.induct)
  case (2 md5 i f fls)
  have mine: "count_list (map (\<lambda>l. (k, line_fp l)) ls) (k', fp) = (if k = k' then count_list (map line_fp ls) fp else 0)" for k k' ls
    by (induction ls) auto
  show ?case
  proof (cases "j = i")
    case True
    have "(file_key md5 i f, fp) \<notin> set (file_pairs md5 (Suc i) fls)"
    proof
      assume "(file_key md5 i f, fp) \<in> set (file_pairs md5 (Suc i) fls)"
      then obtain j' g where "file_key md5 i f = file_key md5 j' g" "Suc i \<le> j'" "j' < Suc i + length fls"
        using file_pairs_keys[of "(file_key md5 i f, fp)" md5 "Suc i" fls] by auto
      then show False using file_key_index[of md5 i f md5 j' g] "2.prems" by simp
    qed
    then show ?thesis using True by (simp add: mine count_notin)
  next
    case False
    then have j: "Suc i \<le> j" "(f # fls) ! (j - i) = fls ! (j - Suc i)" using "2.prems" by (simp_all add: nth_Cons')
    have "file_key md5 i f \<noteq> file_key md5 j (fls ! (j - Suc i))"
      using file_key_index[of md5 i f md5 j "fls ! (j - Suc i)"] False "2.prems" by auto
    then show ?thesis using "2.IH" "2.prems" j by (simp add: mine)
  qed
qed simp

context leveldb_laws
begin

lemma file_chunks_fold:
  assumes "view (fileDb s) = assoc_spec ps" "\<forall>p \<in> set ps. length (snd p) = FP_SIZE"
  shows "\<exists>d. foldE (file_chunk L m) ls s = Inr (s\<lparr>fileDb := d, fileLogic := fileLogic s + word_of_nat (length ls)\<rparr>) \<and>
    view d = assoc_spec (ps @ map (\<lambda>l. (m, line_fp l)) ls)"
  using assms
proof (induction ls arbitrary: s ps)
  case Nil
  have "s = s\<lparr>fileDb := fileDb s, fileLogic := fileLogic s\<rparr>" by simp
  then show ?case using Nil by (intro exI[of _ "fileDb s"]) simp
next
  case (Cons l ls)
  obtain d where d: "insertFCDB_file L m (line_fp l) (fileDb s) = Inr d" "view d = assoc_spec (ps @ [(m, line_fp l)])"
    using insertFCDB_file_spec[OF Cons.prems length_line_fp] by blast
  let ?s = "s\<lparr>fileDb := d, fileLogic := fileLogic s + 1\<rparr>"
  have "file_chunk L m l s = Inr ?s" using d(1) by (simp add: file_chunk_def line_fp_def)
  moreover obtain d' where "foldE (file_chunk L m) ls ?s = Inr (?s\<lparr>fileDb := d', fileLogic := fileLogic ?s + word_of_nat (length ls)\<rparr>)"
    "view d' = assoc_spec ((ps @ [(m, line_fp l)]) @ map (\<lambda>l. (m, line_fp l)) ls)"
    using Cons.IH[of ?s "ps @ [(m, line_fp l)]"] d(2) Cons.prems(2) length_line_fp by auto
  ultimately show ?case by (intro exI[of _ d']) (simp add: add.assoc)
qed

lemma files_fold:
  assumes "view (fileDb s) = assoc_spec ps" "\<forall>p \<in> set ps. length (snd p) = FP_SIZE" "fileIndex s = word_of_nat i"
  shows "\<exists>s'. foldE (\<lambda>(name, ls) s. let n = word_of_nat (length ls) in
      foldE (file_chunk L (meta_str (fileIndex s) n (take FP_SIZE (md5 name)))) ls (s\<lparr>fileIndex := fileIndex s + 1\<rparr>)) fls s = Inr s' \<and>
    view (fileDb s') = assoc_spec (ps @ file_pairs md5 i fls) \<and>
    fileLogic s' = fileLogic s + word_of_nat (length (concat (map snd fls)))"
  using assms
proof (induction fls arbitrary: s ps i)
  case (Cons f fls)
  obtain name ls where f: "f = (name, ls)" by (cases f)
  let ?m = "file_key md5 i f"
  obtain d where d: "foldE (file_chunk L ?m) ls (s\<lparr>fileIndex := fileIndex s + 1\<rparr>) =
      Inr (s\<lparr>fileIndex := fileIndex s + 1, fileDb := d, fileLogic := fileLogic s + word_of_nat (length ls)\<rparr>)"
    "view d = assoc_spec (ps @ map (\<lambda>l. (?m, line_fp l)) ls)"
    using file_chunks_fold[of "s\<lparr>fileIndex := fileIndex s + 1\<rparr>" ps ?m ls] Cons.prems by auto
  let ?s = "s\<lparr>fileIndex := fileIndex s + 1, fileDb := d, fileLogic := fileLogic s + word_of_nat (length ls)\<rparr>"
  have "\<forall>p \<in> set (ps @ map (\<lambda>l. (?m, line_fp l)) ls). length (snd p) = FP_SIZE" using Cons.prems(2) length_line_fp by auto
  from Cons.IH[of ?s, OF _ this, of "Suc i"] obtain s' where "foldE (\<lambda>(name, ls) s. let n = word_of_nat (length ls) in
      foldE (file_chunk L (meta_str (fileIndex s) n (take FP_SIZE (md5 name)))) ls (s\<lparr>fileIndex := fileIndex s + 1\<rparr>)) fls ?s = Inr s'"
    "view (fileDb s') = assoc_spec ((ps @ map (\<lambda>l. (?m, line_fp l)) ls) @ file_pairs md5 (Suc i) fls)"
    "fileLogic s' = fileLogic ?s + word_of_nat (length (concat (map snd fls)))"
    using d(2) Cons.prems(3) by (auto simp: add.commute)
  then show ?case
    using d(1) Cons.prems(3) by (intro exI[of _ s']) (simp add: f Let_def file_key_def add.assoc)
qed simp

end

lemma file_pairs_has: "i \<le> j \<Longrightarrow> j < i + length fls \<Longrightarrow> l \<in> set (snd (fls ! (j - i))) \<Longrightarrow>
  (file_key md5 j (fls ! (j - i)), line_fp l) \<in> set (file_pairs md5 i fls)"
proof (induction md5 i fls rule: file_pairs.induct)
  case (2 md5 i f fls)
  show ?case
  proof (cases "j = i")
    case True
    then show ?thesis using "2.prems" by auto
  next
    case False
    then have "Suc i \<le> j" "(f # fls) ! (j - i) = fls ! (j - Suc i)" using "2.prems" by (simp_all add: nth_Cons')
    then show ?thesis using "2.IH" "2.prems" by simp
  qed
qed simp

lemma readInChunks_file_fold:
  assumes "plain_files fls" "text_line title"
  shows "readInChunks_file L md5 (trace_of title fls) (list_of fls) s =
    foldE (\<lambda>(name, ls) s. let n = word_of_nat (length ls) in
      foldE (file_chunk L (meta_str (fileIndex s) n (take FP_SIZE (md5 name)))) ls (s\<lparr>fileIndex := fileIndex s + 1\<rparr>)) fls s"
  unfolding readInChunks_file_def
  by (rule files_run[OF assms, where g = "\<lambda>name n s. file_chunk L (meta_str (fileIndex s) n (take FP_SIZE (md5 name)))"
        and h = "\<lambda>name n s. s\<lparr>fileIndex := fileIndex s + 1\<rparr>"]) (simp add: one_file_def)

section \<open>Properties of the file store\<close>

text \<open>C38. The file store of a trace. The program reads the list of files and the lines of each file from the
  trace; the value of a file (its key is its number, its length and the hash of its type) is a list of records
  with a different fingerprint each, whose count is the number of lines with that fingerprint.\<close>

theorem readChunksFile_tables:
  assumes "leveldb_laws L view" "plain_files fls" "text_line title" "length fls \<le> 2 ^ 64"
    "view (fileDb s) = Map.empty" "fileIndex s = 0"
  shows "\<exists>s'. readInChunks_file L md5 (trace_of title fls) (list_of fls) s = Inr s' \<and>
    fileLogic s' = fileLogic s + word_of_nat (length (concat (map snd fls))) \<and>
    (\<forall>i < length fls. snd (fls ! i) \<noteq> [] \<longrightarrow> (\<exists>ns. view (fileDb s') (file_key md5 i (fls ! i)) = Some (concat (map rec_bytes ns)) \<and>
       distinct (map nkey ns) \<and> (\<forall>fp. nodes_count ns fp = word_of_nat (count_list (map line_fp (snd (fls ! i))) fp))))"
proof -
  let ?ps = "file_pairs md5 0 fls"
  have "view (fileDb s) = assoc_spec []" using assms(5) by (simp add: assoc_spec_def fun_eq_iff)
  from leveldb_laws.files_fold[OF assms(1) this, of 0 md5 fls] obtain s' where
    s': "readInChunks_file L md5 (trace_of title fls) (list_of fls) s = Inr s'" "view (fileDb s') = assoc_spec ?ps"
      "fileLogic s' = fileLogic s + word_of_nat (length (concat (map snd fls)))"
    unfolding readInChunks_file_fold[OF assms(2,3)] using assms(6) by auto
  moreover have "\<exists>ns. view (fileDb s') (file_key md5 i (fls ! i)) = Some (concat (map rec_bytes ns)) \<and>
       distinct (map nkey ns) \<and> (\<forall>fp. nodes_count ns fp = word_of_nat (count_list (map line_fp (snd (fls ! i))) fp))"
    if i: "i < length fls" "snd (fls ! i) \<noteq> []" for i
  proof (intro exI[of _ "records_of ?ps (file_key md5 i (fls ! i))"] conjI allI)
    obtain l where "l \<in> set (snd (fls ! i))" using i(2) by (cases "snd (fls ! i)") auto
    then have "file_key md5 i (fls ! i) \<in> fst ` set ?ps"
      using file_pairs_has[of 0 i fls l md5] i(1) by (force simp: image_iff)
    then show "view (fileDb s') (file_key md5 i (fls ! i)) = Some (concat (map rec_bytes (records_of ?ps (file_key md5 i (fls ! i)))))"
      using s'(2) by (simp add: assoc_spec_def)
    show "distinct (map nkey (records_of ?ps (file_key md5 i (fls ! i))))" using records_of_wf[OF file_pairs_lengths] by blast
    show "nodes_count (records_of ?ps (file_key md5 i (fls ! i))) fp = word_of_nat (count_list (map line_fp (snd (fls ! i))) fp)" for fp
      using count_file_pairs[of 0 i fls md5 fp] i(1) assms(4) by (simp add: nodes_count_records_of)
  qed
  ultimately show ?thesis by blast
qed

definition demo_files :: "mem_db files" where
  "demo_files = \<lparr>fileDb = [], fileLogic = 0, fileIndex = 0\<rparr>"

definition demo_line :: string where
  "demo_line = ''61:62:63:64:65:66'' @ [TAB] @ ''4096'' @ [LF]"

lemma demo_line_plain: "text_line demo_line" "plain_files [(''pdf'', [demo_line, demo_line])]" "line_fp demo_line = ''abcdef''"
proof -
  show l: "text_line demo_line" by (simp add: text_line_def demo_line_def)
  show "plain_files [(''pdf'', [demo_line, demo_line])]" using l by (simp add: plain_files_def plain_name_def)
  show "line_fp demo_line = ''abcdef''" unfolding line_fp_def demo_line_def by code_simp
qed

theorem readChunksFile_tables_witness:
  "\<exists>s' ns. readInChunks_file (mem_leveldb (\<lambda>_. [])) (\<lambda>_. replicate 16 (CHR ''z'')) (trace_of [LF] [(''pdf'', [demo_line, demo_line])])
      (list_of [(''pdf'', [demo_line, demo_line])]) demo_files = Inr s' \<and> fileLogic s' = 2 \<and>
    map_of (fileDb s') (meta_str 0 2 ''zzzzzz'') = Some (concat (map rec_bytes ns)) \<and> nodes_count ns ''abcdef'' = 2"
proof -
  have "replicate 6 (CHR ''z'') = ''zzzzzz''" by code_simp
  moreover have "text_line [LF]" by (simp add: text_line_def)
  ultimately show ?thesis
    using readChunksFile_tables[OF mem.leveldb_laws_axioms[of "\<lambda>_. []"] demo_line_plain(2), of "[LF]" demo_files "\<lambda>_. replicate 16 (CHR ''z'')"]
    by (auto simp: demo_files_def file_key_def demo_line_plain(3)) (rule exI, rule conjI, rule refl, simp)
qed

section \<open>Properties of the typed stores\<close>

text \<open>The insertions of a run: the fingerprint with the hash of the type is the key of the count store, the size in
  blocks of sixteen bytes the key of the bucket.\<close>

definition typed_entry :: "(bytes \<Rightarrow> bytes) \<Rightarrow> string \<Rightarrow> chunk \<Rightarrow> bytes \<times> string \<times> bytes" where
  "typed_entry md5 name c = (ckey c @ take FP_SIZE (md5 name), to_string (bucket_size (csize c)), ckey c)"

definition typed_entries :: "(bytes \<Rightarrow> bytes) \<Rightarrow> (string \<times> string list) list \<Rightarrow> (bytes \<times> string \<times> bytes) list" where
  "typed_entries md5 fls = concat (map (\<lambda>(name, ls). map (\<lambda>l. typed_entry md5 name (projr (chunk_of_line l))) ls) fls)"

definition type_total :: "(string \<times> string list) list \<Rightarrow> string \<Rightarrow> nat" where
  "type_total fls name = (\<Sum>(n, ls) \<leftarrow> fls. if n = name then length ls else 0)"

definition type_table :: "(string \<times> string list) list \<Rightarrow> string \<rightharpoonup> bytes" where
  "type_table fls name = (if name \<in> fst ` set fls then Some (dec_nat (type_total fls name)) else None)"

definition types_follow :: "('db \<Rightarrow> bytes \<rightharpoonup> bytes) \<Rightarrow> (bytes \<Rightarrow> bytes) \<Rightarrow> (string \<times> string list) list \<Rightarrow> 'db ftypes \<Rightarrow> bool" where
  "types_follow view md5 fls s \<longleftrightarrow> bucket_follows view (typed_entries md5 fls) (tFCdb s, tSFdb s) \<and>
     view (Tdb s) = type_table fls \<and>
     view (TPdb s) = (\<lambda>name. if name \<in> fst ` set fls then Some (take FP_SIZE (md5 name)) else None) \<and>
     tLogic s = word_of_nat (length (concat (map snd fls)))"

definition types_fit :: "(string \<times> string list) list \<Rightarrow> bool" where
  "types_fit fls \<longleftrightarrow> length (concat (map snd fls)) < 2 ^ 31 \<and> (\<forall>f \<in> set fls. \<forall>l \<in> set (snd f). \<not> isl (chunk_of_line l))"

lemma type_total_snoc: "type_total (fls @ [f]) name = type_total fls name + (if fst f = name then length (snd f) else 0)"
  by (simp add: type_total_def case_prod_unfold)

lemma type_total_le: "type_total fls name \<le> length (concat (map snd fls))"
  by (induction fls) (auto simp: type_total_def)

lemma type_total_absent: "name \<notin> fst ` set fls \<Longrightarrow> type_total fls name = 0"
  by (induction fls) (auto simp: type_total_def)

lemma type_table_snoc: "type_table (fls @ [f]) = (type_table fls)(fst f \<mapsto> dec_nat (type_total fls (fst f) + length (snd f)))"
  by (auto simp: type_table_def type_total_snoc fun_eq_iff)

lemma to_string_of_nat: "n < 2 ^ 64 \<Longrightarrow> to_string (word_of_nat n) = dec_nat n"
  by (simp add: to_string_def unsigned_of_nat take_bit_nat_eq_self)

lemma chunk_of_line_key: "\<not> isl (chunk_of_line l) \<Longrightarrow> length (ckey (projr (chunk_of_line l))) = FP_SIZE"
  using mapE_chunk_keys[of "[l]"] by (cases "chunk_of_line l") auto

context leveldb_laws
begin

lemma insertTypeDB_table:
  assumes "view db = type_table fls" "length (concat (map snd (fls @ [f]))) < 2 ^ 31"
  shows "view (insertTypeDB L (fst f) (word_of_nat (length (snd f))) db) = type_table (fls @ [f])"
proof (cases "fst f \<in> fst ` set fls")
  case True
  let ?n = "type_total fls (fst f)" and ?k = "length (snd f)"
  have n: "?n < 2 ^ 31" "?n + ?k < 2 ^ 31" using assms(2) type_total_le[of fls "fst f"] by simp_all
  have "atoi (dec_nat ?n) = int ?n" using atoi_dec_nat[of ?n "[]"] n by simp
  then have "to_string (word_of_int (atoi (dec_nat ?n)) + word_of_nat ?k) = dec_nat (?n + ?k)"
    using to_string_of_nat[of "?n + ?k"] n by simp
  then show ?thesis
    using True by (simp add: insertTypeDB_def get_cases assms(1) view_put type_table_snoc) (simp add: type_table_def view_put assms(1) type_table_snoc)
next
  case False
  then show ?thesis
    using to_string_of_nat[of "length (snd f)"] assms(2)
    by (simp add: insertTypeDB_def get_cases assms(1) type_table_snoc type_total_absent)
      (simp add: type_table_def view_put assms(1) type_table_snoc type_total_absent)
qed

lemma typed_chunks_follow:
  assumes "bucket_follows view es (tFCdb s, tSFdb s)" "\<forall>l \<in> set ls. \<not> isl (chunk_of_line l)"
    "bucket_fits (es @ map (\<lambda>l. typed_entry md5 name (projr (chunk_of_line l))) ls)"
  shows "\<exists>fc sf. foldE (typed_chunk L (take FP_SIZE (md5 name))) ls s =
      Inr (s\<lparr>tFCdb := fc, tSFdb := sf, tLogic := tLogic s + word_of_nat (length ls)\<rparr>) \<and>
    bucket_follows view (es @ map (\<lambda>l. typed_entry md5 name (projr (chunk_of_line l))) ls) (fc, sf)"
  using assms
proof (induction ls arbitrary: s es)
  case Nil
  have "s = s\<lparr>tFCdb := tFCdb s, tSFdb := tSFdb s, tLogic := tLogic s\<rparr>" by simp
  then show ?case using Nil.prems(1) by (intro exI[of _ "tFCdb s"] exI[of _ "tSFdb s"]) simp
next
  case (Cons l ls)
  obtain c where c: "chunk_of_line l = Inr c" using Cons.prems(2) by (cases "chunk_of_line l") auto
  let ?x = "typed_entry md5 name c"
  have "bucket_fits (es @ [?x])" using Cons.prems(3) c by (auto simp: bucket_fits_def)
  from bucket_insert_follows[OF Cons.prems(1) this] obtain fc sf b where
    i: "bucket_insert L ?x (tFCdb s, tSFdb s) = Inr (b, fc, sf)" "bucket_follows view (es @ [?x]) (fc, sf)" by auto
  let ?s = "s\<lparr>tFCdb := fc, tSFdb := sf, tLogic := tLogic s + 1\<rparr>"
  have "typed_chunk L (take FP_SIZE (md5 name)) l s = Inr ?s"
    using i(1) c by (simp add: typed_chunk_def typed_entry_def)
  moreover obtain fc' sf' where "foldE (typed_chunk L (take FP_SIZE (md5 name))) ls ?s =
      Inr (?s\<lparr>tFCdb := fc', tSFdb := sf', tLogic := tLogic ?s + word_of_nat (length ls)\<rparr>)"
    "bucket_follows view ((es @ [?x]) @ map (\<lambda>l. typed_entry md5 name (projr (chunk_of_line l))) ls) (fc', sf')"
    using Cons.IH[of "es @ [?x]" ?s] i(2) Cons.prems c by auto
  ultimately show ?case using c by (intro exI[of _ fc'] exI[of _ sf']) (simp add: add.assoc)
qed

end

definition typed_file :: "'db leveldb \<Rightarrow> (bytes \<Rightarrow> bytes) \<Rightarrow> string \<times> string list \<Rightarrow> 'db ftypes \<Rightarrow> cpp_error + 'db ftypes" where
  "typed_file L md5 = (\<lambda>(name, ls) s. let n = word_of_nat (length ls) in
     foldE (typed_chunk L (take FP_SIZE (md5 name))) ls
       (s\<lparr>Tdb := insertTypeDB L name n (Tdb s), TPdb := insertTypeDB_Pair L name (take FP_SIZE (md5 name)) (TPdb s)\<rparr>))"

lemma readInChunks_type_fold:
  assumes "plain_files fls" "text_line title"
  shows "readInChunks_type L md5 (trace_of title fls) (list_of fls) s = foldE (typed_file L md5) fls s"
  unfolding readInChunks_type_def typed_file_def
  by (rule files_run[OF assms, where g = "\<lambda>name n s. typed_chunk L (take FP_SIZE (md5 name))"
        and h = "\<lambda>name n s. s\<lparr>Tdb := insertTypeDB L name n (Tdb s), TPdb := insertTypeDB_Pair L name (take FP_SIZE (md5 name)) (TPdb s)\<rparr>"])
    (simp add: one_type_def Let_def)

lemma typed_entries_snoc:
  "typed_entries md5 (fls @ [(name, ls)]) = typed_entries md5 fls @ map (\<lambda>l. typed_entry md5 name (projr (chunk_of_line l))) ls"
  by (simp add: typed_entries_def)

lemma typed_entries_fit: "types_fit fls \<Longrightarrow> bucket_fits (typed_entries md5 fls)"
proof -
  assume f: "types_fit fls"
  have "length (typed_entries md5 fls) = length (concat (map snd fls))"
    by (simp add: typed_entries_def length_concat case_prod_unfold comp_def)
  then show ?thesis
    using f chunk_of_line_key by (fastforce simp: bucket_fits_def types_fit_def typed_entries_def typed_entry_def)
qed

context leveldb_laws
begin

lemma typed_file_follows:
  assumes "types_follow view md5 fls s" "types_fit (fls @ [f])"
  shows "\<exists>s'. typed_file L md5 f s = Inr s' \<and> types_follow view md5 (fls @ [f]) s'"
proof -
  obtain name ls where f: "f = (name, ls)" by (cases f)
  let ?th = "take FP_SIZE (md5 name)"
  let ?s = "s\<lparr>Tdb := insertTypeDB L name (word_of_nat (length ls)) (Tdb s), TPdb := insertTypeDB_Pair L name ?th (TPdb s)\<rparr>"
  have v: "bucket_follows view (typed_entries md5 fls) (tFCdb s, tSFdb s)" "view (Tdb s) = type_table fls"
    "view (TPdb s) = (\<lambda>name. if name \<in> fst ` set fls then Some (take FP_SIZE (md5 name)) else None)"
    "tLogic s = word_of_nat (length (concat (map snd fls)))"
    using assms(1) by (auto simp: types_follow_def)
  have fit: "bucket_fits (typed_entries md5 fls @ map (\<lambda>l. typed_entry md5 name (projr (chunk_of_line l))) ls)"
    using typed_entries_fit[OF assms(2), of md5] by (simp add: f typed_entries_snoc)
  have "\<forall>l \<in> set ls. \<not> isl (chunk_of_line l)" using assms(2) by (simp add: types_fit_def f)
  from typed_chunks_follow[of "typed_entries md5 fls" ?s, OF _ this fit] obtain fc sf where
    r: "foldE (typed_chunk L ?th) ls ?s = Inr (?s\<lparr>tFCdb := fc, tSFdb := sf, tLogic := tLogic s + word_of_nat (length ls)\<rparr>)"
      "bucket_follows view (typed_entries md5 (fls @ [f])) (fc, sf)"
    using v(1) by (auto simp: f typed_entries_snoc)
  have "view (Tdb ?s) = type_table (fls @ [f])"
    using insertTypeDB_table[OF v(2), of f] assms(2) by (simp add: f types_fit_def)
  moreover have "view (TPdb ?s) = (\<lambda>name. if name \<in> fst ` set (fls @ [f]) then Some (take FP_SIZE (md5 name)) else None)"
    using v(3) by (auto simp: f insertTypeDB_Pair_def get_cases view_put fun_eq_iff)
  ultimately show ?thesis
    using r v(4) by (auto simp: typed_file_def f types_follow_def Let_def)
qed

end

sublocale leveldb_laws \<subseteq> typed: sequence_store "typed_file L md5" types_fit "types_follow view md5" for md5
  by unfold_locales (auto simp: types_fit_def intro!: typed_file_follows)

context leveldb_laws
begin

lemma readInChunks_type_follows:
  assumes "plain_files fls" "text_line title" "types_fit fls" "types_follow view md5 [] s"
  shows "\<exists>s'. readInChunks_type L md5 (trace_of title fls) (list_of fls) s = Inr s' \<and> types_follow view md5 fls s'"
  using typed.absorb_all[OF assms(4), of fls] assms(3) unfolding readInChunks_type_fold[OF assms(1,2)] by simp

end

text \<open>C39. The typed stores of a trace whose lines have a size each: the counts are those of the fingerprints with
  the hash of their type, so a fingerprint is counted for each type alone; the buckets hold the fingerprints at their
  first occurrence in a type, by their size in blocks; every type has its hash and the number of its chunks over all
  of its files.\<close>

theorem readInChunks_type_tables:
  assumes "leveldb_laws L view" "plain_files fls" "text_line title" "types_fit fls"
    "view (tFCdb s) = Map.empty" "view (tSFdb s) = Map.empty" "view (Tdb s) = Map.empty" "view (TPdb s) = Map.empty" "tLogic s = 0"
  shows "\<exists>s'. readInChunks_type L md5 (trace_of title fls) (list_of fls) s = Inr s' \<and>
    (let es = typed_entries md5 fls in
      view (tFCdb s') = (\<lambda>k. if k \<in> fst ` set es then Some (dec_nat (count_list (map fst es) k)) else None) \<and>
      view (tSFdb s') = (\<lambda>z. let fps = map (\<lambda>(k, z, fp). fp) (filter (\<lambda>(k, z', fp). z' = z) (first_occ {} es))
        in if fps = [] then None else Some (concat fps))) \<and>
    (\<forall>name. view (Tdb s') name = (if name \<in> fst ` set fls then Some (dec_nat (\<Sum>(n, ls) \<leftarrow> fls. if n = name then length ls else 0)) else None)) \<and>
    (\<forall>name. view (TPdb s') name = (if name \<in> fst ` set fls then Some (take FP_SIZE (md5 name)) else None)) \<and>
    tLogic s' = word_of_nat (length (concat (map snd fls)))"
proof -
  have "types_follow view md5 [] s"
    using assms(5-9) by (auto simp: types_follow_def bucket_follows_def fc_table_def sf_table_def typed_entries_def type_table_def fun_eq_iff)
  from leveldb_laws.readInChunks_type_follows[OF assms(1-4) this] show ?thesis
    by (auto simp: types_follow_def bucket_follows_def fc_table_def sf_table_def type_table_def type_total_def fun_eq_iff Let_def)
qed

definition demo_ftypes :: "mem_db ftypes" where
  "demo_ftypes = \<lparr>tFCdb = [], tSFdb = [], Tdb = [], TPdb = [], tLogic = 0\<rparr>"

lemma demo_line_chunk: "chunk_of_line demo_line = Inr \<lparr>ckey = ''abcdef'', csize = 4096\<rparr>"
  unfolding demo_line_def by code_simp

theorem readInChunks_type_tables_witness:
  "\<exists>s'. readInChunks_type (mem_leveldb (\<lambda>_. [])) (\<lambda>_. replicate 16 (CHR ''z'')) (trace_of [LF] [(''pdf'', [demo_line, demo_line])])
      (list_of [(''pdf'', [demo_line, demo_line])]) demo_ftypes = Inr s' \<and> map_of (tFCdb s') ''abcdefzzzzzz'' = Some ''2'' \<and>
    map_of (TPdb s') ''pdf'' = Some ''zzzzzz'' \<and> map_of (Tdb s') ''pdf'' = Some ''2''"
proof -
  have z: "replicate 6 (CHR ''z'') = ''zzzzzz''" by code_simp
  have "dec_nat 2 = ''2''" by code_simp
  moreover have "typed_entries (\<lambda>_. replicate 16 (CHR ''z'')) [(''pdf'', [demo_line, demo_line])] =
      replicate 2 (''abcdefzzzzzz'', to_string (bucket_size 4096), ''abcdef'')"
    by (simp add: typed_entries_def typed_entry_def demo_line_chunk z numeral_2_eq_2)
  moreover have "text_line [LF]" by (simp add: text_line_def)
  moreover have "types_fit [(''pdf'', [demo_line, demo_line])]" by (simp add: types_fit_def demo_line_chunk)
  ultimately show ?thesis
    using readInChunks_type_tables[OF mem.leveldb_laws_axioms[of "\<lambda>_. []"] demo_line_plain(2), of "[LF]" demo_ftypes "\<lambda>_. replicate 16 (CHR ''z'')"]
    by (auto simp: demo_ftypes_def z numeral_2_eq_2 Let_def)
qed

section \<open>Properties of the comparison\<close>

text \<open>A file as the comparison sees it: its number, its length, the hash of its type and its records.\<close>

record file_info =
  fiIndex :: u64
  fiCount :: u64
  fiType :: bytes
  fiNodes :: "node list"

definition file_entry :: "file_info \<Rightarrow> bytes \<times> bytes" where
  "file_entry f = (meta_str (fiIndex f) (fiCount f) (fiType f), concat (map rec_bytes (fiNodes f)))"

definition wf_file :: "file_info \<Rightarrow> bool" where
  "wf_file f \<longleftrightarrow> length (fiType f) = FP_SIZE \<and> wf_nodes (fiNodes f) \<and> 14 * length (fiNodes f) < 2 ^ 64"

definition found :: "(bytes \<rightharpoonup> bytes) \<Rightarrow> node list \<Rightarrow> node list" where
  "found ans ns = filter (\<lambda>n. nkey n \<in> dom ans) ns"

definition logic_over :: "(bytes \<rightharpoonup> bytes) \<Rightarrow> file_info \<Rightarrow> bool" where
  "logic_over ans f \<longleftrightarrow> (\<Sum>n \<leftarrow> found ans (fiNodes f). ncount n) * 10 \<ge> fiCount f"

definition unique_over :: "(bytes \<rightharpoonup> bytes) \<Rightarrow> file_info \<Rightarrow> bool" where
  "unique_over ans f \<longleftrightarrow> (word_of_nat (length (found ans (fiNodes f))) * 10 :: u64) \<ge> word_of_nat (length (fiNodes f))"

text \<open>The totals over the files \<open>F\<close>, added to those of \<open>t\<close>.\<close>

definition compare_totals :: "(bytes \<rightharpoonup> bytes) \<Rightarrow> file_info list \<Rightarrow> comparison \<Rightarrow> comparison" where
  "compare_totals ans F t = \<lparr>
     correctLogic = correctLogic t + (\<Sum>f \<leftarrow> F. \<Sum>n \<leftarrow> found ans (fiNodes f). ncount n),
     totalLogic = totalLogic t + (\<Sum>f \<leftarrow> F. fiCount f),
     correctUnique = correctUnique t + word_of_nat (\<Sum>f \<leftarrow> F. length (found ans (fiNodes f))),
     totalUnique = totalUnique t + word_of_nat (\<Sum>f \<leftarrow> F. length (fiNodes f)),
     uniqueOver10 = uniqueOver10 t + word_of_nat (length (filter (unique_over ans) F)),
     logicOver10 = logicOver10 t + word_of_nat (length (filter (logic_over ans) F)),
     allOver10 = allOver10 t + word_of_nat (length (filter (\<lambda>f. logic_over ans f \<and> unique_over ans f) F)),
     totalFile = totalFile t + word_of_nat (length F)\<rparr>"

lemma compare_totals_Nil: "compare_totals ans [] t = t"
  by (simp add: compare_totals_def)

lemma compare_totals_append: "compare_totals ans (F @ G) t = compare_totals ans G (compare_totals ans F t)"
  by (simp add: compare_totals_def algebra_simps)

lemma sum_list_mset_eq:
  fixes h :: "'a \<Rightarrow> 'b :: comm_monoid_add"
  shows "mset F = mset G \<Longrightarrow> sum_list (map h F) = sum_list (map h G)"
  by (metis mset_map sum_mset_sum_list)

lemma compare_totals_mset:
  assumes "mset F = mset G"
  shows "compare_totals ans F t = compare_totals ans G t"
proof -
  have "length (filter P F) = length (filter P G)" for P using assms by (metis mset_filter size_mset)
  moreover have "length F = length G" using assms by (metis size_mset)
  ultimately show ?thesis by (simp only: compare_totals_def sum_list_mset_eq[OF assms])
qed

lemma list_in_image: "set ys \<subseteq> f ` A \<Longrightarrow> \<exists>xs. ys = map f xs \<and> set xs \<subseteq> A"
proof (induction ys)
  case (Cons y ys)
  then obtain x xs where "y = f x" "x \<in> A" "ys = map f xs" "set xs \<subseteq> A" by auto
  then show ?case by (intro exI[of _ "x # xs"]) simp
qed simp

lemma substr_meta:
  assumes "length th = FP_SIZE"
  shows "substr_u64 (meta_str i n th) 0 = Inr i" "substr_u64 (meta_str i n th) 8 = Inr n" "substr (meta_str i n th) 16 6 = Inr th"
  using assms by (simp_all add: substr_u64_def substr_def meta_str_def)

lemma length_record_bytes: "wf_nodes ns \<Longrightarrow> length (concat (map rec_bytes ns)) = 14 * length ns"
  using length_concat_blocks[of "map rec_bytes ns" 14] length_rec_bytes by (auto simp: wf_nodes_def)

lemma substr_record:
  assumes "wf_nodes ns" "i < length ns"
  shows "substr (concat (map rec_bytes ns)) (14 * i) 6 = Inr (nkey (ns ! i))"
    "substr_u64 (concat (map rec_bytes ns)) (14 * i + 6) = Inr (ncount (ns ! i))"
proof -
  let ?v = "concat (map rec_bytes ns)" and ?n = "ns ! i"
  have b: "\<forall>b \<in> set (map rec_bytes ns). length b = 14" using assms(1) length_rec_bytes by (auto simp: wf_nodes_def)
  have at: "take 14 (drop (14 * i) ?v) = rec_bytes ?n" using drop_concat_blocks[OF b] assms(2) by simp
  have k: "length (nkey ?n) = 6" using assms by (auto simp: wf_nodes_def wf_node_def)
  have len: "14 * i + 6 \<le> length ?v" using assms by (simp add: length_record_bytes)
  have "take 6 (drop (14 * i) ?v) = take 6 (rec_bytes ?n)" unfolding at[symmetric] by simp
  moreover have "take 8 (drop (14 * i + 6) ?v) = drop 6 (rec_bytes ?n)"
    unfolding at[symmetric] by (simp add: drop_take add.commute)
  ultimately show "substr ?v (14 * i) 6 = Inr (nkey ?n)" "substr_u64 ?v (14 * i + 6) = Inr (ncount ?n)"
    using len k by (simp_all add: substr_def substr_u64_def rec_bytes_def)
qed

context leveldb_laws
begin

lemma compare_chunks:
  assumes "wf_nodes ns"
  shows "for_step 14 (length (concat (map rec_bytes ns))) (compare_chunk L ans (concat (map rec_bytes ns))) 0 (0, 0) =
    Inr (word_of_nat (length (found (view ans) ns)), \<Sum>n \<leftarrow> found (view ans) ns. ncount n)"
proof -
  let ?v = "concat (map rec_bytes ns)"
  let ?f = "\<lambda>n (u :: u64, l :: u64). if nkey n \<in> dom (view ans) then (u + 1, l + ncount n) else (u, l)"
  have step: "compare_chunk L ans ?v (14 * i) s = Inr (?f (ns ! i) s)" if "i < length ns" for i s
    using substr_record[OF assms that] by (cases s) (auto simp: compare_chunk_def get_cases split: option.split)
  have "for_step 14 (length ?v) (compare_chunk L ans ?v) (14 * 0) (0, 0) = foldE (\<lambda>i. compare_chunk L ans ?v (14 * i)) [0..<length ns] (0, 0)"
    using assms by (intro for_step_shift) (simp_all add: length_record_bytes)
  also have "\<dots> = foldE (\<lambda>i s. Inr (?f (ns ! i) s)) [0..<length ns] (0, 0)"
    by (rule foldE_cong_set) (simp add: step)
  also have "\<dots> = foldE (\<lambda>n s. Inr (?f n s)) ns (0, 0)" by (rule foldE_upt_nth)
  also have "\<dots> = Inr (fold ?f ns (0, 0))" by (rule foldE_Inr_eq_fold) simp
  also have "fold ?f ns (0, 0) = (word_of_nat (length (found (view ans) ns)), \<Sum>n \<leftarrow> found (view ans) ns. ncount n)"
  proof -
    have "fold ?f ns (a, b) = (a + word_of_nat (length (found (view ans) ns)), b + (\<Sum>n \<leftarrow> found (view ans) ns. ncount n))" for a b
      by (induction ns arbitrary: a b) (auto simp: found_def algebra_simps)
    then show ?thesis by simp
  qed
  finally show ?thesis by simp
qed

lemma compare_file_totals:
  assumes "wf_file f" "length th = FP_SIZE"
  shows "compare_file L ans th (file_entry f) t = Inr (compare_totals (view ans) (if fiType f = th then [f] else []) t)"
proof -
  have wf: "length (fiType f) = FP_SIZE" "wf_nodes (fiNodes f)" "14 * length (fiNodes f) < 2 ^ 64"
    using assms(1) by (auto simp: wf_file_def)
  have "(word_of_nat (14 * length (fiNodes f)) div 14 :: u64) = word_of_nat (length (fiNodes f))"
  proof (rule word_unat_eq_iff[THEN iffD2])
    have "unat (word_of_nat (14 * length (fiNodes f)) :: u64) = 14 * length (fiNodes f)"
      using wf(3) by (simp add: unsigned_of_nat take_bit_nat_eq_self del: of_nat_mult)
    then show "unat (word_of_nat (14 * length (fiNodes f)) div 14 :: u64) = unat (word_of_nat (length (fiNodes f)) :: u64)"
      using wf(3) by (simp add: unat_div_distrib unsigned_of_nat take_bit_nat_eq_self del: of_nat_mult)
  qed
  then show ?thesis
    using substr_meta[OF wf(1)] compare_chunks[OF wf(2), of ans] wf(1)
    by (auto simp: compare_file_def file_entry_def read_bytes_inside length_record_bytes[OF wf(2)]
        compare_totals_def logic_over_def unique_over_def overHold_def Let_def)
qed

lemma compare_files_totals:
  assumes "\<forall>f \<in> set F. wf_file f" "length th = FP_SIZE"
  shows "foldE (compare_file L ans th) (map file_entry F) t = Inr (compare_totals (view ans) (filter (\<lambda>f. fiType f = th) F) t)"
  using assms(1)
proof (induction F arbitrary: t)
  case Nil
  then show ?case by (simp add: compare_totals_Nil)
next
  case (Cons f F)
  let ?G = "filter (\<lambda>f. fiType f = th) F"
  have "compare_file L ans th (file_entry f) t = Inr (compare_totals (view ans) (if fiType f = th then [f] else []) t)"
    using compare_file_totals[of f th ans t] Cons.prems assms(2) by simp
  moreover have "compare_totals (view ans) ?G (compare_totals (view ans) [f] t) = compare_totals (view ans) ([f] @ ?G) t"
    by (rule compare_totals_append[symmetric])
  ultimately show ?case using Cons by (cases "fiType f = th") (simp_all add: compare_totals_Nil)
qed

text \<open>The iterator gives the entries of the files in some order.\<close>

lemma iter_files:
  assumes "view fc = map_of (map file_entry F)" "distinct (map (fst \<circ> file_entry) F)"
  shows "\<exists>G. fst (ldb_iter L fc) = map file_entry G \<and> mset G = mset F"
proof -
  let ?es = "fst (ldb_iter L fc)"
  have d: "distinct (map fst (map file_entry F))" using assms(2) by simp
  have inj: "inj_on file_entry (set F)" using assms(2) by (auto simp: distinct_map inj_on_def)
  have es: "set ?es = file_entry ` set F"
    using iter_mem[of _ _ fc] assms(1) d by (auto simp: map_of_eq_Some_iff)
  then obtain G where G: "?es = map file_entry G" "set G \<subseteq> set F" using list_in_image[of ?es file_entry "set F"] by auto
  have "file_entry ` set G = file_entry ` set F" using es G(1) by simp
  then have "set G = set F" using inj_on_image_eq_iff[OF inj G(2)] by simp
  moreover have "distinct G" using iter_distinct[of fc] G(1) by (auto simp: distinct_map)
  moreover have "distinct F" using assms(2) by (simp add: distinct_map)
  ultimately show ?thesis using G(1) by (metis set_eq_iff_mset_eq_distinct)
qed

end

lemma type_hash_name: "plain_name name \<Longrightarrow> type_hash md5 name = Inr (take FP_SIZE (md5 name))"
proof -
  assume n: "plain_name name"
  then obtain c cs where c: "name = c # cs" by (cases name) (auto simp: plain_name_def)
  have "takeWhile (\<lambda>c. c \<notin> set [CHR '':'', TAB, LF]) name = name"
    using n by (auto simp: plain_name_def takeWhile_eq_all_conv)
  moreover have "dropWhile (\<lambda>c. c \<in> set [CHR '':'', TAB, LF]) name = name"
    using n c by (auto simp: plain_name_def)
  ultimately show ?thesis by (simp add: type_hash_def strtok_def c)
qed

text \<open>C40. What the comparison prints for a type: over the files of that type, in whatever order the store gives
  them, the numbers of files, of chunks and of different chunks, those of them whose fingerprint is among the
  answers, and the numbers of files of which a tenth is found (of the chunks, of the different chunks, of both).\<close>

theorem compareDB_totals:
  assumes "leveldb_laws L view" "view fc = map_of (map file_entry F)" "distinct (map (fst \<circ> file_entry) F)" "\<forall>f \<in> set F. wf_file f"
    "plain_name name" "\<forall>x. length (md5 x) = 16"
  shows "compareDB L md5 fc ans name compare_start =
    (let G = filter (\<lambda>f. fiType f = take FP_SIZE (md5 name)) F; hits = \<lambda>f. found (view ans) (fiNodes f) in
     Inr \<lparr>correctLogic = (\<Sum>f \<leftarrow> G. \<Sum>n \<leftarrow> hits f. ncount n), totalLogic = (\<Sum>f \<leftarrow> G. fiCount f),
       correctUnique = word_of_nat (\<Sum>f \<leftarrow> G. length (hits f)), totalUnique = word_of_nat (\<Sum>f \<leftarrow> G. length (fiNodes f)),
       uniqueOver10 = word_of_nat (length (filter (unique_over (view ans)) G)),
       logicOver10 = word_of_nat (length (filter (logic_over (view ans)) G)),
       allOver10 = word_of_nat (length (filter (\<lambda>f. logic_over (view ans) f \<and> unique_over (view ans) f) G)),
       totalFile = word_of_nat (length G)\<rparr>)"
proof -
  let ?th = "take FP_SIZE (md5 name)" and ?sel = "filter (\<lambda>f. fiType f = take FP_SIZE (md5 name))"
  obtain G where G: "fst (ldb_iter L fc) = map file_entry G" "mset G = mset F"
    using leveldb_laws.iter_files[OF assms(1-3)] by blast
  have "\<forall>f \<in> set G. wf_file f" using assms(4) G(2) by (metis set_mset_mset)
  then have "foldE (compare_file L ans ?th) (map file_entry G) compare_start = Inr (compare_totals (view ans) (?sel G) compare_start)"
    using assms(6) by (intro leveldb_laws.compare_files_totals[OF assms(1)]) auto
  also have "compare_totals (view ans) (?sel G) compare_start = compare_totals (view ans) (?sel F) compare_start"
    using G(2) by (intro compare_totals_mset) (simp add: mset_filter)
  finally have "compareDB L md5 fc ans name compare_start = Inr (compare_totals (view ans) (?sel F) compare_start)"
    using G(1) leveldb_laws.iter_status[OF assms(1), of fc] by (simp add: compareDB_def type_hash_name[OF assms(5)] case_prod_beta)
  then show ?thesis by (simp add: compare_totals_def compare_start_def Let_def)
qed

definition demo_info :: file_info where
  "demo_info = \<lparr>fiIndex = 0, fiCount = 3, fiType = ''zzzzzz'',
     fiNodes = [\<lparr>nkey = ''abcdef'', ncount = 2\<rparr>, \<lparr>nkey = ''ghijkl'', ncount = 1\<rparr>]\<rparr>"

theorem compareDB_totals_witness:
  "\<exists>t. compareDB (mem_leveldb (\<lambda>_. [])) (\<lambda>_. replicate 16 (CHR ''z'')) [file_entry demo_info] [(''abcdef'', ''uvwxyz'')] ''pdf'' compare_start = Inr t \<and>
    totalFile t = 1 \<and> totalLogic t = 3 \<and> correctLogic t = 2 \<and> totalUnique t = 2 \<and> correctUnique t = 1 \<and> allOver10 t = 1"
proof -
  have "replicate 6 (CHR ''z'') = ''zzzzzz''" by code_simp
  moreover have "wf_file demo_info" by (simp add: wf_file_def demo_info_def wf_nodes_def wf_node_def)
  moreover have "plain_name ''pdf''" by (simp add: plain_name_def)
  ultimately show ?thesis
    using compareDB_totals[OF mem.leveldb_laws_axioms[of "\<lambda>_. []"], of "[file_entry demo_info]" "[demo_info]" "''pdf''"
        "\<lambda>_. replicate 16 (CHR ''z'')" "[(''abcdef'', ''uvwxyz'')]"]
    by (simp add: Let_def) (simp add: demo_info_def found_def logic_over_def unique_over_def)
qed

end
