(* ===== verification/TypedPipeline.thy ===== *)
theory TypedPipeline
  imports InferTypes FileChunks
begin

text \<open>
  The stores that \<open>readInChunkToDBsFileType.cc\<close> leaves are those that \<open>inferChunksType.cc\<close> expects: the buckets of sizes in
  blocks of sixteen bytes, and the counts per file type.
\<close>

section \<open>The stores of the typed reader\<close>

definition entry_bucket :: "(bytes \<times> string \<times> bytes) list \<Rightarrow> string \<Rightarrow> bytes list" where
  "entry_bucket es z = map (\<lambda>(k, z, fp). fp) (filter (\<lambda>(k, z', fp). z' = z) (first_occ {} es))"

definition entry_buckets :: "(bytes \<times> string \<times> bytes) list \<Rightarrow> string \<rightharpoonup> bytes list" where
  "entry_buckets es z = (if entry_bucket es z = [] then None else Some (entry_bucket es z))"

text \<open>How often a fingerprint occurs in files of the type with the hash \<open>th\<close>.\<close>

definition type_freq :: "(bytes \<times> string \<times> bytes) list \<Rightarrow> bytes \<Rightarrow> bytes \<Rightarrow> nat" where
  "type_freq es th fp = count_list (map fst es) (fp @ th)"

lemma bucket_follows_typed_stores:
  assumes "bucket_follows view es (fc, sf)" "bucket_fits es"
  shows "typed_stores view th (entry_buckets es) (type_freq es th) sf fc"
  unfolding typed_stores_def
proof (intro conjI allI impI ballI)
  have v: "view fc = fc_table (map fst es)" "view sf = sf_table es" using assms(1) by (simp_all add: bucket_follows_def)
  show "view sf z = map_option concat (entry_buckets es z)" for z
    by (simp add: v(2) sf_table_def entry_buckets_def entry_bucket_def Let_def)
  fix z fps fp assume fps: "entry_buckets es z = Some fps" "fp \<in> set fps"
  then obtain k where "(k, z, fp) \<in> set (first_occ {} es)"
    by (auto simp: entry_buckets_def entry_bucket_def split: if_splits)
  then have "(k, z, fp) \<in> set es" using set_first_occ by blast
  then show "length fp = FP_SIZE" using assms(2) by (auto simp: bucket_fits_def)
  have "type_freq es th fp < 2 ^ 31"
    using count_le_length[of "map fst es" "fp @ th"] assms(2) by (simp add: type_freq_def bucket_fits_def)
  then show "type_freq es th fp < 2 ^ 31" .
  show "view fc (fp @ th) = Some (dec_nat (type_freq es th fp))" if "view fc (fp @ th) \<noteq> None"
    using that by (simp add: v(1) fc_table_def type_freq_def split: if_splits)
qed

text \<open>The chunks of a type in the buckets \<open>zs\<close>, in the order of the buckets.\<close>

definition type_chunks :: "(bytes \<times> string \<times> bytes) list \<Rightarrow> bytes \<Rightarrow> string list \<Rightarrow> bytes list" where
  "type_chunks es th zs = concat (map (\<lambda>z. filter (\<lambda>fp. 0 < type_freq es th fp) (entry_bucket es z)) zs)"

lemma in_buckets_type_chunks:
  assumes "tab = fc_table (map fst es)" "set zs \<subseteq> dom (entry_buckets es)"
  shows "in_buckets tab th (entry_buckets es) zs = type_chunks es th zs"
proof -
  have "of_type tab th fps = filter (\<lambda>fp. 0 < type_freq es th fp) fps" for fps
    unfolding of_type_def assms(1) by (rule filter_cong) (simp_all add: fc_table_def type_freq_def count_list_0_iff zero_less_iff_neq_zero)
  moreover have "the (entry_buckets es z) = entry_bucket es z" if "z \<in> set zs" for z
    using assms(2) that by (auto simp: entry_buckets_def split: if_splits)
  ultimately show ?thesis unfolding in_buckets_def type_chunks_def by (simp cong: map_cong)
qed

lemma type_hash_length: "type_hash md5 input = Inr th \<Longrightarrow> (\<And>x. length (md5 x) = 16) \<Longrightarrow> length th = FP_SIZE"
  by (auto simp: type_hash_def split: option.splits)

section \<open>From two traces to the inferred pairs\<close>

definition demo_md5 :: "bytes \<Rightarrow> bytes" where
  "demo_md5 x = take 16 (x @ replicate 16 (CHR ''z''))"

definition demo_two_types :: "(string \<times> string list) list" where
  "demo_two_types = [(''pdf'', [demo_line]), (''doc'', [demo_line])]"

text \<open>C5. From two traces with their lists of files to the result of the attack on one file type. The reader fills the
  stores from either trace, the attack succeeds on them, and over the sizes (in blocks of sixteen bytes) \<open>zs\<close> that both
  sides have it makes as many pairs as the smaller side has chunks of the type, a chunk counting once for every
  file type it is found in with that size; it stores exactly the right pairs, and counts all pairs, the right ones
  and the occurrences of their ciphertext chunks in files of the type.\<close>

theorem typed_attack_pipeline:
  assumes L: "leveldb_laws L view" and md5: "\<forall>x. length (md5 x) = 16" "type_hash md5 input = Inr th"
    and m: "plain_files mfls" "text_line mtitle" "types_fit mfls" "types_follow view md5 [] sm"
    and c: "plain_files cfls" "text_line ctitle" "types_fit cfls" "types_follow view md5 [] sc"
    and q: "cQue s = []" "mQue s = []" "view (OUTdb s) = Map.empty" "uniqueInferChunkNumber s = 0" "correctInferChunkNumber s = 0"
      "rawInferChunkNumber s = 0"
  shows "\<exists>sm' sc' s' zs prs. readInChunks_type L md5 (trace_of mtitle mfls) (list_of mfls) sm = Inr sm' \<and>
    readInChunks_type L md5 (trace_of ctitle cfls) (list_of cfls) sc = Inr sc' \<and>
    inferTest_type L md5 input (s\<lparr>MFCdb := tFCdb sm', MSFdb := tSFdb sm', CFCdb := tFCdb sc', CSFdb := tSFdb sc'\<rparr>) = Inr s' \<and>
    (let mes = typed_entries md5 mfls; ces = typed_entries md5 cfls; ms = type_chunks mes th zs; cs = type_chunks ces th zs;
         good = filter (\<lambda>(m, c). enc_fp md5 m = c) prs in
      distinct zs \<and> set zs = {z. entry_bucket mes z \<noteq> [] \<and> entry_bucket ces z \<noteq> []} \<and>
      mset (map fst prs) \<subseteq># mset ms \<and> mset (map snd prs) \<subseteq># mset cs \<and> length prs = min (length ms) (length cs) \<and>
      view (OUTdb s') = map_of (rev good) \<and> uniqueInferChunkNumber s' = word_of_nat (length prs) \<and>
      correctInferChunkNumber s' = word_of_nat (length good) \<and>
      rawInferChunkNumber s' = word_of_nat (\<Sum>(m, c) \<leftarrow> good. type_freq ces th c))"
proof -
  let ?mes = "typed_entries md5 mfls" and ?ces = "typed_entries md5 cfls"
  obtain sm' where sm: "readInChunks_type L md5 (trace_of mtitle mfls) (list_of mfls) sm = Inr sm'" "types_follow view md5 mfls sm'"
    using leveldb_laws.readInChunks_type_follows[OF L m] by blast
  obtain sc' where sc: "readInChunks_type L md5 (trace_of ctitle cfls) (list_of cfls) sc = Inr sc'" "types_follow view md5 cfls sc'"
    using leveldb_laws.readInChunks_type_follows[OF L c] by blast
  have bf: "bucket_follows view ?mes (tFCdb sm', tSFdb sm')" "bucket_follows view ?ces (tFCdb sc', tSFdb sc')"
    using sm(2) sc(2) by (simp_all add: types_follow_def)
  then have fc: "view (tFCdb sm') = fc_table (map fst ?mes)" "view (tFCdb sc') = fc_table (map fst ?ces)"
    by (simp_all add: bucket_follows_def)
  let ?s = "s\<lparr>MFCdb := tFCdb sm', MSFdb := tSFdb sm', CFCdb := tFCdb sc', CSFdb := tSFdb sc'\<rparr>"
  have st: "typed_stores view th (entry_buckets ?mes) (type_freq ?mes th) (MSFdb ?s) (MFCdb ?s)"
    "typed_stores view th (entry_buckets ?ces) (type_freq ?ces th) (CSFdb ?s) (CFCdb ?s)"
    using bucket_follows_typed_stores[OF bf(1) typed_entries_fit[OF m(3)]] bucket_follows_typed_stores[OF bf(2) typed_entries_fit[OF c(3)]] by simp_all
  have "length th = FP_SIZE" using type_hash_length[OF md5(2)] md5(1) by blast
  from inferTest_type_pairs[OF L md5(2) this st] q(1,2) obtain s' zs and prs :: "(bytes \<times> bytes) list" where
    run: "inferTest_type L md5 input ?s = Inr s'" "distinct zs" "set zs = dom (entry_buckets ?ces) \<inter> dom (entry_buckets ?mes)"
    and r: "mset (map fst prs) \<subseteq># mset (in_buckets (view (tFCdb sm')) th (entry_buckets ?mes) zs)"
      "mset (map snd prs) \<subseteq># mset (in_buckets (view (tFCdb sc')) th (entry_buckets ?ces) zs)"
      "length prs = min (length (in_buckets (view (tFCdb sm')) th (entry_buckets ?mes) zs)) (length (in_buckets (view (tFCdb sc')) th (entry_buckets ?ces) zs))"
      "view (OUTdb s') = view (OUTdb s) ++ map_of (rev (filter (\<lambda>(m, c). enc_fp md5 m = c) prs))"
      "uniqueInferChunkNumber s' = uniqueInferChunkNumber s + word_of_nat (length prs)"
      "correctInferChunkNumber s' = correctInferChunkNumber s + word_of_nat (length (filter (\<lambda>(m, c). enc_fp md5 m = c) prs))"
      "rawInferChunkNumber s' = rawInferChunkNumber s + word_of_nat (\<Sum>(m, c) \<leftarrow> filter (\<lambda>(m, c). enc_fp md5 m = c) prs. type_freq ?ces th c)"
    by (auto simp: Let_def)
  have "set zs \<subseteq> dom (entry_buckets ?mes)" "set zs \<subseteq> dom (entry_buckets ?ces)" using run(3) by auto
  note r = r[unfolded in_buckets_type_chunks[OF fc(1) this(1)] in_buckets_type_chunks[OF fc(2) this(2)] q(3-6)]
  have "set zs = {z. entry_bucket ?mes z \<noteq> [] \<and> entry_bucket ?ces z \<noteq> []}"
    using run(3) by (auto simp: entry_buckets_def split: if_splits)
  then show ?thesis
    using sm(1) sc(1) run(1,2) r
    by (intro exI[of _ sm'] exI[of _ sc'] exI[of _ s'] exI[of _ zs] exI[of _ prs]) (simp add: Let_def)
qed

text \<open>A chunk that is found with one size in files of two types is in its bucket twice, so the attack on either type
  makes two pairs of it.\<close>

lemma demo_two_types_ok: "plain_files demo_two_types" "types_fit demo_two_types"
  "typed_entries demo_md5 demo_two_types = [(''abcdefpdfzzz'', ''256'', ''abcdef''), (''abcdefdoczzz'', ''256'', ''abcdef'')]"
proof -
  show "plain_files demo_two_types" using demo_line_plain by (simp add: plain_files_def demo_two_types_def plain_name_def)
  show "types_fit demo_two_types" by (simp add: types_fit_def demo_two_types_def demo_line_chunk)
  have "bucket_size 4096 = 256" using bucket_size_exact[of 4096] by simp
  moreover have "to_string 256 = ''256''" by code_simp
  moreover have "take FP_SIZE (demo_md5 ''pdf'') = ''pdfzzz''" "take FP_SIZE (demo_md5 ''doc'') = ''doczzz''" by code_simp+
  ultimately show "typed_entries demo_md5 demo_two_types = [(''abcdefpdfzzz'', ''256'', ''abcdef''), (''abcdefdoczzz'', ''256'', ''abcdef'')]"
    by (simp add: typed_entries_def typed_entry_def demo_two_types_def demo_line_chunk)
qed

lemma demo_two_types_buckets: "entry_bucket [(''abcdefpdfzzz'', ''256'', ''abcdef''), (''abcdefdoczzz'', ''256'', ''abcdef'')] z = (if z = ''256'' then [''abcdef'', ''abcdef''] else [])"
  by (simp add: entry_bucket_def)

theorem typed_attack_pipeline_witness:
  "\<exists>sm' sc' s'. readInChunks_type (mem_leveldb (\<lambda>_. [])) demo_md5 (trace_of [LF] demo_two_types) (list_of demo_two_types) demo_ftypes = Inr sm' \<and>
    readInChunks_type (mem_leveldb (\<lambda>_. [])) demo_md5 (trace_of [LF] demo_two_types) (list_of demo_two_types) demo_ftypes = Inr sc' \<and>
    inferTest_type (mem_leveldb (\<lambda>_. [])) demo_md5 ''pdf''
      (demo_infer\<lparr>MFCdb := tFCdb sm', MSFdb := tSFdb sm', CFCdb := tFCdb sc', CSFdb := tSFdb sc'\<rparr>) = Inr s' \<and> uniqueInferChunkNumber s' = 2"
proof -
  have "length (demo_md5 x) = 16" for x by (simp add: demo_md5_def min_def)
  moreover have "type_hash demo_md5 ''pdf'' = Inr ''pdfzzz''" by code_simp
  ultimately have md5: "\<forall>x. length (demo_md5 x) = 16" "type_hash demo_md5 ''pdf'' = Inr ''pdfzzz''" by simp_all
  have start: "types_follow map_of demo_md5 [] demo_ftypes"
    by (auto simp: types_follow_def bucket_follows_def fc_table_def sf_table_def typed_entries_def type_table_def demo_ftypes_def fun_eq_iff)
  have title: "text_line [LF]" by (simp add: text_line_def)
  have infer: "cQue demo_infer = []" "mQue demo_infer = []" "map_of (OUTdb demo_infer) = Map.empty" "uniqueInferChunkNumber demo_infer = 0"
    "correctInferChunkNumber demo_infer = 0" "rawInferChunkNumber demo_infer = 0" by (simp_all add: demo_infer_def)
  note run = typed_attack_pipeline[OF mem.leveldb_laws_axioms[of "\<lambda>_. []"] md5 demo_two_types_ok(1) title demo_two_types_ok(2) start
      demo_two_types_ok(1) title demo_two_types_ok(2) start infer, unfolded demo_two_types_ok(3) Let_def]
  obtain sm' sc' s' zs and prs :: "(bytes \<times> bytes) list" where
    r: "readInChunks_type (mem_leveldb (\<lambda>_. [])) demo_md5 (trace_of [LF] demo_two_types) (list_of demo_two_types) demo_ftypes = Inr sm'"
      "readInChunks_type (mem_leveldb (\<lambda>_. [])) demo_md5 (trace_of [LF] demo_two_types) (list_of demo_two_types) demo_ftypes = Inr sc'"
      "inferTest_type (mem_leveldb (\<lambda>_. [])) demo_md5 ''pdf''
        (demo_infer\<lparr>MFCdb := tFCdb sm', MSFdb := tSFdb sm', CFCdb := tFCdb sc', CSFdb := tSFdb sc'\<rparr>) = Inr s'"
      "distinct zs" "set zs = {z. entry_bucket [(''abcdefpdfzzz'', ''256'', ''abcdef''), (''abcdefdoczzz'', ''256'', ''abcdef'')] z \<noteq> [] \<and>
        entry_bucket [(''abcdefpdfzzz'', ''256'', ''abcdef''), (''abcdefdoczzz'', ''256'', ''abcdef'')] z \<noteq> []}"
      "length prs = min (length (type_chunks [(''abcdefpdfzzz'', ''256'', ''abcdef''), (''abcdefdoczzz'', ''256'', ''abcdef'')] ''pdfzzz'' zs))
        (length (type_chunks [(''abcdefpdfzzz'', ''256'', ''abcdef''), (''abcdefdoczzz'', ''256'', ''abcdef'')] ''pdfzzz'' zs))"
      "uniqueInferChunkNumber s' = word_of_nat (length prs)"
    using run by (elim exE conjE) (rule that)
  have "set zs = {''256''}" using r(5) unfolding demo_two_types_buckets by (auto split: if_splits)
  then have "zs = [''256'']" using r(4) by (cases zs) (auto simp: subset_singleton_iff distinct_length_2_or_more)
  then have "length prs = 2" using r(6) by (simp add: type_chunks_def demo_two_types_buckets type_freq_def)
  then show ?thesis using r(1-3,7) by auto
qed

end
