(* ===== verification/BucketPipeline.thy ===== *)
theory BucketPipeline
  imports InferChunks
begin

text \<open>
  The programs of the bucket attack one after the other: \<open>encryptFSL.cc\<close> encrypts a trace,
  \<open>readChunksToDBs.cc\<close> reads the trace and its encryption into stores, \<open>inferChunks.cc\<close> compares them. The
  lemmas connect the tables of the readers with the stores the attack expects, and follow a bucket
  through the encryption.
\<close>

section \<open>The buckets of a trace\<close>

definition bucket_of :: "chunk list \<Rightarrow> string \<Rightarrow> bytes list" where
  "bucket_of cs z = map fst (filter (\<lambda>(fp, w). to_string w = z) (first_occ {} (map (\<lambda>c. (ckey c, csize c)) cs)))"

definition buckets_of :: "chunk list \<Rightarrow> string \<rightharpoonup> bytes list" where
  "buckets_of cs z = (if bucket_of cs z = [] then None else Some (bucket_of cs z))"

definition freq_of :: "chunk list \<Rightarrow> bytes \<Rightarrow> nat" where
  "freq_of cs = count_list (map ckey cs)"

lemma bucket_of_mem:
  "fp \<in> set (bucket_of cs z) \<longleftrightarrow> (\<exists>w. (fp, w) \<in> set (first_occ {} (map (\<lambda>c. (ckey c, csize c)) cs)) \<and> to_string w = z)"
  by (force simp: bucket_of_def)

lemma bucket_of_union: "(\<Union>z. set (bucket_of cs z)) = ckey ` set cs"
proof -
  have "(\<Union>z. set (bucket_of cs z)) = fst ` set (first_occ {} (map (\<lambda>c. (ckey c, csize c)) cs))"
    by (force simp: bucket_of_mem)
  then show ?thesis by (simp add: keys_first_occ image_image)
qed

lemma bucket_of_disjoint: "fp \<in> set (bucket_of cs z) \<Longrightarrow> fp \<in> set (bucket_of cs z') \<Longrightarrow> z = z'"
  using distinct_first_occ[of "{}" "map (\<lambda>c. (ckey c, csize c)) cs"] by (auto simp: bucket_of_mem dest: eq_key_imp_eq_value)

lemma distinct_bucket_of: "distinct (bucket_of cs z)"
  unfolding bucket_of_def by (rule distinct_map_filter[OF distinct_first_occ])

lemma length_first_occ: "length (first_occ S xs) \<le> length xs"
  by (induction S xs rule: first_occ.induct) auto

lemma length_bucket_of: "length (bucket_of cs z) \<le> length cs"
proof -
  let ?xs = "map (\<lambda>c. (ckey c, csize c)) cs"
  have "length (bucket_of cs z) \<le> length (first_occ {} ?xs)" by (simp add: bucket_of_def)
  also have "\<dots> \<le> length cs" using length_first_occ[of "{}" ?xs] by simp
  finally show ?thesis .
qed

section \<open>The stores of the readers are the stores of the attack\<close>

lemma sf_table_bucket_of: "sf_table (map rc_entry cs) z = map_option concat (buckets_of cs z)"
proof -
  have "map (\<lambda>(k, z, fp). fp) (filter (\<lambda>(k, z', fp). z' = z) (first_occ seen (map rc_entry cs))) =
      map fst (filter (\<lambda>(fp, w). to_string w = z) (first_occ seen (map (\<lambda>c. (ckey c, csize c)) cs)))" for seen
    by (induction cs arbitrary: seen) (auto simp: rc_entry_def)
  then show ?thesis by (simp add: sf_table_def buckets_of_def bucket_of_def Let_def)
qed

lemma rc_follows_stores:
  assumes "rc_follows view cs s" "rc_fits cs"
  shows "bucket_stores view (buckets_of cs) (freq_of cs) (SFdb s) (FCdb s)"
proof -
  have v: "view (FCdb s) = fc_table (map ckey cs)" "view (SFdb s) = sf_table (map rc_entry cs)"
    using assms(1) by (auto simp: rc_follows_def bucket_follows_def)
  have "freq_of cs fp < 2 ^ 31" for fp
    using count_le_length[of "map ckey cs" fp] assms(2) by (simp add: freq_of_def rc_fits_def)
  moreover have "fp \<in> ckey ` set cs" if "buckets_of cs z = Some fps" "fp \<in> set fps" for z fps fp
    using that bucket_of_union[of cs] by (auto simp: buckets_of_def split: if_splits)
  ultimately show ?thesis
    using assms(2) by (fastforce simp: bucket_stores_def v sf_table_bucket_of fc_table_def freq_of_def rc_fits_def)
qed

section \<open>A bucket through the encryption\<close>

lemma first_occ_map_inj:
  assumes "inj_on f (seen \<union> fst ` set xs)"
  shows "first_occ (f ` seen) (map (\<lambda>(k, v). (f k, v)) xs) = map (\<lambda>(k, v). (f k, v)) (first_occ seen xs)"
  using assms
proof (induction seen xs rule: first_occ.induct)
  case (2 seen k v xs)
  have "f k \<in> f ` seen \<longleftrightarrow> k \<in> seen" using 2(3) by (auto simp: inj_on_def)
  then show ?case using 2 by (auto simp: inj_on_def)
qed simp

lemma bucket_of_encrypt:
  assumes "inj_on (enc_fp md5) (ckey ` set cs)"
  shows "bucket_of (map (encrypt_chunk md5) cs) z = map (enc_fp md5) (bucket_of cs z)"
proof -
  let ?xs = "map (\<lambda>c. (ckey c, csize c)) cs" and ?f = "\<lambda>(k, v). (enc_fp md5 k, v)"
  have e: "map (\<lambda>c. (ckey c, csize c)) (map (encrypt_chunk md5) cs) = map ?f ?xs" by (simp add: encrypt_chunk_def)
  have "first_occ {} (map ?f ?xs) = map ?f (first_occ {} ?xs)"
    using first_occ_map_inj[of "enc_fp md5" "{}" ?xs] assms by (simp add: image_image)
  then show ?thesis
    unfolding bucket_of_def e by (simp add: filter_map comp_def case_prod_unfold)
qed

lemma freq_of_encrypt:
  assumes "inj_on (enc_fp md5) (ckey ` set cs)" "fp \<in> ckey ` set cs"
  shows "freq_of (map (encrypt_chunk md5) cs) (enc_fp md5 fp) = freq_of cs fp"
proof -
  have "count_list (map f ks) (f k) = count_list ks k" if "inj_on f (insert k (set ks))" for f :: "bytes \<Rightarrow> bytes" and ks k
    using that by (induction ks) (auto simp: inj_on_def)
  from this[of "enc_fp md5" fp "map ckey cs"] show ?thesis
    using assms by (simp add: freq_of_def comp_def encrypt_chunk_def insert_absorb)
qed

text \<open>When the counts in a bucket differ, ranking pairs every fingerprint with its encryption.\<close>

lemma bucket_pairs_encrypt:
  assumes "inj_on (enc_fp md5) (ckey ` set cs)" "inj_on (freq_of cs) (set (bucket_of cs z))" "length cs < 2 ^ 31" "length cs \<le> unat thr"
  shows "bucket_pairs thr (buckets_of cs) (freq_of cs) (buckets_of (map (encrypt_chunk md5) cs)) (freq_of (map (encrypt_chunk md5) cs)) z =
    map (\<lambda>fp. (fp, enc_fp md5 fp)) (ranked (freq_of cs) (bucket_of cs z))"
proof (cases "bucket_of cs z = []")
  case True
  then have "ranked (freq_of cs) (bucket_of cs z) = []" using mset_ranked[of "freq_of cs" "bucket_of cs z"] by simp
  then show ?thesis using True by (simp add: bucket_pairs_def buckets_of_def)
next
  case False
  let ?R = "ranked (freq_of cs) (bucket_of cs z)"
  have "\<forall>fp \<in> set (bucket_of cs z). freq_of (map (encrypt_chunk md5) cs) (enc_fp md5 fp) = freq_of cs fp \<and> freq_of cs fp < 2 ^ 31"
  proof
    fix fp assume "fp \<in> set (bucket_of cs z)"
    then have "fp \<in> ckey ` set cs" using bucket_of_union[of cs] by blast
    then show "freq_of (map (encrypt_chunk md5) cs) (enc_fp md5 fp) = freq_of cs fp \<and> freq_of cs fp < 2 ^ 31"
      using freq_of_encrypt[OF assms(1)] count_le_length[of "map ckey cs" fp] assms(3) by (simp add: freq_of_def)
  qed
  from ranked_enc[where enc = "enc_fp md5", OF this assms(2)] have r: "ranked (freq_of (map (encrypt_chunk md5) cs)) (map (enc_fp md5) (bucket_of cs z)) = map (enc_fp md5) ?R" .
  have "length ?R = length (bucket_of cs z)" using mset_ranked by (metis size_mset)
  then have "length ?R \<le> unat thr" using length_bucket_of[of cs z] assms(4) by simp
  then show ?thesis
    using False by (simp add: bucket_pairs_def buckets_of_def bucket_of_encrypt[OF assms(1)] rank_pairs_def r zip_map2 zip_same_conv_map)
qed

section \<open>All buckets together\<close>

lemma distinct_concat_map:
  "distinct zs \<Longrightarrow> (\<And>z. distinct (g z)) \<Longrightarrow> (\<And>x z z'. x \<in> set (g z) \<Longrightarrow> x \<in> set (g z') \<Longrightarrow> z = z') \<Longrightarrow> distinct (concat (map g zs))"
  by (induction zs) auto

definition ranking :: "chunk list \<Rightarrow> string list \<Rightarrow> bytes list" where
  "ranking cs zs = concat (map (\<lambda>z. ranked (freq_of cs) (bucket_of cs z)) zs)"

lemma ranking_all:
  assumes "distinct zs" "set zs = dom (buckets_of cs)"
  shows "distinct (ranking cs zs)" "set (ranking cs zs) = ckey ` set cs"
proof -
  have s: "set (ranked (freq_of cs) (bucket_of cs z)) = set (bucket_of cs z)" for z using mset_ranked by (metis set_mset_mset)
  have "distinct (ranked (freq_of cs) (bucket_of cs z))" for z
    using distinct_bucket_of[of cs z] mset_ranked by (metis mset_eq_imp_distinct_iff)
  then show "distinct (ranking cs zs)"
    unfolding ranking_def using assms(1) bucket_of_disjoint by (intro distinct_concat_map) (simp_all add: s)
  have "bucket_of cs z = []" if "z \<notin> set zs" for z
    using that assms(2) by (auto simp: buckets_of_def dom_def split: if_splits)
  then have "(\<Union>z \<in> set zs. set (bucket_of cs z)) = (\<Union>z. set (bucket_of cs z))" by fastforce
  then show "set (ranking cs zs) = ckey ` set cs" by (simp add: ranking_def s bucket_of_union)
qed

lemma sum_freq_of: "(\<Sum>fp \<in> ckey ` set cs. freq_of cs fp) = length cs"
  using sum_count_set[of "map ckey cs" "ckey ` set cs"] by (simp add: freq_of_def)

definition distinct_counts :: "chunk list \<Rightarrow> bool" where
  "distinct_counts cs \<longleftrightarrow> (\<forall>z. inj_on (freq_of cs) (set (bucket_of cs z)))"

lemma map_of_graph: "map_of (rev (map (\<lambda>x. (x, f x)) xs)) = (\<lambda>x. if x \<in> set xs then Some (f x) else None)"
  by (simp add: rev_map map_of_map_restrict restrict_map_def fun_eq_iff)

context leveldb_laws
begin

lemma infer_all:
  assumes "bucket_stores view (buckets_of cs) (freq_of cs) (MSFdb s) (MFCdb s)"
    "bucket_stores view (buckets_of (map (encrypt_chunk md5) cs)) (freq_of (map (encrypt_chunk md5) cs)) (CSFdb s) (CFCdb s)"
    "cQue s = []" "mQue s = []" "inj_on (enc_fp md5) (ckey ` set cs)" "distinct_counts cs" "length cs < 2 ^ 31" "length cs \<le> unat thr"
  shows "\<exists>s'. inferTest L md5 thr s = Inr s' \<and>
    view (OUTdb s') = view (OUTdb s) ++ (\<lambda>fp. if fp \<in> ckey ` set cs then Some (enc_fp md5 fp) else None) \<and>
    uniqueInferChunkNumber s' = uniqueInferChunkNumber s + word_of_nat (card (ckey ` set cs)) \<and>
    correctInferChunkNumber s' = correctInferChunkNumber s + word_of_nat (card (ckey ` set cs)) \<and>
    rawInferChunkNumber s' = rawInferChunkNumber s + word_of_nat (length cs)"
proof -
  let ?ecs = "map (encrypt_chunk md5) cs" and ?zs = "map fst (fst (ldb_iter L (CSFdb s)))"
  let ?R = "ranking cs ?zs" and ?pr = "\<lambda>fp. (fp, enc_fp md5 fp)"
  have dom: "dom (buckets_of ?ecs) = dom (buckets_of cs)"
    by (auto simp: buckets_of_def bucket_of_encrypt[OF assms(5)] dom_def)
  have "set ?zs = dom (view (CSFdb s))" using iter_keys by simp
  also have "\<dots> = dom (buckets_of cs)" using assms(2) by (auto simp: bucket_stores_def simp flip: dom)
  finally have zs: "set ?zs = dom (buckets_of cs)" .
  note R = ranking_all[OF iter_distinct zs]
  have prs: "concat (map (bucket_pairs thr (buckets_of cs) (freq_of cs) (buckets_of ?ecs) (freq_of ?ecs)) ?zs) = map ?pr ?R"
    using bucket_pairs_encrypt[OF assms(5) _ assms(7,8)] assms(6) by (simp add: ranking_def map_concat distinct_counts_def comp_def)
  obtain s' where s': "inferTest L md5 thr s = Inr s'" "inferred view md5 (freq_of ?ecs) (map ?pr ?R) s s'"
    using inferTest_pairs[OF assms(2,1,3,4), of md5 thr] unfolding prs by blast
  have good: "right_pairs_of md5 (map ?pr ?R) = map ?pr ?R" by (simp add: right_pairs_of_def filter_map comp_def)
  have len: "length ?R = card (ckey ` set cs)" using distinct_card[OF R(1)] R(2) by simp
  have "(\<Sum>(m, c) \<leftarrow> map ?pr ?R. freq_of ?ecs c) = (\<Sum>fp \<leftarrow> ?R. freq_of ?ecs (enc_fp md5 fp))" by (simp add: comp_def)
  also have "\<dots> = (\<Sum>fp \<in> ckey ` set cs. freq_of cs fp)"
    using freq_of_encrypt[OF assms(5)] by (subst sum_list_distinct_conv_sum_set[OF R(1)]) (simp add: R(2))
  finally have raw: "(\<Sum>(m, c) \<leftarrow> map ?pr ?R. freq_of ?ecs c) = length cs" by (simp add: sum_freq_of)
  show ?thesis
    using s' unfolding inferred_def good Let_def raw by (auto simp: len map_of_graph R(2))
qed

end

end
