(* ===== verification/Rebucket.thy ===== *)
theory Rebucket
  imports BucketPipeline FileChunks
begin

text \<open>
  The conversion of a bucket store (\<open>mkDB.cc\<close>): the buckets of single sizes become buckets of \<open>bucketSize\<close>
  consecutive sizes. Its \<open>initDB\<close> does not compile, so the model starts from the two open stores.
\<close>

section \<open>The program\<close>

definition bucketSize :: nat where
  "bucketSize = 16"

text \<open>\<open>ceil((double)size/bucketSize)\<close>, with the conversion of \<open>readInChunkToDBsFileType.cc\<close>; the quotient by a power of
  two is exact.\<close>

definition tmpSize :: "u64 \<Rightarrow> u64" where
  "tmpSize sz = word_of_int \<lceil>real (double_of_nat (unat sz)) / real bucketSize\<rceil>"

text \<open>The new store and the result, an \<open>int\<close>.\<close>

definition insertSFDB :: "'db leveldb \<Rightarrow> string \<Rightarrow> bytes \<Rightarrow> 'db \<Rightarrow> cpp_error + int \<times> 'db" where
  "insertSFDB L sz key db =
     (let (status, exs) = ldb_get L db sz []
      in if status \<noteq> StOk then Inr (1, snd (ldb_put L db sz key))
         else let insertKey = exs @ key
              in if length insertKey mod 6 \<noteq> 0 then Inl (ExitCall 0)
                 else Inr (-1, snd (ldb_put L db sz insertKey)))"

definition rebucket_one :: "'db leveldb \<Rightarrow> bytes \<times> bytes \<Rightarrow> 'db \<Rightarrow> cpp_error + 'db" where
  "rebucket_one L = (\<lambda>(sizeStr, mKey) new.
     let size = word_of_int (atoi sizeStr)
     in bindE (insertSFDB L (to_string (tmpSize size)) mKey new) (\<lambda>(_, new). Inr new))"

definition readInChunks_mk :: "'db leveldb \<Rightarrow> 'db \<Rightarrow> 'db \<Rightarrow> cpp_error + 'db" where
  "readInChunks_mk L sf new =
     (let (es, st) = ldb_iter L sf
      in bindE (foldE (rebucket_one L) es new) (assertE (st = StOk)))"

section \<open>The size of the new bucket\<close>

lemma tmpSize_bucket_size: "tmpSize w = bucket_size w"
  by (simp add: tmpSize_def bucket_size_def bucketSize_def)

lemma tmpSize_small:
  assumes "unat w < 2 ^ 31"
  shows "unat (tmpSize w) = (unat w + 15) div 16"
  using assms bucket_size_exact[of w] by (simp add: tmpSize_bucket_size unsigned_of_nat take_bit_nat_eq_self)

section \<open>The new store\<close>

definition rebucketed :: "string \<Rightarrow> string" where
  "rebucketed z = to_string (tmpSize (word_of_int (atoi z)))"

text \<open>What the buckets \<open>es\<close> leave under the size \<open>t\<close>.\<close>

definition merged :: "(string \<times> bytes list) list \<Rightarrow> string \<rightharpoonup> bytes" where
  "merged es t = (let vs = map snd (filter (\<lambda>(z, v). rebucketed z = t) es) in if vs = [] then None else Some (concat (map concat vs)))"

definition merged_fits :: "(string \<times> bytes list) list \<Rightarrow> bool" where
  "merged_fits es \<longleftrightarrow> (\<forall>(z, fps) \<in> set es. \<forall>fp \<in> set fps. length fp = FP_SIZE)"

lemma merged_snoc:
  "merged (es @ [(z, fps)]) = (merged es)(rebucketed z \<mapsto> (case merged es (rebucketed z) of None \<Rightarrow> [] | Some v \<Rightarrow> v) @ concat fps)"
  by (auto simp: fun_eq_iff merged_def Let_def)

lemma concat_map_concat: "concat (map concat vs) = concat (concat vs)"
  by (induction vs) auto

lemma merged_length:
  assumes "merged_fits es" "merged es t = Some v"
  shows "length v mod 6 = 0"
proof -
  have "v = concat (concat (map snd (filter (\<lambda>(z, v). rebucketed z = t) es)))"
    using assms(2) unfolding concat_map_concat[symmetric] by (auto simp: merged_def Let_def split: if_splits)
  moreover have "\<forall>fp \<in> set (concat (map snd (filter (\<lambda>(z, v). rebucketed z = t) es))). length fp = FP_SIZE"
    using assms(1) by (fastforce simp: merged_fits_def)
  ultimately show ?thesis using length_concat_blocks by fastforce
qed

context leveldb_laws
begin

lemma rebucket_one_follows:
  assumes "view new = merged es" "merged_fits (es @ [(z, fps)])"
  shows "\<exists>new'. rebucket_one L (z, concat fps) new = Inr new' \<and> view new' = merged (es @ [(z, fps)])"
proof -
  have fits: "merged_fits es" "\<forall>fp \<in> set fps. length fp = FP_SIZE" using assms(2) by (auto simp: merged_fits_def)
  have "length (concat fps) mod 6 = 0" using length_concat_blocks[OF fits(2)] by presburger
  moreover have "length v mod 6 = 0" if "merged es (rebucketed z) = Some v" for v
    using merged_length[OF fits(1) that] .
  ultimately show ?thesis
    using assms(1) unfolding merged_snoc
    by (cases "merged es (rebucketed z)")
      (auto simp: rebucket_one_def insertSFDB_def Let_def get_cases view_put mod_add_eq[symmetric] simp flip: rebucketed_def)
qed

end

sublocale leveldb_laws \<subseteq> mk: sequence_store "\<lambda>(z, fps). rebucket_one L (z, concat fps)" merged_fits "\<lambda>es new. view new = merged es"
proof unfold_locales
  show "merged_fits (xs @ ys) \<Longrightarrow> merged_fits xs" for xs ys by (simp add: merged_fits_def)
  show "view s = merged xs \<Longrightarrow> merged_fits (xs @ [x]) \<Longrightarrow> \<exists>s'. (case x of (z, fps) \<Rightarrow> rebucket_one L (z, concat fps)) s = Inr s' \<and> view s' = merged (xs @ [x])" for xs s x
    using rebucket_one_follows by (cases x) auto
qed

context leveldb_laws
begin

lemma readInChunks_mk_merged:
  assumes b: "\<forall>z. view sf z = map_option concat (b z)" "\<forall>z fps fp. b z = Some fps \<longrightarrow> fp \<in> set fps \<longrightarrow> length fp = FP_SIZE"
    and new: "view new = Map.empty"
  shows "\<exists>new' zs. readInChunks_mk L sf new = Inr new' \<and> sorted_wrt (<) zs \<and> set zs = dom b \<and> view new' = merged (map (\<lambda>z. (z, the (b z))) zs)"
proof -
  let ?zs = "map fst (fst (ldb_iter L sf))" and ?es = "map (\<lambda>z. (z, the (b z))) (map fst (fst (ldb_iter L sf)))"
  have dom: "set ?zs = dom b" using iter_keys[of sf] b(1) by (auto simp: dom_def)
  have "fst (ldb_iter L sf) = map (\<lambda>(z, fps). (z, concat fps)) ?es"
  proof (rule sym, simp, rule map_idI)
    fix x assume x: "x \<in> set (fst (ldb_iter L sf))"
    then have "view sf (fst x) = Some (snd x)" using iter_mem[of "fst x" "snd x" sf] by simp
    then show "((\<lambda>(z, fps). (z, concat fps)) \<circ> ((\<lambda>z. (z, the (b z))) \<circ> fst)) x = x" using b(1) by (cases x) auto
  qed
  then have "foldE (rebucket_one L) (fst (ldb_iter L sf)) new = foldE (rebucket_one L) (map (\<lambda>(z, fps). (z, concat fps)) ?es) new" by argo
  then have "foldE (rebucket_one L) (fst (ldb_iter L sf)) new = foldE (\<lambda>(z, fps). rebucket_one L (z, concat fps)) ?es new"
    unfolding foldE_map by (simp add: case_prod_beta' foldE_map)
  moreover have "length fp = FP_SIZE" if z: "z \<in> set ?zs" "fp \<in> set (the (b z))" for z fp
  proof -
    from z(1) obtain fps where "b z = Some fps" unfolding dom by blast
    then show ?thesis using b(2) z(2) by simp
  qed
  then have "merged_fits ([] @ ?es)" unfolding merged_fits_def by auto
  moreover have "view new = merged []" using new by (simp add: merged_def fun_eq_iff)
  ultimately obtain new' where "foldE (rebucket_one L) (fst (ldb_iter L sf)) new = Inr new'" "view new' = merged ?es"
    using mk.absorb_all[where xs = "[]" and ys = ?es] by auto
  then show ?thesis
    using dom iter_sorted[of sf] iter_status[of sf] by (intro exI[of _ new'] exI[of _ ?zs]) (simp add: readInChunks_mk_def case_prod_beta assertE_def)
qed

end

section \<open>From a trace\<close>

lemma rebucketed_to_string:
  assumes "unat w < 2 ^ 31"
  shows "rebucketed (to_string w) = dec_nat ((unat w + 15) div 16)"
proof -
  have "word_of_int (atoi (to_string w)) = w" unfolding atoi_to_string[OF assms] by simp
  then show ?thesis using tmpSize_small[OF assms] by (simp add: rebucketed_def to_string_def[of "tmpSize w"])
qed

lemma merged_buckets_of:
  assumes zs: "distinct zs" "set zs = dom (buckets_of cs)" and small: "\<forall>c \<in> set cs. unat (csize c) < 2 ^ 31"
  shows "\<exists>fps. merged (map (\<lambda>z. (z, the (buckets_of cs z))) zs) t = (if fps = [] then None else Some (concat fps)) \<and> distinct fps \<and>
    set fps = {fp. \<exists>w. (fp, w) \<in> set (first_occ {} (map (\<lambda>c. (ckey c, csize c)) cs)) \<and> dec_nat ((unat w + 15) div 16) = t}"
proof -
  let ?zt = "filter (\<lambda>z. rebucketed z = t) zs" and ?occ = "set (first_occ {} (map (\<lambda>c. (ckey c, csize c)) cs))"
  let ?fps = "concat (map (bucket_of cs) ?zt)"
  have bk: "the (buckets_of cs z) = bucket_of cs z" "bucket_of cs z \<noteq> []" if "z \<in> set zs" for z
    using that zs(2) by (auto simp: buckets_of_def split: if_splits)
  have vs: "map snd (filter (\<lambda>(z, v). rebucketed z = t) (map (\<lambda>z. (z, the (buckets_of cs z))) zs)) = map (bucket_of cs) ?zt"
    using bk(1) by (induction zs) auto
  have "merged (map (\<lambda>z. (z, the (buckets_of cs z))) zs) t = (if ?fps = [] then None else Some (concat ?fps))"
    using bk(2) unfolding merged_def vs Let_def concat_map_concat by (auto simp: filter_empty_conv)
  moreover have "distinct ?fps"
    using zs(1) distinct_bucket_of bucket_of_disjoint by (intro distinct_concat_map) auto
  moreover have "set ?fps = {fp. \<exists>w. (fp, w) \<in> ?occ \<and> dec_nat ((unat w + 15) div 16) = t}"
  proof -
    have small': "unat w < 2 ^ 31" if "(fp, w) \<in> ?occ" for fp w
      using that set_first_occ[of "{}"] small by fastforce
    have "fp \<in> set ?fps \<longleftrightarrow> (\<exists>w. (fp, w) \<in> ?occ \<and> rebucketed (to_string w) = t)" for fp
    proof -
      have "z \<in> set zs" if "fp \<in> set (bucket_of cs z)" for z using that zs(2) by (auto simp: buckets_of_def)
      then have "fp \<in> set ?fps \<longleftrightarrow> (\<exists>z. rebucketed z = t \<and> fp \<in> set (bucket_of cs z))" by auto
      also have "\<dots> \<longleftrightarrow> (\<exists>w. (fp, w) \<in> ?occ \<and> rebucketed (to_string w) = t)" unfolding bucket_of_mem by blast
      finally show ?thesis .
    qed
    moreover have "(\<exists>w. (fp, w) \<in> ?occ \<and> rebucketed (to_string w) = t) \<longleftrightarrow> (\<exists>w. (fp, w) \<in> ?occ \<and> dec_nat ((unat w + 15) div 16) = t)" for fp
      by (intro ex_cong1 conj_cong refl) (simp only: rebucketed_to_string[OF small'])
    ultimately show ?thesis by (intro set_eqI) (simp only: mem_Collect_eq)
  qed
  ultimately show ?thesis by blast
qed

text \<open>Reading a trace and converting its buckets: the new store has, under each size \<open>t\<close>, exactly the distinct fingerprints
  whose first occurrence has a size of \<open>t\<close> when divided by 16 and rounded up, each of them once.\<close>

lemma mkDB_buckets:
  assumes L: "leveldb_laws L view" and cs: "body_entries file = Inr cs" "length cs < 2 ^ 31" "\<forall>c \<in> set cs. unat (csize c) < 2 ^ 31"
    and s: "view (FCdb s) = Map.empty" "view (SFdb s) = Map.empty" "totalLogicChunkNumber s = 0" "totalUniqueChunkNumber s = 0"
    and new: "view new = Map.empty"
  shows "\<exists>s' new'. readInChunks L file s = Inr s' \<and> readInChunks_mk L (SFdb s') new = Inr new' \<and>
    (\<forall>t. \<exists>fps. view new' t = (if fps = [] then None else Some (concat fps)) \<and> distinct fps \<and>
      set fps = {fp. \<exists>w. (fp, w) \<in> set (first_occ {} (map (\<lambda>c. (ckey c, csize c)) cs)) \<and> dec_nat ((unat w + 15) div 16) = t})"
proof -
  have start: "rc_follows view [] s"
    using s by (auto simp: rc_follows_def bucket_follows_def fc_table_def sf_table_def fun_eq_iff)
  obtain s' where s': "readInChunks L file s = Inr s'" "rc_follows view cs s'"
    using leveldb_laws.readInChunks_follows[OF L cs(1,2) start] by blast
  have "rc_fits cs" using cs(2) body_entries_keys[OF cs(1)] by (simp add: rc_fits_def)
  then have st: "bucket_stores view (buckets_of cs) (freq_of cs) (SFdb s') (FCdb s')" by (rule rc_follows_stores[OF s'(2)])
  then have b: "\<forall>z. view (SFdb s') z = map_option concat (buckets_of cs z)"
    "\<forall>z fps fp. buckets_of cs z = Some fps \<longrightarrow> fp \<in> set fps \<longrightarrow> length fp = FP_SIZE"
    by (auto simp: bucket_stores_def)
  obtain new' zs where r: "readInChunks_mk L (SFdb s') new = Inr new'" "sorted_wrt (<) zs" "set zs = dom (buckets_of cs)"
    "view new' = merged (map (\<lambda>z. (z, the (buckets_of cs z))) zs)"
    using leveldb_laws.readInChunks_mk_merged[OF L b new] by blast
  have "distinct zs" using r(2) strict_sorted_iff by blast
  from merged_buckets_of[OF this r(3) cs(3)] show ?thesis
    using s'(1) r(1,4) by (intro exI[of _ s'] exI[of _ new']) simp
qed

end
