(* ===== verification/BucketOutput.thy ===== *)
theory BucketOutput
  imports FileChunks
begin

text \<open>
  The programs that print stores: \<open>outPutCaseDB.cc\<close> (the file store and the answers), \<open>outPutDB.cc\<close> (counts and
  buckets), \<open>outPutDBType.cc\<close> (the same with types), and \<open>DBtest.cc\<close>, which copies a trace through a store. The result
  of a run is the list of the files it writes, with their content: \<open>freopen\<close> makes \<open>stdout\<close> the next of them.
\<close>

section \<open>Printing a store\<close>

text \<open>\<open>sprintf(mk, "%02x:...:%02x\t", v[i]&0xFF, ..., v[i+5]&0xFF)\<close>: \<open>operator[]\<close> reads up to the terminating NUL.\<close>

definition print_fp_at :: "bytes \<Rightarrow> nat \<Rightarrow> cpp_error + string" where
  "print_fp_at v i = bindE (read_bytes v i 6) (\<lambda>b. Inr (fp_text b @ [TAB]))"

text \<open>The loop over the iterator that every function has, with what it prints for an entry.\<close>

definition dump :: "'db leveldb \<Rightarrow> (bytes \<times> bytes \<Rightarrow> cpp_error + string) \<Rightarrow> 'db \<Rightarrow> cpp_error + string" where
  "dump L line db = (let (es, st) = ldb_iter L db in bindE (mapE line es) (\<lambda>ls. assertE (st = StOk) (concat ls)))"

section \<open>outPutCaseDB\<close>

definition case_chunk :: "bytes \<Rightarrow> nat \<Rightarrow> string \<Rightarrow> cpp_error + string" where
  "case_chunk mValue i out =
     bindE (print_fp_at mValue i) (\<lambda>mk2. bindE (substr_u64 mValue (i + 6)) (\<lambda>countTmp.
       Inr (out @ mk2 @ '' '' @ to_string countTmp @ '' '')))"

definition case_line :: "bytes \<times> bytes \<Rightarrow> cpp_error + string" where
  "case_line = (\<lambda>(key, mValue).
     bindE (substr_u64 key 0) (\<lambda>index. bindE (substr_u64 key 8) (\<lambda>count. bindE (substr key 16 6) (\<lambda>mKey.
     bindE (print_fp_at mKey 0) (\<lambda>mk1.
     bindE (for_step 14 (length mValue) (case_chunk mValue) 0
              (to_string index @ [TAB] @ to_string count @ [TAB] @ mk1 @ [TAB, TAB])) (\<lambda>out.
       Inr (out @ [LF])))))))"

definition ans_line :: "bytes \<times> bytes \<Rightarrow> cpp_error + string" where
  "ans_line = (\<lambda>(mKey, mValue).
     bindE (print_fp_at mKey 0) (\<lambda>mk1. bindE (print_fp_at mValue 0) (\<lambda>mk2. Inr (mk1 @ [TAB] @ mk2 @ [LF]))))"

definition main_case :: "'db leveldb \<Rightarrow> string list \<Rightarrow> cpp_error + (string \<times> string) list" where
  "main_case L argv =
     bindE (argv_at argv 1) (\<lambda>a1. bindE (argv_at argv 2) (\<lambda>a2.
     bindE (open_db L a1) (\<lambda>fc. bindE (open_db L a2) (\<lambda>ans.
     bindE (dump L case_line fc) (\<lambda>c. bindE (dump L ans_line ans) (\<lambda>a.
       Inr [(''case.txt'', c), (''ans.txt'', a)]))))))"

section \<open>outPutDB\<close>

definition sf_line :: "bytes \<times> bytes \<Rightarrow> cpp_error + string" where
  "sf_line = (\<lambda>(key, mKey).
     bindE (for_step FP_SIZE (length mKey) (\<lambda>i out. bindE (print_fp_at mKey i) (\<lambda>mk1. Inr (out @ mk1))) 0 (key @ [TAB])) (\<lambda>out.
       Inr (out @ [LF])))"

definition fc_line :: "bytes \<times> bytes \<Rightarrow> cpp_error + string" where
  "fc_line = (\<lambda>(mKey, val). bindE (print_fp_at mKey 0) (\<lambda>mk1. Inr (mk1 @ [TAB] @ val @ [LF])))"

text \<open>\<open>assert(argc = 5)\<close> assigns, so it always holds; the asserts of \<open>initDB\<close> look at the first handle only.\<close>

definition main_out :: "'db leveldb \<Rightarrow> string list \<Rightarrow> cpp_error + (string \<times> string) list" where
  "main_out L argv =
     bindE (argv_at argv 1) (\<lambda>a1. bindE (argv_at argv 2) (\<lambda>a2. bindE (argv_at argv 3) (\<lambda>a3. bindE (argv_at argv 4) (\<lambda>a4.
     bindE (open_db L a1) (\<lambda>cfc. bindE (open_unchecked L a2) (\<lambda>csf.
     bindE (open_unchecked L a3) (\<lambda>mfc. bindE (open_unchecked L a4) (\<lambda>msf.
     bindE (dump L sf_line csf) (\<lambda>o1. bindE (dump L fc_line cfc) (\<lambda>o2.
     bindE (dump L sf_line msf) (\<lambda>o3. bindE (dump L fc_line mfc) (\<lambda>o4.
       Inr [(''CSF.txt'', o1), (''CFC.txt'', o2), (''MSF.txt'', o3), (''MFC.txt'', o4)]))))))))))))"

section \<open>outPutDBType\<close>

text \<open>The keys of the typed count store have the fingerprint and the hash of the type.\<close>

definition fc_line_type :: "bytes \<times> bytes \<Rightarrow> cpp_error + string" where
  "fc_line_type = (\<lambda>(mKey, val).
     bindE (print_fp_at mKey 0) (\<lambda>mk1. bindE (print_fp_at mKey 6) (\<lambda>mk2. Inr (mk1 @ mk2 @ [TAB] @ val @ [LF]))))"

definition type_line :: "bytes \<times> bytes \<Rightarrow> cpp_error + string" where
  "type_line = (\<lambda>(key, val). Inr (key @ [TAB] @ val @ [LF]))"

definition type2_line :: "bytes \<times> bytes \<Rightarrow> cpp_error + string" where
  "type2_line = (\<lambda>(key, mKey). bindE (print_fp_at mKey 0) (\<lambda>mk1. Inr (key @ [TAB] @ mk1 @ [LF])))"

text \<open>\<open>MFC\<close> and \<open>MSF\<close> iterate over the ciphertext stores.\<close>

definition main_out_type :: "'db leveldb \<Rightarrow> string list \<Rightarrow> cpp_error + (string \<times> string) list" where
  "main_out_type L argv =
     bindE (argv_at argv 1) (\<lambda>a1. bindE (argv_at argv 2) (\<lambda>a2. bindE (argv_at argv 3) (\<lambda>a3. bindE (argv_at argv 4) (\<lambda>a4.
     bindE (argv_at argv 5) (\<lambda>a5.
     bindE (open_db L a3) (\<lambda>cfc. bindE (open_db L a4) (\<lambda>csf. bindE (open_db L a2) (\<lambda>msf. bindE (open_db L a1) (\<lambda>mfc.
     bindE (open_db L a5) (\<lambda>t. bindE (open_db L ''./TP'') (\<lambda>tp.
     bindE (dump L sf_line csf) (\<lambda>o1. bindE (dump L fc_line_type cfc) (\<lambda>o2.
     bindE (dump L fc_line_type cfc) (\<lambda>o3. bindE (dump L sf_line csf) (\<lambda>o4.
     bindE (dump L type_line t) (\<lambda>o5. bindE (dump L type2_line tp) (\<lambda>o6.
       Inr [(''CSF.txt'', o1), (''CFC.txt'', o2), (''MFC.txt'', o3), (''MSF.txt'', o4), (''type.txt'', o5), (''type2.txt'', o6)])))))))))))))))))"

section \<open>DBtest\<close>

record 'db copying =
  ydb :: 'db
  yLogic :: u64
  yOut :: string

text \<open>The loop over the tokens of a line, which appends them; the result is the text and the token after it.\<close>

function token_loop :: "nat \<Rightarrow> string \<Rightarrow> (string \<times> string) option \<Rightarrow> string \<times> string option" where
  "token_loop index chunkHash None = (chunkHash, None)"
| "token_loop index chunkHash (Some (item, buf)) =
     (if index < 6 then token_loop (index + 1) (chunkHash @ item) (strtok [CHR '':'', TAB, LF] buf) else (chunkHash, Some item))"
  by pat_completeness auto
termination
  by (relation "measure (\<lambda>(index, _, _). 6 - index)") auto

declare token_loop.simps(2) [simp del]

definition copy_line :: "'db leveldb \<Rightarrow> string \<Rightarrow> 'db copying \<Rightarrow> cpp_error + 'db copying" where
  "copy_line L read_buffer s =
     (let n = yLogic s + 1;
          (chunkHash, item) = token_loop 0 [] (strtok [CHR '':'', TAB, LF, CHR '' ''] read_buffer);
          out = yOut s @ chunkHash @ [LF]
      in bindE (item_size item) (\<lambda>_.
           let (st, d) = ldb_put L (ydb s) (to_string n) chunkHash
           in Inr (s\<lparr>ydb := d, yLogic := n, yOut := (if st = StOk then out else out @ ''error'' @ [LF])\<rparr>)))"

definition readInChunks_copy :: "'db leveldb \<Rightarrow> string \<Rightarrow> 'db copying \<Rightarrow> cpp_error + 'db copying" where
  "readInChunks_copy L file s = foldE (copy_line L) (drop 1 (fgets_lines file)) s"

text \<open>The loop counter is an \<open>int\<close>, and overflows when there are more entries than it can count.\<close>

definition outPutdb :: "'db leveldb \<Rightarrow> 'db copying \<Rightarrow> cpp_error + string" where
  "outPutdb L s =
     (if 2 ^ 31 \<le> unat (yLogic s) then Inl IntOverflow
      else Inr (snd (fold (\<lambda>i (exs, out). let (st, exs) = ldb_get L (ydb s) (dec_nat i) exs
                                         in (exs, (if st = StOk then out else out @ ''error'' @ [LF]) @ exs @ [LF]))
                  [1..<Suc (unat (yLogic s))] ([], []))))"

text \<open>The file is not checked: a missing one is read through a NULL pointer.\<close>

definition main_copy :: "'db leveldb \<Rightarrow> (string \<rightharpoonup> string) \<Rightarrow> string list \<Rightarrow> cpp_error + (string \<times> string) list" where
  "main_copy L fs argv =
     bindE (argv_at argv 1) (\<lambda>a1. bindE (open_db L ''./count'') (\<lambda>d.
       case fs a1 of
         None \<Rightarrow> Inl NullDeref
       | Some file \<Rightarrow>
           bindE (readInChunks_copy L file \<lparr>ydb = d, yLogic = 0, yOut = []\<rparr>) (\<lambda>s.
           bindE (outPutdb L s) (\<lambda>out. Inr [(''Basic.txt'', yOut s), (''MFC.txt'', out)]))))"

section \<open>What the programs print\<close>

lemma print_fp_at_0: "length fp = FP_SIZE \<Longrightarrow> print_fp_at fp 0 = Inr (fp_text fp @ [TAB])"
  by (simp add: print_fp_at_def read_bytes_inside)

lemma foldE_append_text: "foldE (\<lambda>x out. Inr (out @ t x)) xs out = Inr (out @ concat (map t xs))"
  by (induction xs arbitrary: out) auto

text \<open>A bucket is printed as its key and its fingerprints in order.\<close>

lemma sf_line_fps:
  assumes "\<forall>fp \<in> set fps. length fp = FP_SIZE"
  shows "sf_line (key, concat fps) = Inr (key @ [TAB] @ concat (map (\<lambda>fp. fp_text fp @ [TAB]) fps) @ [LF])"
proof -
  have "for_step FP_SIZE (length (concat fps)) (\<lambda>i out. bindE (print_fp_at (concat fps) i) (\<lambda>mk1. Inr (out @ mk1))) 0 out =
      foldE (\<lambda>fp out. Inr (out @ fp_text fp @ [TAB])) fps out" for out
    using for_step_size[OF assms, of "\<lambda>fp out. Inr (out @ fp_text fp @ [TAB])" out]
    by (simp add: print_fp_at_def bindE_assoc)
  then show ?thesis by (simp add: sf_line_def foldE_append_text)
qed

text \<open>A file is printed with its number, its length, the hash of its type and its chunks with their counts.\<close>

lemma case_line_file:
  assumes "wf_file f"
  shows "case_line (file_entry f) = Inr (to_string (fiIndex f) @ [TAB] @ to_string (fiCount f) @ [TAB] @ fp_text (fiType f) @ [TAB, TAB, TAB] @
    concat (map (\<lambda>n. fp_text (nkey n) @ [TAB] @ '' '' @ to_string (ncount n) @ '' '') (fiNodes f)) @ [LF])"
proof -
  let ?ns = "fiNodes f" and ?v = "concat (map rec_bytes (fiNodes f))"
  let ?t = "\<lambda>n. fp_text (nkey n) @ [TAB] @ '' '' @ to_string (ncount n) @ '' ''"
  have wf: "wf_nodes ?ns" "length (fiType f) = FP_SIZE" using assms by (auto simp: wf_file_def)
  have "case_chunk ?v (14 * i) out = Inr (out @ ?t (?ns ! i))" if "i < length ?ns" for i out
  proof -
    have "14 * i + 6 \<le> length ?v" using that by (simp add: length_record_bytes[OF wf(1)])
    moreover have "take 6 (drop (14 * i) ?v) = nkey (?ns ! i)"
      using substr_record(1)[OF wf(1) that] by (simp add: substr_def split: if_splits)
    ultimately have "print_fp_at ?v (14 * i) = Inr (fp_text (nkey (?ns ! i)) @ [TAB])" by (simp add: print_fp_at_def read_bytes_inside)
    then show ?thesis using substr_record(2)[OF wf(1) that] by (simp add: case_chunk_def)
  qed
  note step = this
  have "for_step 14 (length ?v) (case_chunk ?v) 0 out = Inr (out @ concat (map ?t ?ns))" for out
  proof -
    have "for_step 14 (length ?v) (case_chunk ?v) (14 * 0) out = foldE (\<lambda>i. case_chunk ?v (14 * i)) [0..<length ?ns] out"
      by (intro for_step_shift) (simp_all add: length_record_bytes[OF wf(1)])
    also have "\<dots> = foldE (\<lambda>i out. Inr (out @ ?t (?ns ! i))) [0..<length ?ns] out"
      by (rule foldE_cong_set) (use step in auto)
    also have "\<dots> = foldE (\<lambda>n out. Inr (out @ ?t n)) ?ns out" by (rule foldE_upt_nth)
    also have "\<dots> = Inr (out @ concat (map ?t ?ns))" by (rule foldE_append_text)
    finally show ?thesis by simp
  qed
  then show ?thesis using substr_meta[OF wf(2)] wf(2) by (simp add: case_line_def file_entry_def print_fp_at_0)
qed

text \<open>The dumps of the plaintext stores are copies of the dumps of the ciphertext stores.\<close>

lemma main_out_type_copies:
  assumes "main_out_type L argv = Inr files"
  shows "map_of files ''MFC.txt'' = map_of files ''CFC.txt''" "map_of files ''MSF.txt'' = map_of files ''CSF.txt''"
  using assms by (auto simp: main_out_type_def bindE_eq_Inr)

section \<open>The copy through the store\<close>

lemma dec_nat_inject: "dec_nat m = dec_nat n \<longleftrightarrow> m = n"
  by (metis digits_val_dec_nat)

definition copied :: "('db \<Rightarrow> bytes \<rightharpoonup> bytes) \<Rightarrow> string list \<Rightarrow> 'db copying \<Rightarrow> bool" where
  "copied view hs s \<longleftrightarrow> yLogic s = word_of_nat (length hs) \<and> yOut s = concat (map (\<lambda>h. h @ [LF]) hs) \<and>
     (\<forall>i < length hs. view (ydb s) (dec_nat (Suc i)) = Some (hs ! i))"

context leveldb_laws
begin

lemma copy_line_copied:
  assumes "copied view hs s" "copy_line L l s = Inr s'" "Suc (length hs) < 2 ^ 31"
  shows "\<exists>h. copied view (hs @ [h]) s'"
proof -
  obtain h item where h: "token_loop 0 [] (strtok [CHR '':'', TAB, LF, CHR '' ''] l) = (h, item)" by (meson surj_pair)
  have n: "to_string (yLogic s + 1) = dec_nat (Suc (length hs))"
    using to_string_of_nat[of "Suc (length hs)"] assms(1,3) by (simp add: copied_def add.commute)
  have "s' = s\<lparr>ydb := snd (ldb_put L (ydb s) (dec_nat (Suc (length hs))) h), yLogic := yLogic s + 1, yOut := yOut s @ h @ [LF]\<rparr>"
    using assms(2) h n put_status by (auto simp: copy_line_def bindE_eq_Inr Let_def case_prod_beta)
  then show ?thesis
    using assms(1) by (intro exI[of _ h]) (auto simp: copied_def view_put dec_nat_inject nth_append less_Suc_eq add.commute)
qed

lemma copy_lines_copied:
  assumes "copied view hs s" "foldE (copy_line L) ls s = Inr s'" "length hs + length ls < 2 ^ 31"
  shows "\<exists>hs'. length hs' = length hs + length ls \<and> copied view hs' s'"
  using assms
proof (induction ls arbitrary: hs s)
  case (Cons l ls)
  obtain s1 where s1: "copy_line L l s = Inr s1" "foldE (copy_line L) ls s1 = Inr s'" using Cons.prems(2) by (auto simp: bindE_eq_Inr)
  obtain h where "copied view (hs @ [h]) s1" using copy_line_copied[OF Cons.prems(1) s1(1)] Cons.prems(3) by auto
  from Cons.IH[OF this s1(2)] Cons.prems(3) show ?case by auto
qed auto

lemma outPutdb_copied:
  assumes "copied view hs s" "length hs < 2 ^ 31"
  shows "outPutdb L s = Inr (yOut s)"
proof -
  have n: "unat (yLogic s) = length hs" using assms by (simp add: copied_def unsigned_of_nat take_bit_nat_eq_self)
  let ?f = "\<lambda>i (exs, out). let (st, exs) = ldb_get L (ydb s) (dec_nat i) exs
     in (exs, (if st = StOk then out else out @ ''error'' @ [LF]) @ exs @ [LF])"
  have "k \<le> length hs \<Longrightarrow> snd (fold ?f [1..<Suc k] ([], [])) = concat (map (\<lambda>h. h @ [LF]) (take k hs))" for k
  proof (induction k)
    case (Suc k)
    obtain exs out where p: "fold ?f [1..<Suc k] ([], []) = (exs, out)" by (meson surj_pair)
    have "view (ydb s) (dec_nat (Suc k)) = Some (hs ! k)" using assms(1) Suc.prems by (simp add: copied_def)
    then have "ldb_get L (ydb s) (dec_nat (Suc k)) exs = (StOk, hs ! k)" by (rule get_hit)
    moreover have "fold ?f [1..<Suc (Suc k)] ([], []) = ?f (Suc k) (exs, out)" unfolding p[symmetric] by simp
    ultimately show ?case using Suc p by (simp add: take_Suc_conv_app_nth del: upt_Suc)
  qed simp
  from this[of "length hs"] have "snd (fold ?f [1..<Suc (unat (yLogic s))] ([], [])) = yOut s"
    unfolding n using assms(1) by (simp add: copied_def del: upt_Suc)
  then show ?thesis using assms(2) unfolding outPutdb_def n by (simp del: upt_Suc)
qed

text \<open>What the program reads back from the store is what it printed while it filled it.\<close>

lemma copy_roundtrip:
  assumes "readInChunks_copy L file \<lparr>ydb = d, yLogic = 0, yOut = []\<rparr> = Inr s" "length (fgets_lines file) < 2 ^ 31"
  shows "outPutdb L s = Inr (yOut s)"
proof -
  have "copied view [] \<lparr>ydb = d, yLogic = 0, yOut = []\<rparr>" by (simp add: copied_def)
  moreover have "length [] + length (drop 1 (fgets_lines file)) < 2 ^ 31" using assms(2) by simp
  ultimately obtain hs where "length hs = length (drop 1 (fgets_lines file))" "copied view hs s"
    using copy_lines_copied[OF _ assms(1)[unfolded readInChunks_copy_def], of "[]"] by auto
  then show ?thesis using assms(2) by (intro outPutdb_copied[of hs]) auto
qed

end

end
